(* ===== verification/Prelude.thy ===== *)
theory Prelude
  imports Main "HOL-Library.Signed_Division"
begin

text \<open>
  The vocabulary every component shares: how a C++ operation fails, the checked arithmetic of
  the 32-bit type \<open>int\<close>, the accesses of \<open>std::vector\<close>, and sequencing of operations that
  may fail.

  A handler of the program is a function into \<open>fault + 'a\<close>. The left side stands for an
  execution the source does not define (an access outside a vector, a dereferenced null
  pointer, a signed overflow) or that leaves the handler by a C++ exception; the right side is
  the value of an execution that returns.
\<close>

section \<open>Faults\<close>

datatype cpp_exn = Invalid_argument string | Std_out_of_range | Runtime_error string

datatype fault = Out_of_bounds | Null_deref | Int_overflow | Thrown cpp_exn

abbreviation Ok :: "'a \<Rightarrow> fault + 'a" where "Ok \<equiv> Inr"
abbreviation Fault :: "fault \<Rightarrow> fault + 'a" where "Fault \<equiv> Inl"

named_theorems result_simps \<open>rewriting of results and of their sequencing\<close>
named_theorems frame_simps \<open>which fields of a state an operation leaves alone\<close>

primrec ebind :: "fault + 'a \<Rightarrow> ('a \<Rightarrow> fault + 'b) \<Rightarrow> fault + 'b" where
  "ebind (Inl e) k = Inl e"
| "ebind (Inr x) k = k x"

lemma ebind_split [split]:
  "P (ebind r k) \<longleftrightarrow> (\<forall>e. r = Inl e \<longrightarrow> P (Inl e)) \<and> (\<forall>x. r = Inr x \<longrightarrow> P (k x))"
  by (cases r) auto

lemma ebind_split_asm [split]:
  "P (ebind r k) \<longleftrightarrow> \<not> ((\<exists>e. r = Inl e \<and> \<not> P (Inl e)) \<or> (\<exists>x. r = Inr x \<and> \<not> P (k x)))"
  by (cases r) auto

lemma ebind_cong [fundef_cong]:
  "r = r' \<Longrightarrow> (\<And>x. r' = Inr x \<Longrightarrow> k x = k' x) \<Longrightarrow> ebind r k = ebind r' k'"
  by (cases r') auto

lemma ebind_Ok_iff [result_simps]: "ebind r k = Inr y \<longleftrightarrow> (\<exists>x. r = Inr x \<and> k x = Inr y)"
  by (cases r) auto

lemma ebind_OkE [elim!]:
  assumes "ebind r k = Inr y"
  obtains x where "r = Inr x" and "k x = Inr y"
  using assms by (cases r) auto

text \<open>Evaluation decides the first result before it looks at the continuation.\<close>

lemma ebind_case [code_unfold]: "ebind r k = (case r of Inl e \<Rightarrow> Inl e | Inr x \<Rightarrow> k x)"
  by (cases r) simp_all

lemma ebind_assoc: "ebind (ebind r k) l = ebind r (\<lambda>x. ebind (k x) l)"
  by (cases r) auto

text \<open>An operation may be run once per element of a list, stopping at the first fault: the
  range-for loops of the source whose bodies only change the state.\<close>

primrec each :: "('a \<Rightarrow> 's \<Rightarrow> fault + 's) \<Rightarrow> 'a list \<Rightarrow> 's \<Rightarrow> fault + 's" where
  "each f [] s = Ok s"
| "each f (x # xs) s = ebind (f x s) (each f xs)"

lemma each_invariant:
  assumes "each f xs s = Inr s'" and "P s"
    and "\<And>x t t'. x \<in> set xs \<Longrightarrow> f x t = Inr t' \<Longrightarrow> P t \<Longrightarrow> P t'"
  shows "P s'"
  using assms
proof (induction xs arbitrary: s)
  case Nil
  then show ?case by simp
next
  case (Cons x xs)
  from Cons.prems(1) obtain t where t: "f x s = Inr t" and rest: "each f xs t = Inr s'"
    by auto
  show ?case
  proof (rule Cons.IH [OF rest])
    show "P t" using Cons.prems(2) Cons.prems(3) [OF _ t] by simp
  qed (use Cons.prems(3) in auto)
qed

lemma each_append: "each f (xs @ ys) s = ebind (each f xs s) (each f ys)"
  by (induction xs arbitrary: s) (auto simp: ebind_assoc)

lemma each_Ok:
  assumes "\<And>x t. x \<in> set xs \<Longrightarrow> f x t = Inr (g x t)"
  shows "each f xs s = Inr (fold g xs s)"
  using assms by (induction xs arbitrary: s) simp_all

section \<open>The 32-bit type int\<close>

definition int32_min :: int where "int32_min = - (2 ^ 31)"
definition int32_max :: int where "int32_max = 2 ^ 31 - 1"

definition in_int32 :: "int \<Rightarrow> bool" where
  "in_int32 x \<longleftrightarrow> int32_min \<le> x \<and> x \<le> int32_max"

lemma in_int32_code [simp]: "in_int32 x \<longleftrightarrow> - 2147483648 \<le> x \<and> x \<le> 2147483647"
  by (simp add: in_int32_def int32_min_def int32_max_def)

text \<open>Signed arithmetic: the mathematical result when it fits, and undefined otherwise.\<close>

definition cint :: "int \<Rightarrow> fault + int" where
  "cint x = (if in_int32 x then Ok x else Fault Int_overflow)"

definition iadd :: "int \<Rightarrow> int \<Rightarrow> fault + int" where "iadd x y = cint (x + y)"
definition isub :: "int \<Rightarrow> int \<Rightarrow> fault + int" where "isub x y = cint (x - y)"

lemma cint_Ok_iff [simp]: "cint x = Inr y \<longleftrightarrow> in_int32 x \<and> y = x"
  by (auto simp: cint_def)

lemma cint_Fault_iff [simp]: "cint x = Inl e \<longleftrightarrow> \<not> in_int32 x \<and> e = Int_overflow"
  by (auto simp: cint_def)

lemma iadd_Ok_iff [simp]: "iadd x y = Inr z \<longleftrightarrow> in_int32 (x + y) \<and> z = x + y"
  by (simp add: iadd_def)

lemma isub_Ok_iff [simp]: "isub x y = Inr z \<longleftrightarrow> in_int32 (x - y) \<and> z = x - y"
  by (simp add: isub_def)

lemma iadd_Fault_iff [simp]: "iadd x y = Inl e \<longleftrightarrow> \<not> in_int32 (x + y) \<and> e = Int_overflow"
  by (simp add: iadd_def)

lemma isub_Fault_iff [simp]: "isub x y = Inl e \<longleftrightarrow> \<not> in_int32 (x - y) \<and> e = Int_overflow"
  by (simp add: isub_def)

lemma smod_nonneg: "0 \<le> (a::int) \<Longrightarrow> 0 < b \<Longrightarrow> a smod b = a mod b"
  by (cases "a = 0") (simp_all add: signed_modulo_int_def signed_divide_int_def minus_div_mult_eq_mod)

lemma smod_range: "0 \<le> (a::int) \<Longrightarrow> 0 < b \<Longrightarrow> 0 \<le> a smod b \<and> a smod b < b"
  by (simp add: smod_nonneg)

section \<open>Vectors\<close>

text \<open>
  \<open>v[i]\<close> with an \<open>int\<close> index is not checked: outside the vector it is undefined.
  \<open>v.at(i)\<close> throws instead.
\<close>

definition vec_get :: "'a list \<Rightarrow> int \<Rightarrow> fault + 'a" where
  "vec_get xs i = (if 0 \<le> i \<and> i < int (length xs) then Ok (xs ! nat i) else Fault Out_of_bounds)"

definition vec_set :: "'a list \<Rightarrow> int \<Rightarrow> 'a \<Rightarrow> fault + 'a list" where
  "vec_set xs i v =
     (if 0 \<le> i \<and> i < int (length xs) then Ok (xs[nat i := v]) else Fault Out_of_bounds)"

definition vec_at :: "'a list \<Rightarrow> int \<Rightarrow> fault + 'a" where
  "vec_at xs i =
     (if 0 \<le> i \<and> i < int (length xs) then Ok (xs ! nat i) else Fault (Thrown Std_out_of_range))"

lemma vec_get_Ok_iff [simp]:
  "vec_get xs i = Inr x \<longleftrightarrow> 0 \<le> i \<and> i < int (length xs) \<and> x = xs ! nat i"
  by (auto simp: vec_get_def)

lemma vec_set_Ok_iff [simp]:
  "vec_set xs i v = Inr ys \<longleftrightarrow> 0 \<le> i \<and> i < int (length xs) \<and> ys = xs[nat i := v]"
  by (auto simp: vec_set_def)

lemma vec_at_Ok_iff [simp]:
  "vec_at xs i = Inr x \<longleftrightarrow> 0 \<le> i \<and> i < int (length xs) \<and> x = xs ! nat i"
  by (auto simp: vec_at_def)

lemma vec_get_Fault_iff [simp]:
  "vec_get xs i = Inl e \<longleftrightarrow> \<not> (0 \<le> i \<and> i < int (length xs)) \<and> e = Out_of_bounds"
  by (auto simp: vec_get_def)

lemma vec_set_Fault_iff [simp]:
  "vec_set xs i v = Inl e \<longleftrightarrow> \<not> (0 \<le> i \<and> i < int (length xs)) \<and> e = Out_of_bounds"
  by (auto simp: vec_set_def)

lemma vec_at_Fault_iff [simp]:
  "vec_at xs i = Inl e \<longleftrightarrow> \<not> (0 \<le> i \<and> i < int (length xs)) \<and> e = Thrown Std_out_of_range"
  by (auto simp: vec_at_def)

end
