(* ===== verification/Std_Map.thy ===== *)
theory Std_Map
  imports Prelude "HOL-Library.Char_ord" "HOL-Library.List_Lexorder"
begin

text \<open>
  \<open>std::map\<close> as the source uses it: lookup, assignment through \<open>operator[]\<close>, \<open>erase\<close>,
  \<open>size\<close> and the range-for loop, which visits the entries in increasing key order. A map is the
  list of its entries in that order; \<open>sm_wf\<close> says that the keys increase strictly. Strings are
  ordered as \<open>std::string\<close> orders them (bytewise, lexicographically).
\<close>

type_synonym ('k, 'v) smap = "('k \<times> 'v) list"

definition sm_wf :: "('k::linorder, 'v) smap \<Rightarrow> bool" where
  "sm_wf m \<longleftrightarrow> sorted_wrt (<) (map fst m)"

abbreviation sm_find :: "('k, 'v) smap \<Rightarrow> 'k \<Rightarrow> 'v option" where
  "sm_find m k \<equiv> map_of m k"

primrec sm_put :: "'k::linorder \<Rightarrow> 'v \<Rightarrow> ('k, 'v) smap \<Rightarrow> ('k, 'v) smap" where
  "sm_put k v [] = [(k, v)]"
| "sm_put k v (e # m) =
     (if fst e < k then e # sm_put k v m
      else if fst e = k then (k, v) # m
      else (k, v) # e # m)"

definition sm_erase :: "'k \<Rightarrow> ('k, 'v) smap \<Rightarrow> ('k, 'v) smap" where
  "sm_erase k m = filter (\<lambda>e. fst e \<noteq> k) m"

definition sm_keys :: "('k, 'v) smap \<Rightarrow> 'k set" where "sm_keys m = fst ` set m"

definition sm_vals :: "('k, 'v) smap \<Rightarrow> 'v list" where "sm_vals m = map snd m"

text \<open>The lookup \<open>m[k]\<close> of a map whose values default to \<open>d\<close>: a missing key is inserted.\<close>

definition sm_index :: "'v \<Rightarrow> 'k::linorder \<Rightarrow> ('k, 'v) smap \<Rightarrow> 'v \<times> ('k, 'v) smap" where
  "sm_index d k m = (case sm_find m k of Some v \<Rightarrow> (v, m) | None \<Rightarrow> (d, sm_put k d m))"

section \<open>Keys and lookup\<close>

lemma sm_wf_Nil [simp]: "sm_wf []"
  by (simp add: sm_wf_def)

lemma sm_wf_Cons [simp]: "sm_wf (e # m) \<longleftrightarrow> (\<forall>x\<in>set m. fst e < fst x) \<and> sm_wf m"
  by (auto simp: sm_wf_def)

lemma sm_keys_Nil [simp]: "sm_keys [] = {}"
  by (simp add: sm_keys_def)

lemma sm_keys_find: "k \<in> sm_keys m \<longleftrightarrow> sm_find m k \<noteq> None"
  by (simp add: sm_keys_def map_of_eq_None_iff)

lemma sm_keys_eq: "sm_keys m = {k. sm_find m k \<noteq> None}"
  using sm_keys_find [of _ m] by blast

lemma finite_sm_keys [simp]: "finite (sm_keys m)"
  by (simp add: sm_keys_def)

lemma sm_find_put [simp]: "sm_find (sm_put k v m) x = (if x = k then Some v else sm_find m x)"
  by (induction m) auto

lemma sm_keys_put [simp]: "sm_keys (sm_put k v m) = insert k (sm_keys m)"
  by (auto simp: sm_keys_find split: if_splits)

lemma set_sm_put: "set (sm_put k v m) \<subseteq> insert (k, v) (set m)"
  by (induction m) auto

lemma sm_put_mem: "x \<in> set (sm_put k v m) \<Longrightarrow> x = (k, v) \<or> x \<in> set m"
  using set_sm_put by fastforce

lemma fst_sm_put: "fst ` set (sm_put k v m) = insert k (fst ` set m)"
  using sm_keys_put [of k v m] by (simp add: sm_keys_def)

lemma sm_wf_put [simp]: "sm_wf m \<Longrightarrow> sm_wf (sm_put k v m)"
proof (induction m)
  case Nil
  then show ?case by simp
next
  case (Cons e m)
  then show ?case
    by (auto dest!: sm_put_mem)
qed

lemma sm_wf_erase [simp]: "sm_wf m \<Longrightarrow> sm_wf (sm_erase k m)"
  by (induction m) (auto simp: sm_erase_def)

lemma sm_find_erase [simp]: "sm_find (sm_erase k m) x = (if x = k then None else sm_find m x)"
  by (induction m) (auto simp: sm_erase_def)

lemma sm_keys_erase [simp]: "sm_keys (sm_erase k m) = sm_keys m - {k}"
  by (auto simp: sm_keys_find split: if_splits)

lemma set_sm_erase: "set (sm_erase k m) \<subseteq> set m"
  by (auto simp: sm_erase_def)

lemma sm_wf_distinct: "sm_wf m \<Longrightarrow> distinct (map fst m)"
  by (induction m) auto

lemma sm_find_mem: "sm_wf m \<Longrightarrow> sm_find m k = Some v \<longleftrightarrow> (k, v) \<in> set m"
  by (simp add: sm_wf_distinct)

text \<open>\<open>m.size()\<close> counts keys: a quorum counted by the size of a map is a set of distinct
  senders.\<close>

lemma sm_size_keys: "sm_wf m \<Longrightarrow> length m = card (sm_keys m)"
  by (metis distinct_card length_map list.set_map sm_keys_def sm_wf_distinct)

lemma length_sm_put:
  "sm_wf m \<Longrightarrow> length (sm_put k v m) = (if k \<in> sm_keys m then length m else Suc (length m))"
  by (simp add: sm_size_keys insert_absorb)

lemma length_sm_put_ge: "length m \<le> length (sm_put k v m)"
  by (induction m) auto

lemma sm_wf_ext:
  assumes "sm_wf m" and "sm_wf m'" and "\<And>k. sm_find m k = sm_find m' k"
  shows "m = m'"
proof -
  have "set m = set m'"
    using assms by (auto simp flip: sm_find_mem)
  moreover have "sorted (map fst m)" and "sorted (map fst m')"
    using assms by (simp_all add: sm_wf_def strict_sorted_imp_sorted)
  moreover have "fst ` set m = fst ` set m'"
    using \<open>set m = set m'\<close> by simp
  ultimately have fsts: "map fst m = map fst m'"
    using assms sm_wf_distinct by (metis list.set_map sorted_distinct_set_unique)
  show ?thesis
  proof (rule nth_equalityI)
    show len: "length m = length m'" using fsts by (rule map_eq_imp_length_eq)
    fix i assume i: "i < length m"
    have k: "fst (m ! i) = fst (m' ! i)"
      using fsts i len by (metis nth_map)
    have "sm_find m (fst (m ! i)) = Some (snd (m ! i))"
      using assms(1) i by (simp add: sm_find_mem)
    moreover have "sm_find m' (fst (m' ! i)) = Some (snd (m' ! i))"
      using assms(2) i len by (simp add: sm_find_mem)
    ultimately show "m ! i = m' ! i"
      using assms(3) k by (metis option.inject prod.collapse)
  qed
qed

section \<open>The contract of an ordered map\<close>

text \<open>
  What the components rely on when they keep per-sender proofs or per-account balances in a map:
  lookup after assignment and erasure, and that the number of entries is the number of keys.
\<close>

locale ordered_map =
  fixes empty :: "'m"
    and find :: "'m \<Rightarrow> 'k \<Rightarrow> 'v option"
    and put :: "'k \<Rightarrow> 'v \<Rightarrow> 'm \<Rightarrow> 'm"
    and erase :: "'k \<Rightarrow> 'm \<Rightarrow> 'm"
    and count :: "'m \<Rightarrow> nat"
    and invar :: "'m \<Rightarrow> bool"
  assumes invar_empty: "invar empty"
    and invar_put: "invar m \<Longrightarrow> invar (put k v m)"
    and invar_erase: "invar m \<Longrightarrow> invar (erase k m)"
    and find_empty: "find empty k = None"
    and find_put: "find (put k v m) x = (if x = k then Some v else find m x)"
    and find_erase: "find (erase k m) x = (if x = k then None else find m x)"
    and count_find: "invar m \<Longrightarrow> count m = card {k. find m k \<noteq> None}"
    and finite_find: "finite {k. find m k \<noteq> None}"
begin

lemma put_same_count:
  assumes "invar m" and "find m k \<noteq> None"
  shows "count (put k v m) = count m"
proof -
  have "{x. find (put k v m) x \<noteq> None} = {x. find m x \<noteq> None}"
    using assms(2) by (auto simp: find_put)
  then show ?thesis using assms(1) by (simp add: count_find invar_put)
qed

lemma put_fresh_count:
  assumes "invar m" and "find m k = None"
  shows "count (put k v m) = Suc (count m)"
proof -
  have "{x. find (put k v m) x \<noteq> None} = insert k {x. find m x \<noteq> None}"
    by (auto simp: find_put)
  then show ?thesis
    using assms finite_find [of m] by (simp add: count_find invar_put)
qed

text \<open>Two quorums over the same finite universe of keys overlap in at least the excess.\<close>

lemma quorums_overlap:
  assumes "invar m" and "invar m'" and "finite U"
    and "{k. find m k \<noteq> None} \<subseteq> U" and "{k. find m' k \<noteq> None} \<subseteq> U"
  shows "count m + count m' - card U \<le> card ({k. find m k \<noteq> None} \<inter> {k. find m' k \<noteq> None})"
proof -
  let ?A = "{k. find m k \<noteq> None}" and ?B = "{k. find m' k \<noteq> None}"
  have "card ?A + card ?B = card (?A \<union> ?B) + card (?A \<inter> ?B)"
    by (rule card_Un_Int [OF finite_find finite_find])
  moreover have "card (?A \<union> ?B) \<le> card U"
    using assms by (intro card_mono) auto
  ultimately show ?thesis using assms by (simp add: count_find)
qed

end

interpretation stdmap: ordered_map "[]" "sm_find" sm_put sm_erase length sm_wf
proof unfold_locales
  fix m :: "('a \<times> 'b) list"
  show "sm_wf m \<Longrightarrow> length m = card {k. sm_find m k \<noteq> None}"
    by (simp only: sm_size_keys sm_keys_eq)
  show "finite {k. sm_find m k \<noteq> None}"
    using finite_dom_map_of [of m] by (simp add: dom_def)
qed auto

lemma sm_quorums_overlap:
  fixes m m' :: "('k::linorder, 'v) smap"
  assumes "sm_wf m" and "sm_wf m'" and "finite U" and "sm_keys m \<subseteq> U" and "sm_keys m' \<subseteq> U"
  shows "length m + length m' - card U \<le> card (sm_keys m \<inter> sm_keys m')"
  using stdmap.quorums_overlap [OF assms(1-3)] assms(4,5) by (simp only: sm_keys_eq)

text \<open>\<open>operator[]\<close> on a missing key changes the map but no lookup of another key.\<close>

lemma sm_index_find: "sm_index d k m = (v, m') \<Longrightarrow>
    v = (case sm_find m k of Some v \<Rightarrow> v | None \<Rightarrow> d) \<and>
    sm_find m' x = (if x = k then Some v else sm_find m x)"
  by (auto simp: sm_index_def split: option.splits)

lemma sm_index_wf: "sm_wf m \<Longrightarrow> sm_index d k m = (v, m') \<Longrightarrow> sm_wf m'"
  by (auto simp: sm_index_def split: option.splits)

section \<open>Sums over the values\<close>

definition sm_total :: "('k, int) smap \<Rightarrow> int" where "sm_total m = sum_list (sm_vals m)"

lemma sm_total_put:
  "sm_wf m \<Longrightarrow>
     sm_total (sm_put k v m) = sm_total m + v - (case sm_find m k of Some u \<Rightarrow> u | None \<Rightarrow> 0)"
proof (induction m)
  case Nil
  then show ?case by (simp add: sm_total_def sm_vals_def)
next
  case (Cons e m)
  have "sm_find m k = None" if "k \<le> fst e"
    using that Cons.prems by (force simp: map_of_eq_None_iff)
  with Cons show ?case
    by (cases "fst e < k") (auto simp: sm_total_def sm_vals_def split: option.splits)
qed

end
