(* ===== verification/Std_String.thy ===== *)
theory Std_String
  imports Prelude "HOL-Library.Word"
begin

text \<open>
  The string routines of the C++ library that the source calls: \<open>std::to_string\<close> on \<open>int\<close>,
  \<open>std::stoi\<close>, \<open>strtol\<close> in base 16, and the hexadecimal rendering of a byte through
  \<open>std::hex\<close>, \<open>std::setw(2)\<close> and \<open>std::setfill('0')\<close>. A \<open>std::string\<close> is a list of bytes.
\<close>

section \<open>Digits\<close>

definition digit_char :: "nat \<Rightarrow> char" where
  "digit_char d = (if d < 10 then char_of (48 + d) else char_of (87 + d))"

definition char_code :: "char \<Rightarrow> nat" where "char_code c = of_char c"

definition digit_val :: "char \<Rightarrow> nat option" where
  "digit_val c =
     (let n = char_code c in
      if 48 \<le> n \<and> n \<le> 57 then Some (n - 48)
      else if 97 \<le> n \<and> n \<le> 102 then Some (n - 87)
      else if 65 \<le> n \<and> n \<le> 70 then Some (n - 55)
      else None)"

definition is_digit :: "nat \<Rightarrow> char \<Rightarrow> bool" where
  "is_digit base c = (case digit_val c of None \<Rightarrow> False | Some d \<Rightarrow> d < base)"

definition is_space :: "char \<Rightarrow> bool" where
  "is_space c = (let n = char_code c in n = 32 \<or> (9 \<le> n \<and> n \<le> 13))"

lemma char_code_char_of [simp]: "n < 256 \<Longrightarrow> char_code (char_of n) = n"
  by (simp add: char_code_def)

lemma digit_val_char [simp]: "d < 16 \<Longrightarrow> digit_val (digit_char d) = Some d"
  by (auto simp: digit_val_def digit_char_def Let_def)

lemma is_digit_char [simp]: "d < base \<Longrightarrow> base \<le> 16 \<Longrightarrow> is_digit base (digit_char d)"
  by (simp add: is_digit_def)

lemma not_space_digit [simp]: "d < 16 \<Longrightarrow> \<not> is_space (digit_char d)"
  by (auto simp: is_space_def digit_char_def Let_def)

text \<open>The value of a run of digits.\<close>

definition digits_val :: "nat \<Rightarrow> string \<Rightarrow> nat" where
  "digits_val base cs = foldl (\<lambda>a c. a * base + the (digit_val c)) 0 cs"

lemma digits_val_snoc:
  "digits_val base (cs @ [c]) = digits_val base cs * base + the (digit_val c)"
  by (simp add: digits_val_def)

section \<open>std::to\_string and std::stoi\<close>

fun show_nat :: "nat \<Rightarrow> string" where
  "show_nat n = (if n < 10 then [digit_char n] else show_nat (n div 10) @ [digit_char (n mod 10)])"

declare show_nat.simps [simp del]

definition to_string :: "int \<Rightarrow> string" where
  "to_string i = (if i < 0 then CHR ''-'' # show_nat (nat (- i)) else show_nat (nat i))"

lemma show_nat_digits: "list_all (is_digit 10) (show_nat n)"
proof (induction n rule: show_nat.induct)
  case (1 n)
  then show ?case by (cases "n < 10") (simp_all add: show_nat.simps [of n])
qed

lemma show_nat_hd: "\<exists>d ds. show_nat n = digit_char d # ds \<and> d < 10"
proof (induction n rule: show_nat.induct)
  case (1 n)
  then show ?case by (cases "n < 10") (auto simp: show_nat.simps [of n])
qed

lemma digits_val_show_nat: "digits_val 10 (show_nat n) = n"
proof (induction n rule: show_nat.induct)
  case (1 n)
  show ?case
  proof (cases "n < 10")
    case True
    then show ?thesis by (simp add: show_nat.simps [of n] digits_val_def)
  next
    case False
    with 1 show ?thesis by (simp add: show_nat.simps [of n] digits_val_snoc)
  qed
qed

text \<open>
  \<open>std::stoi\<close> skips white space, takes an optional sign and the longest run of decimal digits,
  ignores the rest, and throws when there is no digit or when the value is not an \<open>int\<close>.
\<close>

definition split_sign :: "string \<Rightarrow> bool \<times> string" where
  "split_sign s =
     (case s of [] \<Rightarrow> (False, [])
      | c # cs \<Rightarrow> if c = CHR ''-'' then (True, cs) else if c = CHR ''+'' then (False, cs)
                  else (False, c # cs))"

definition stoi :: "string \<Rightarrow> fault + int" where
  "stoi s =
     (let (neg, cs) = split_sign (dropWhile is_space s);
          ds = takeWhile (is_digit 10) cs;
          v = int (digits_val 10 ds);
          i = (if neg then - v else v) in
      if ds = [] then Fault (Thrown (Invalid_argument ''stoi''))
      else if in_int32 i then Ok i
      else Fault (Thrown Std_out_of_range))"

lemma takeWhile_all: "list_all P xs \<Longrightarrow> takeWhile P (xs @ ys) = xs @ takeWhile P ys"
  by (induction xs) auto

lemma digit_char_not_sign [simp]:
  "d < 10 \<Longrightarrow> digit_char d \<noteq> CHR ''-''" "d < 10 \<Longrightarrow> digit_char d \<noteq> CHR ''+''"
proof -
  assume d: "d < 10"
  have "char_code (digit_char d) = 48 + d" using d by (simp add: digit_char_def)
  moreover have "char_code (CHR ''-'') = 45" "char_code (CHR ''+'') = 43"
    by (simp_all add: char_code_def)
  ultimately show "digit_char d \<noteq> CHR ''-''" and "digit_char d \<noteq> CHR ''+''" by force+
qed

lemma stoi_sign_digits:
  assumes "split_sign (dropWhile is_space s) = (neg, cs)"
    and "takeWhile (is_digit 10) cs = show_nat n"
    and "i = (if neg then - int n else int n)" and "in_int32 i"
  shows "stoi s = Inr i"
proof -
  have "show_nat n \<noteq> []" using show_nat_hd [of n] by auto
  with assms show ?thesis
    by (auto simp: stoi_def Let_def digits_val_show_nat simp del: in_int32_code)
qed

lemma stoi_show_nat:
  assumes "list_all (\<lambda>c. \<not> is_digit 10 c) (take 1 rest)" and "int n \<le> int32_max"
  shows "stoi (show_nat n @ rest) = Inr (int n)"
proof (rule stoi_sign_digits)
  obtain d ds where hd: "show_nat n = digit_char d # ds" "d < 10"
    using show_nat_hd by blast
  then show "split_sign (dropWhile is_space (show_nat n @ rest)) = (False, show_nat n @ rest)"
    by (simp add: split_sign_def)
  have "takeWhile (is_digit 10) rest = []"
    using assms(1) by (cases rest) auto
  then show "takeWhile (is_digit 10) (show_nat n @ rest) = show_nat n"
    by (simp only: takeWhile_all [OF show_nat_digits] append_Nil2)
qed (use assms(2) in \<open>simp_all add: int32_max_def\<close>)

theorem stoi_to_string:
  assumes "in_int32 i"
  shows "stoi (to_string i) = Inr i"
proof (cases "i < 0")
  case False
  then show ?thesis
    using assms stoi_show_nat [of "[]" "nat i"] by (simp add: to_string_def int32_max_def)
next
  case True
  have "\<not> is_space (CHR ''-'')" by (simp add: is_space_def char_code_def)
  then have "split_sign (dropWhile is_space (to_string i)) = (True, show_nat (nat (- i)))"
    using True by (simp add: to_string_def split_sign_def)
  moreover have "takeWhile (is_digit 10) (show_nat (nat (- i))) = show_nat (nat (- i))"
    using takeWhile_all [OF show_nat_digits, of "nat (- i)" "[]"] by simp
  ultimately show ?thesis
    by (rule stoi_sign_digits) (use True assms in simp_all)
qed

lemma to_string_inj: "in_int32 i \<Longrightarrow> in_int32 j \<Longrightarrow> to_string i = to_string j \<Longrightarrow> i = j"
  by (metis stoi_to_string sum.inject(2))

section \<open>Bytes in hexadecimal\<close>

type_synonym byte = "8 word"

definition hex_byte :: "byte \<Rightarrow> string" where
  "hex_byte b = [digit_char (unat b div 16), digit_char (unat b mod 16)]"

definition hex_encode :: "byte list \<Rightarrow> string" where
  "hex_encode bs = concat (map hex_byte bs)"

text \<open>
  \<open>strtol(s, NULL, 16)\<close>: white space, sign, an optional \<open>0x\<close> or \<open>0X\<close> that a digit follows,
  then the longest run of hexadecimal digits; 0 when there is none.
\<close>

definition strip_0x :: "string \<Rightarrow> string" where
  "strip_0x s =
     (case s of a # x # d # cs \<Rightarrow>
        if a = CHR ''0'' \<and> (x = CHR ''x'' \<or> x = CHR ''X'') \<and> is_digit 16 d then d # cs else s
      | _ \<Rightarrow> s)"

definition strtol16 :: "string \<Rightarrow> int" where
  "strtol16 s =
     (let (neg, cs) = split_sign (dropWhile is_space s);
          v = int (digits_val 16 (takeWhile (is_digit 16) (strip_0x cs))) in
      if neg then - v else v)"

text \<open>The loop of \<open>verifyECDSA\<close> that turns a hexadecimal string into bytes, two characters at
  a time; an odd last character is a group of one.\<close>

fun hex_decode :: "string \<Rightarrow> byte list" where
  "hex_decode [] = []"
| "hex_decode [c] = [of_int (strtol16 [c])]"
| "hex_decode (c # d # cs) = of_int (strtol16 [c, d]) # hex_decode cs"

lemma digit_char_not_sign16 [simp]:
  assumes "d < 16"
  shows "digit_char d \<noteq> CHR ''-''" and "digit_char d \<noteq> CHR ''+''"
proof -
  have "char_code (digit_char d) \<ge> 48" using assms by (simp add: digit_char_def)
  moreover have "char_code (CHR ''-'') = 45" "char_code (CHR ''+'') = 43"
    by (simp_all add: char_code_def)
  ultimately show "digit_char d \<noteq> CHR ''-''" and "digit_char d \<noteq> CHR ''+''" by force+
qed

lemma strtol16_hex_byte: "strtol16 (hex_byte b) = uint b"
proof -
  have "unat b < 2 ^ LENGTH(8)" by (rule unsigned_less)
  then have b: "unat b < 256" by simp
  then have d: "unat b div 16 < 16" "unat b mod 16 < 16" by auto
  then have "strtol16 (hex_byte b) = int (unat b div 16 * 16 + unat b mod 16)"
    by (simp add: strtol16_def hex_byte_def split_sign_def strip_0x_def digits_val_def)
  then show ?thesis by simp
qed

theorem hex_decode_encode: "hex_decode (hex_encode bs) = bs"
proof (induction bs)
  case Nil
  then show ?case by (simp add: hex_encode_def)
next
  case (Cons b bs)
  have "hex_decode (hex_encode (b # bs)) = of_int (strtol16 (hex_byte b)) # bs"
    using Cons by (simp add: hex_encode_def hex_byte_def)
  then show ?case by (simp add: strtol16_hex_byte)
qed

lemma hex_encode_inj: "hex_encode bs = hex_encode cs \<Longrightarrow> bs = cs"
  by (metis hex_decode_encode)

lemma length_hex_encode: "length (hex_encode bs) = 2 * length bs"
  by (induction bs) (simp_all add: hex_encode_def hex_byte_def)

end
