(* ===== verification/Messages.thy ===== *)
theory Messages
  imports Std_Map Std_String
begin

text \<open>
  The protocol's data: the messages of \<open>proto/pbft.proto\<close>, the enumerations and structures of
  \<open>types/\<close>, the address tables of \<open>constants.cc\<close>, and the environment a process runs in. A protobuf
  message is a record of its fields; an unset field has the proto3 default (0, the empty string,
  the empty list). Which bytes \<open>SerializeToString\<close> produces is generated code, so the serialisers
  are parameters of the environment.
\<close>

section \<open>Enumerations\<close>

datatype RequestTypes =
    TRANSFER | PRE_PREPARE | PRE_PREPARE_OK | PREPARE | PREPARE_OK | COMMIT | VIEW_CHANGE | NEW_VIEW
  | NOTIFY | PROCESS | CHECKPOINT | SYNC | SYNC_OK | GET_LOG | GET_DB | GET_STATUS
  | GET_VIEW_CHANGES | GET_PERFORMANCE

datatype MessageStatus = NO_STATUS | PRE_PREPARED | PREPARED | COMMITTED | EXECUTED

section \<open>Messages\<close>

record TransactionData =
  td_sender :: string
  td_receiver :: string
  td_amount :: int
  td_timestamp :: int

record Signature =
  sg_sig :: string
  sg_server_id :: int

record Message =
  ms_data :: TransactionData
  ms_signature :: Signature

record ResponseData =
  rd_tdata :: TransactionData
  rd_ack :: bool
  rd_view_num :: int

record Response =
  rs_data :: ResponseData
  rs_signature :: Signature

record Context =
  cx_view_num :: int
  cx_sequence_num :: int
  cx_digest :: string

record SignatureVec =
  sv_signatures :: "string list"
  sv_server_id :: int

record Request =
  rq_data :: Context
  rq_sig_vec :: SignatureVec

record PrePrepareRequest =
  pp_r :: Request
  pp_m :: Message

record ProofRequest =
  pf_data :: Context
  pf_sig_vecs :: "SignatureVec list"

record CheckpointData =
  cd_c_seq_num :: int
  cd_c_digest :: string

record CheckpointReq =
  cr_data :: CheckpointData
  cr_signature :: Signature

record PrepareProof =
  pr_pre_prepare :: Request
  pr_prepares :: "Request list"

record ViewChangeData =
  vd_view_num :: int
  vd_last_checkpoint :: CheckpointData
  vd_cproofs :: "CheckpointReq list"
  vd_pproofs :: "PrepareProof list"

record ViewChangeReq =
  vc_data :: ViewChangeData
  vc_signature :: Signature

record NewViewData =
  nd_view_num :: int
  nd_vproofs :: "ViewChangeReq list"
  nd_pre_prepares :: "Request list"

record NewViewReq =
  nv_data :: NewViewData
  nv_signature :: Signature

section \<open>Default instances\<close>

definition default_td :: TransactionData where
  "default_td = \<lparr>td_sender = '''', td_receiver = '''', td_amount = 0, td_timestamp = 0\<rparr>"

definition default_sig :: Signature where
  "default_sig = \<lparr>sg_sig = '''', sg_server_id = 0\<rparr>"

definition default_msg :: Message where
  "default_msg = \<lparr>ms_data = default_td, ms_signature = default_sig\<rparr>"

definition default_sigvec :: SignatureVec where
  "default_sigvec = \<lparr>sv_signatures = [], sv_server_id = 0\<rparr>"

definition default_ctx :: Context where
  "default_ctx = \<lparr>cx_view_num = 0, cx_sequence_num = 0, cx_digest = ''''\<rparr>"

definition default_request :: Request where
  "default_request = \<lparr>rq_data = default_ctx, rq_sig_vec = default_sigvec\<rparr>"

section \<open>Replies to the driver\<close>

record LogEntry =
  le_t :: TransactionData
  le_matching_prepares :: int
  le_matching_commits :: int
  le_valid :: bool

record GetLogRes =
  gl_entries :: "LogEntry list"
  gl_last_committed :: int
  gl_last_executed :: int
  gl_last_checkpoint :: int
  gl_last_stable_checkpoint :: int

record ViewChangesResEntry =
  ve_view_num :: int
  ve_initiator :: string
  ve_stable_checkpoint :: int

section \<open>Address tables\<close>

definition serverNames :: "string list" where
  "serverNames = [''S1'', ''S2'', ''S3'', ''S4'', ''S5'', ''S6'', ''S7'']"

definition serverAddresses :: "(string, string) smap" where
  "serverAddresses =
    [(''S1'', ''localhost:50051''), (''S2'', ''localhost:50052''), (''S3'', ''localhost:50053''),
     (''S4'', ''localhost:50054''), (''S5'', ''localhost:50055''), (''S6'', ''localhost:50056''),
     (''S7'', ''localhost:50057'')]"

definition clientAddresses :: "(string, string) smap" where
  "clientAddresses =
    [(''A'', ''localhost:60060''), (''B'', ''localhost:60061''), (''C'', ''localhost:60062''),
     (''D'', ''localhost:60063''), (''E'', ''localhost:60064''), (''F'', ''localhost:60065''),
     (''G'', ''localhost:60066''), (''H'', ''localhost:60067''), (''I'', ''localhost:60068''),
     (''J'', ''localhost:60069'')]"

lemma serverAddresses_wf: "sm_wf serverAddresses"
  by (simp add: serverAddresses_def less_char_def)

lemma clientAddresses_wf: "sm_wf clientAddresses"
  by (simp add: clientAddresses_def less_char_def)

text \<open>The stub vectors hold one stub per table entry.\<close>

definition num_servers :: int where "num_servers = int (length serverAddresses)"
definition num_clients :: int where "num_clients = int (length clientAddresses)"

lemma num_servers [simp]: "num_servers = 7"
  by (simp add: num_servers_def serverAddresses_def)

lemma num_clients [simp]: "num_clients = 10"
  by (simp add: num_clients_def clientAddresses_def)

section \<open>The environment of a process\<close>

text \<open>
  \<open>env_files\<close> gives the contents of a readable file. \<open>evp_sha256\<close>, \<open>evp_sign\<close>, \<open>evp_verify\<close> and
  \<open>evp_hmac\<close> stand for the chains of OpenSSL calls in \<open>crypto.cc\<close> (\<open>None\<close> or \<open>False\<close> when one of
  the calls of the chain fails); the first argument of the last three is the contents of the key
  file. \<open>ser_x\<close> is \<open>SerializeToString\<close> of message type \<open>x\<close>. \<open>env_now\<close> is the reading of the system
  clock in nanoseconds while a handler runs, and \<open>env_junk\<close> the indeterminate value of the member
  \<open>result\<close> in a fresh \<open>MessageInfo\<close>, which its constructor leaves unset.
\<close>

record env =
  env_files :: "string \<Rightarrow> string option"
  evp_sha256 :: "string \<Rightarrow> byte list option"
  evp_sign :: "string \<Rightarrow> string \<Rightarrow> byte list option"
  evp_verify :: "string \<Rightarrow> string \<Rightarrow> byte list \<Rightarrow> bool"
  evp_hmac :: "string \<Rightarrow> string \<Rightarrow> byte list option"
  ser_td :: "TransactionData \<Rightarrow> string"
  ser_rd :: "ResponseData \<Rightarrow> string"
  ser_ctx :: "Context \<Rightarrow> string"
  ser_request :: "Request \<Rightarrow> string"
  ser_cd :: "CheckpointData \<Rightarrow> string"
  ser_vd :: "ViewChangeData \<Rightarrow> string"
  ser_nd :: "NewViewData \<Rightarrow> string"
  env_now :: int
  env_junk :: bool

end
