(* ===== verification/Crypto.thy ===== *)
theory Crypto
  imports Messages
begin

text \<open>
  The wrappers of \<open>crypto/crypto.cc\<close> around OpenSSL and the key file names of \<open>utils/utils.cc\<close>. A
  wrapper reads its key file, runs the OpenSSL chain on the data and renders the bytes in
  hexadecimal; when a step fails it returns the empty string (or \<open>false\<close>).
\<close>

section \<open>Key files\<close>

definition clientPrECDSAKeyPath :: "int \<Rightarrow> string" where
  "clientPrECDSAKeyPath i = ''keys/client/ECDSA/private/c'' @ to_string i @ ''_private.pem''"

definition clientPbECDSAKeyPath :: "int \<Rightarrow> string" where
  "clientPbECDSAKeyPath i = ''keys/client/ECDSA/public/c'' @ to_string i @ ''_public.pem''"

definition serverPrECDSAKeyPath :: "int \<Rightarrow> string" where
  "serverPrECDSAKeyPath i = ''keys/server/ECDSA/private/s'' @ to_string i @ ''_private.pem''"

definition serverPbECDSAKeyPath :: "int \<Rightarrow> string" where
  "serverPbECDSAKeyPath i = ''keys/server/ECDSA/public/s'' @ to_string i @ ''_public.pem''"

definition macKeyPath :: "int \<Rightarrow> int \<Rightarrow> string" where
  "macKeyPath a b =
     (let (x, y) = (if a > b then (b, a) else (a, b)) in
      ''keys/server/MAC/s'' @ to_string x @ ''_s'' @ to_string y @ ''.bin'')"

section \<open>Digests, signatures, message authentication codes\<close>

definition sha256Digest :: "env \<Rightarrow> string \<Rightarrow> string" where
  "sha256Digest E d = (case evp_sha256 E d of None \<Rightarrow> '''' | Some bs \<Rightarrow> hex_encode bs)"

definition signECDSA :: "env \<Rightarrow> string \<Rightarrow> string \<Rightarrow> string" where
  "signECDSA E d pemPath =
     (case env_files E pemPath of
        None \<Rightarrow> ''''
      | Some pem \<Rightarrow>
          (case evp_sign E pem d of None \<Rightarrow> '''' | Some bs \<Rightarrow> hex_encode bs))"

definition verifyECDSA :: "env \<Rightarrow> string \<Rightarrow> string \<Rightarrow> string \<Rightarrow> bool" where
  "verifyECDSA E d signatureHex pemPath =
     (case env_files E pemPath of
        None \<Rightarrow> False
      | Some pem \<Rightarrow> evp_verify E pem d (hex_decode signatureHex))"

definition signMAC :: "env \<Rightarrow> string \<Rightarrow> string \<Rightarrow> string" where
  "signMAC E d binPath =
     (case env_files E binPath of
        None \<Rightarrow> ''''
      | Some key \<Rightarrow>
          (case evp_hmac E key d of None \<Rightarrow> '''' | Some bs \<Rightarrow> hex_encode bs))"

text \<open>The first statement of \<open>verifyMAC\<close> is \<open>return true\<close>; the comparison after it never runs.
  \<open>verifyMAC_rest\<close> is that unreachable comparison.\<close>

definition verifyMAC :: "env \<Rightarrow> string \<Rightarrow> string \<Rightarrow> string \<Rightarrow> bool" where
  "verifyMAC E d signatureHex binPath = True"

definition verifyMAC_rest :: "env \<Rightarrow> string \<Rightarrow> string \<Rightarrow> string \<Rightarrow> bool" where
  "verifyMAC_rest E d signatureHex binPath = (signMAC E d binPath = signatureHex)"

section \<open>Distinct pairs of servers use distinct key files\<close>

lemma to_string_chars: "\<forall>c \<in> set (to_string i). is_digit 10 c \<or> c = CHR ''-''"
  using show_nat_digits by (auto simp: to_string_def list_all_iff)

lemma underscore_not_digit: "\<not> is_digit 10 (CHR ''_'')"
  by (simp add: is_digit_def digit_val_def char_code_def)

text \<open>A number followed by a character that no number contains can be read back.\<close>

lemma split_at_stop:
  assumes "\<forall>c \<in> set xs. P c" and "\<forall>c \<in> set ys. P c" and "\<not> P z"
    and "xs @ z # us = ys @ z # vs"
  shows "xs = ys \<and> us = vs"
proof -
  have "takeWhile P (xs @ z # us) = xs" and "takeWhile P (ys @ z # vs) = ys"
    using assms(1-3) by (simp_all add: takeWhile_append)
  with assms(4) show ?thesis by (metis append_eq_append_conv list.inject)
qed

theorem macKeyPath_sym: "macKeyPath a b = macKeyPath b a"
  by (simp add: macKeyPath_def)

lemma macKeyPath_ordered_inj:
  assumes "to_string a @ ''_s'' @ to_string b @ ''.bin'' = to_string c @ ''_s'' @ to_string d @ ''.bin''"
  shows "to_string a = to_string c \<and> to_string b = to_string d"
proof -
  let ?P = "\<lambda>c. is_digit 10 c \<or> c = CHR ''-''"
  have "to_string a = to_string c \<and> CHR ''s'' # to_string b @ ''.bin'' = CHR ''s'' # to_string d @ ''.bin''"
    using assms by (intro split_at_stop [where P = ?P and z = "CHR ''_''"])
      (simp_all add: to_string_chars underscore_not_digit)
  then show ?thesis by simp
qed

theorem macKeyPath_inj:
  assumes "in_int32 a" "in_int32 b" "in_int32 c" "in_int32 d"
    and "macKeyPath a b = macKeyPath c d"
  shows "{a, b} = {c, d}"
proof -
  define lo hi where "lo = min a b" and "hi = max a b"
  define lo' hi' where "lo' = min c d" and "hi' = max c d"
  have eq: "to_string lo @ ''_s'' @ to_string hi @ ''.bin'' = to_string lo' @ ''_s'' @ to_string hi' @ ''.bin''"
    using assms(5) by (auto simp: macKeyPath_def lo_def hi_def lo'_def hi'_def min_def max_def split: if_splits)
  have "in_int32 lo" "in_int32 hi" "in_int32 lo'" "in_int32 hi'"
    using assms(1-4) by (auto simp: lo_def hi_def lo'_def hi'_def)
  with macKeyPath_ordered_inj [OF eq] have "lo = lo' \<and> hi = hi'"
    using to_string_inj by blast
  then show ?thesis
    by (auto simp: lo_def hi_def lo'_def hi'_def min_def max_def split: if_splits)
qed

section \<open>What is signed verifies\<close>

text \<open>
  The law OpenSSL provides for a key pair: a signature made with the private key over some data is
  accepted for that data under the public key.
\<close>

definition key_pair :: "env \<Rightarrow> string \<Rightarrow> string \<Rightarrow> bool" where
  "key_pair E privPath pubPath \<longleftrightarrow>
     (\<exists>priv pub. env_files E privPath = Some priv \<and> env_files E pubPath = Some pub \<and>
        (\<forall>d. \<exists>bs. evp_sign E priv d = Some bs \<and> evp_verify E pub d bs))"

lemma verify_sign: "key_pair E priv pub \<Longrightarrow> verifyECDSA E d (signECDSA E d priv) pub"
proof -
  assume "key_pair E priv pub"
  then obtain k q bs where "env_files E priv = Some k" "env_files E pub = Some q"
      "evp_sign E k d = Some bs" "evp_verify E q d bs"
    unfolding key_pair_def by metis
  then show ?thesis by (simp add: verifyECDSA_def signECDSA_def hex_decode_encode)
qed

lemma verifyECDSA_key_file: "verifyECDSA E d s path \<Longrightarrow> env_files E path \<noteq> None"
  by (auto simp: verifyECDSA_def split: option.splits)

end
