(* ===== verification/Server_State.thy ===== *)
theory Server_State
  imports Crypto
begin

text \<open>
  The state of a \<open>PbftServerImpl\<close>, its constructor, and the accesses to it that the handlers share.

  \<open>log\<close> and \<open>digestToEntry\<close> hold pointers to \<open>MessageInfo\<close> objects, and both may point to the same
  object, so the objects live in the store \<open>heap\<close> and a pointer is a position in it; the source never
  frees one, and \<open>new\<close> appends. \<open>outbox\<close> collects the calls made to other processes, in the order
  they are made. \<open>futures\<close> is the queue of timers, each with the arguments its closure captured.
\<close>

section \<open>Data\<close>

record MessageInfo =
  mi_m :: Message
  mi_mstatus :: MessageStatus
  mi_result :: bool
  mi_prePrepare :: Request
  mi_prepareProofs :: "(int, Request) smap"
  mi_commitProofs :: "(int, Request) smap"
  mi_startTime :: int

record CheckpointInfo =
  ci_state :: "(string, int) smap"
  ci_digest :: string
  ci_checkpointProofs :: "(int, CheckpointReq) smap"

datatype payload =
    P_Transfer Message | P_PrePrepare PrePrepareRequest | P_PrePrepareOk Request
  | P_Prepare ProofRequest | P_PrepareOk Request | P_Commit ProofRequest
  | P_ViewChange ViewChangeReq | P_NewView NewViewReq | P_Checkpoint CheckpointReq

datatype outcall = ToServer int payload | ToClient int Response

datatype timer =
    DigestTimer string int int | SeqTimer int int int | ViewTimer int int
  | OptimisticTimer int | RetryTimer NewViewReq int

datatype ServerState = NORMAL_STATE | VIEW_CHANGE_STATE

record srv =
  serverId :: int
  serverName :: string
  isByzantine :: bool
  pbft_f :: int
  pbft_k :: int
  currentView :: int
  currentSequence :: int
  clusterSize :: int
  lowWatermark :: int
  highWatermark :: int
  log :: "nat option list"
  digestToEntry :: "(string, nat) smap"
  checkpointStepSize :: int
  lastStableCheckpointSeqNum :: int
  lastStableCheckpointState :: "(string, int) smap"
  lastStableCheckpointProofs :: "(int, CheckpointReq) smap"
  lastStableCheckpointDigest :: string
  checkpoints :: "(int, CheckpointInfo) smap"
  lastExecuted :: int
  lastCommitted :: int
  lastCheckpoint :: int
  lastProposedView :: int
  rpcTimeoutSeconds :: int
  viewChangeTimeoutDelta :: int
  optimisticTimeoutSeconds :: int
  retryTimeoutSeconds :: int
  futures :: "timer list"
  viewChangeMessages :: "(int, (int, ViewChangeReq) smap) smap"
  selfTriggeredViewChangeMessages :: "(int, (int, ViewChangeReq) smap) smap"
  awaitedDigests :: "string set"
  srvState :: ServerState
  balances :: "(string, int) smap"
  totalTimeTaken :: int
  heap :: "MessageInfo list"
  outbox :: "outcall list"

section \<open>Construction\<close>

text \<open>\<open>new MessageInfo()\<close> sets the status only; the member \<open>result\<close> keeps what memory held.\<close>

definition new_MessageInfo :: "env \<Rightarrow> MessageInfo" where
  "new_MessageInfo E =
     \<lparr>mi_m = default_msg, mi_mstatus = NO_STATUS, mi_result = env_junk E,
      mi_prePrepare = default_request, mi_prepareProofs = [], mi_commitProofs = [],
      mi_startTime = 0\<rparr>"

definition new_CheckpointInfo :: CheckpointInfo where
  "new_CheckpointInfo = \<lparr>ci_state = [], ci_digest = '''', ci_checkpointProofs = []\<rparr>"

definition initial_balances :: "(string, int) smap" where
  "initial_balances = map (\<lambda>(c, _). (c, 10)) clientAddresses"

text \<open>The constructor leaves \<open>lastCommitted\<close> and \<open>lastCheckpoint\<close> unset: \<open>lc\<close> and \<open>lcp\<close> are the
  values they happen to have.\<close>

definition PbftServerImpl :: "int \<Rightarrow> string \<Rightarrow> bool \<Rightarrow> int \<Rightarrow> int \<Rightarrow> srv" where
  "PbftServerImpl ident name byz lc lcp =
     \<lparr>serverId = ident, serverName = name, isByzantine = byz, pbft_f = 2, pbft_k = 20,
      currentView = 1, currentSequence = -1, clusterSize = 7, lowWatermark = 0,
      highWatermark = 19, log = replicate 20 None, digestToEntry = [],
      checkpointStepSize = 10, lastStableCheckpointSeqNum = -1, lastStableCheckpointState = [],
      lastStableCheckpointProofs = [], lastStableCheckpointDigest = '''', checkpoints = [],
      lastExecuted = -1, lastCommitted = lc, lastCheckpoint = lcp, lastProposedView = 1,
      rpcTimeoutSeconds = 1, viewChangeTimeoutDelta = 30, optimisticTimeoutSeconds = 2,
      retryTimeoutSeconds = 5, futures = [], viewChangeMessages = [],
      selfTriggeredViewChangeMessages = [], awaitedDigests = {}, srvState = NORMAL_STATE,
      balances = initial_balances, totalTimeTaken = 0, heap = [], outbox = []\<rparr>"

section \<open>Access to the state\<close>

definition getLeaderId :: "srv \<Rightarrow> int" where
  "getLeaderId s = currentView s smod clusterSize s"

definition deref :: "srv \<Rightarrow> nat \<Rightarrow> fault + MessageInfo" where
  "deref s p = (if p < length (heap s) then Ok (heap s ! p) else Fault Null_deref)"

text \<open>\<open>log[index]->...\<close>: the pointer in a slot and the object it points to.\<close>

definition log_entry :: "srv \<Rightarrow> int \<Rightarrow> fault + nat \<times> MessageInfo" where
  "log_entry s i =
     ebind (vec_get (log s) i)
       (\<lambda>q. case q of None \<Rightarrow> Fault Null_deref | Some p \<Rightarrow> ebind (deref s p) (\<lambda>e. Ok (p, e)))"

definition put_entry :: "nat \<Rightarrow> MessageInfo \<Rightarrow> srv \<Rightarrow> srv" where
  "put_entry p e s = s\<lparr>heap := (heap s)[p := e]\<rparr>"

definition emit :: "outcall \<Rightarrow> srv \<Rightarrow> srv" where
  "emit out s = s\<lparr>outbox := outbox s @ [out]\<rparr>"

definition start_timer :: "timer \<Rightarrow> srv \<Rightarrow> srv" where
  "start_timer t s = s\<lparr>futures := futures s @ [t]\<rparr>"

lemma log_entry_Ok_iff:
  "log_entry s i = Inr (p, e) \<longleftrightarrow>
     0 \<le> i \<and> i < int (length (log s)) \<and> log s ! nat i = Some p \<and> p < length (heap s) \<and> e = heap s ! p"
  by (auto simp: log_entry_def deref_def split: option.splits if_splits)

lemma deref_Ok_iff [simp]: "deref s p = Inr e \<longleftrightarrow> p < length (heap s) \<and> e = heap s ! p"
  by (auto simp: deref_def)

lemma put_entry_frame [simp]:
  "serverId (put_entry p e s) = serverId s" "serverName (put_entry p e s) = serverName s"
  "isByzantine (put_entry p e s) = isByzantine s" "pbft_f (put_entry p e s) = pbft_f s"
  "pbft_k (put_entry p e s) = pbft_k s" "currentView (put_entry p e s) = currentView s"
  "currentSequence (put_entry p e s) = currentSequence s"
  "clusterSize (put_entry p e s) = clusterSize s"
  "lowWatermark (put_entry p e s) = lowWatermark s"
  "highWatermark (put_entry p e s) = highWatermark s" "log (put_entry p e s) = log s"
  "digestToEntry (put_entry p e s) = digestToEntry s"
  "checkpointStepSize (put_entry p e s) = checkpointStepSize s"
  "lastStableCheckpointSeqNum (put_entry p e s) = lastStableCheckpointSeqNum s"
  "lastStableCheckpointState (put_entry p e s) = lastStableCheckpointState s"
  "lastStableCheckpointProofs (put_entry p e s) = lastStableCheckpointProofs s"
  "lastStableCheckpointDigest (put_entry p e s) = lastStableCheckpointDigest s"
  "checkpoints (put_entry p e s) = checkpoints s" "lastExecuted (put_entry p e s) = lastExecuted s"
  "lastCommitted (put_entry p e s) = lastCommitted s"
  "lastCheckpoint (put_entry p e s) = lastCheckpoint s"
  "lastProposedView (put_entry p e s) = lastProposedView s"
  "viewChangeTimeoutDelta (put_entry p e s) = viewChangeTimeoutDelta s"
  "futures (put_entry p e s) = futures s"
  "viewChangeMessages (put_entry p e s) = viewChangeMessages s"
  "selfTriggeredViewChangeMessages (put_entry p e s) = selfTriggeredViewChangeMessages s"
  "awaitedDigests (put_entry p e s) = awaitedDigests s" "srvState (put_entry p e s) = srvState s"
  "balances (put_entry p e s) = balances s" "totalTimeTaken (put_entry p e s) = totalTimeTaken s"
  "outbox (put_entry p e s) = outbox s" "heap (put_entry p e s) = (heap s)[p := e]"
  by (simp_all add: put_entry_def)

lemma emit_frame [simp]:
  "serverId (emit x s) = serverId s" "isByzantine (emit x s) = isByzantine s"
  "pbft_f (emit x s) = pbft_f s" "pbft_k (emit x s) = pbft_k s"
  "currentView (emit x s) = currentView s" "currentSequence (emit x s) = currentSequence s"
  "clusterSize (emit x s) = clusterSize s" "lowWatermark (emit x s) = lowWatermark s"
  "highWatermark (emit x s) = highWatermark s" "log (emit x s) = log s"
  "digestToEntry (emit x s) = digestToEntry s"
  "checkpointStepSize (emit x s) = checkpointStepSize s"
  "lastStableCheckpointSeqNum (emit x s) = lastStableCheckpointSeqNum s"
  "lastStableCheckpointProofs (emit x s) = lastStableCheckpointProofs s"
  "checkpoints (emit x s) = checkpoints s" "lastExecuted (emit x s) = lastExecuted s"
  "lastCommitted (emit x s) = lastCommitted s" "lastCheckpoint (emit x s) = lastCheckpoint s"
  "lastProposedView (emit x s) = lastProposedView s" "futures (emit x s) = futures s"
  "viewChangeMessages (emit x s) = viewChangeMessages s"
  "selfTriggeredViewChangeMessages (emit x s) = selfTriggeredViewChangeMessages s"
  "awaitedDigests (emit x s) = awaitedDigests s" "srvState (emit x s) = srvState s"
  "balances (emit x s) = balances s" "heap (emit x s) = heap s"
  "outbox (emit x s) = outbox s @ [x]"
  by (simp_all add: emit_def)

lemma initial_balances_eq:
  "initial_balances = [(''A'', 10), (''B'', 10), (''C'', 10), (''D'', 10), (''E'', 10),
     (''F'', 10), (''G'', 10), (''H'', 10), (''I'', 10), (''J'', 10)]"
  by (simp add: initial_balances_def clientAddresses_def)

section \<open>The view of a server that does not change\<close>

text \<open>The parameters the constructor sets and no handler assigns.\<close>

definition config_ok :: "srv \<Rightarrow> bool" where
  "config_ok s \<longleftrightarrow> pbft_f s = 2 \<and> pbft_k s = 20 \<and> clusterSize s = 7 \<and> checkpointStepSize s = 10 \<and>
     0 \<le> serverId s \<and> serverId s < 7"

lemma config_ok_init: "0 \<le> i \<Longrightarrow> i < 7 \<Longrightarrow> config_ok (PbftServerImpl i n b lc lcp)"
  by (simp add: config_ok_def PbftServerImpl_def)

lemma getLeaderId_range:
  "config_ok s \<Longrightarrow> 0 \<le> currentView s \<Longrightarrow> 0 \<le> getLeaderId s \<and> getLeaderId s < 7"
  using smod_range [of "currentView s" 7] by (simp add: config_ok_def getLeaderId_def)

end
