(* ===== verification/Server_Net.thy ===== *)
theory Server_Net
  imports Server_State
begin

text \<open>
  Signing, verifying and sending: the helpers of \<open>async_server.cc\<close> between the handlers and gRPC. A
  send looks up a stub, which may throw, and adds the call to \<open>outbox\<close>; deadlines and the transport
  itself are gRPC's.
\<close>

section \<open>Signatures\<close>

definition addMACSignature_one :: "env \<Rightarrow> srv \<Rightarrow> string \<Rightarrow> int \<Rightarrow> Signature \<Rightarrow> Signature" where
  "addMACSignature_one E s d receiverId sg =
     sg\<lparr>sg_sig := signMAC E d (macKeyPath (serverId s) receiverId), sg_server_id := serverId s\<rparr>"

text \<open>The vector version appends one code per server to whatever the vector holds.\<close>

definition addMACSignature :: "env \<Rightarrow> srv \<Rightarrow> string \<Rightarrow> SignatureVec \<Rightarrow> SignatureVec" where
  "addMACSignature E s d sv =
     sv\<lparr>sv_signatures := sv_signatures sv @
          map (\<lambda>i. signMAC E d (macKeyPath (serverId s) i)) [0..clusterSize s - 1],
        sv_server_id := serverId s\<rparr>"

definition addECDSASignature :: "env \<Rightarrow> srv \<Rightarrow> string \<Rightarrow> Signature" where
  "addECDSASignature E s d =
     \<lparr>sg_sig = signECDSA E d (serverPrECDSAKeyPath (serverId s)), sg_server_id = serverId s\<rparr>"

text \<open>The five overloads of \<open>verifySignature\<close>. The first reads the receiver's own element of the
  signature vector, which is outside the vector when the sender sent a shorter one.\<close>

definition verifySignature_Request :: "env \<Rightarrow> srv \<Rightarrow> Request \<Rightarrow> fault + bool" where
  "verifySignature_Request E s r =
     ebind (vec_get (sv_signatures (rq_sig_vec r)) (serverId s))
       (\<lambda>sg. Ok (verifyMAC E (ser_ctx E (rq_data r)) sg
                  (macKeyPath (serverId s) (sv_server_id (rq_sig_vec r)))))"

definition verifySignature_Message :: "env \<Rightarrow> Message \<Rightarrow> bool" where
  "verifySignature_Message E m =
     verifyECDSA E (ser_td E (ms_data m)) (sg_sig (ms_signature m))
       (clientPbECDSAKeyPath (sg_server_id (ms_signature m)))"

definition verifySignature_ViewChangeReq :: "env \<Rightarrow> ViewChangeReq \<Rightarrow> bool" where
  "verifySignature_ViewChangeReq E r =
     verifyECDSA E (ser_vd E (vc_data r)) (sg_sig (vc_signature r))
       (serverPbECDSAKeyPath (sg_server_id (vc_signature r)))"

definition verifySignature_CheckpointReq :: "env \<Rightarrow> CheckpointReq \<Rightarrow> bool" where
  "verifySignature_CheckpointReq E r =
     verifyECDSA E (ser_cd E (cr_data r)) (sg_sig (cr_signature r))
       (serverPbECDSAKeyPath (sg_server_id (cr_signature r)))"

definition verifySignature_NewViewReq :: "env \<Rightarrow> NewViewReq \<Rightarrow> bool" where
  "verifySignature_NewViewReq E r =
     verifyECDSA E (ser_nd E (nv_data r)) (sg_sig (nv_signature r))
       (serverPbECDSAKeyPath (sg_server_id (nv_signature r)))"

section \<open>Sending\<close>

text \<open>A stub is the index of its server or client; \<open>serverStubs_.at\<close> throws, \<open>[]\<close> does not check.\<close>

definition serverStub_at :: "int \<Rightarrow> fault + int" where
  "serverStub_at i = vec_at [0..num_servers - 1] i"

definition serverStub :: "int \<Rightarrow> fault + int" where
  "serverStub i = vec_get [0..num_servers - 1] i"

definition clientStub :: "int \<Rightarrow> fault + int" where
  "clientStub i = vec_get [0..num_clients - 1] i"

definition sendRequest :: "Request \<Rightarrow> int \<Rightarrow> RequestTypes \<Rightarrow> srv \<Rightarrow> fault + srv" where
  "sendRequest request receiverId type s =
     (if type = PRE_PREPARE_OK \<or> type = PREPARE_OK then
        ebind (serverStub_at receiverId) (\<lambda>j.
          if type = PRE_PREPARE_OK then Ok (emit (ToServer j (P_PrePrepareOk request)) s)
          else Ok (emit (ToServer j (P_PrepareOk request)) s))
      else Ok s)"

definition sendRequest_proof :: "ProofRequest \<Rightarrow> int \<Rightarrow> RequestTypes \<Rightarrow> srv \<Rightarrow> fault + srv" where
  "sendRequest_proof request receiverId type s =
     (if type = PREPARE \<or> type = COMMIT then
        ebind (serverStub_at receiverId) (\<lambda>j.
          if type = PREPARE then Ok (emit (ToServer j (P_Prepare request)) s)
          else Ok (emit (ToServer j (P_Commit request)) s))
      else Ok s)"

definition to_others :: "(int \<Rightarrow> srv \<Rightarrow> fault + srv) \<Rightarrow> srv \<Rightarrow> fault + srv" where
  "to_others send s =
     each (\<lambda>i t. if i \<noteq> serverId t then send i t else Ok t) [0..clusterSize s - 1] s"

definition sendRequestToAll :: "ProofRequest \<Rightarrow> RequestTypes \<Rightarrow> srv \<Rightarrow> fault + srv" where
  "sendRequestToAll request type s = to_others (\<lambda>i. sendRequest_proof request i type) s"

definition send_payload :: "payload \<Rightarrow> int \<Rightarrow> srv \<Rightarrow> fault + srv" where
  "send_payload p i s = ebind (serverStub_at i) (\<lambda>j. Ok (emit (ToServer j p) s))"

definition sendPrePrepareToAll :: "PrePrepareRequest \<Rightarrow> srv \<Rightarrow> fault + srv" where
  "sendPrePrepareToAll request s = to_others (send_payload (P_PrePrepare request)) s"

definition sendViewChangeToAll :: "env \<Rightarrow> ViewChangeReq \<Rightarrow> srv \<Rightarrow> fault + srv" where
  "sendViewChangeToAll E request s =
     (let signed = request\<lparr>vc_signature := addECDSASignature E s (ser_vd E (vc_data request))\<rparr>
      in to_others (send_payload (P_ViewChange signed)) s)"

definition sendNewViewToAll :: "env \<Rightarrow> NewViewReq \<Rightarrow> srv \<Rightarrow> fault + srv" where
  "sendNewViewToAll E request s =
     (let signed = request\<lparr>nv_signature := addECDSASignature E s (ser_nd E (nv_data request))\<rparr>
      in to_others (send_payload (P_NewView signed)) s)"

definition sendCheckpointToAll :: "env \<Rightarrow> CheckpointReq \<Rightarrow> srv \<Rightarrow> fault + srv" where
  "sendCheckpointToAll E request s =
     (let signed = request\<lparr>cr_signature := addECDSASignature E s (ser_cd E (cr_data request))\<rparr>
      in to_others (send_payload (P_Checkpoint signed)) s)"

definition notifyClient :: "env \<Rightarrow> int \<Rightarrow> Message \<Rightarrow> bool \<Rightarrow> srv \<Rightarrow> fault + srv" where
  "notifyClient E clientId m res s =
     (let rd = \<lparr>rd_tdata = ms_data m, rd_ack = res, rd_view_num = currentView s\<rparr>;
          reply = \<lparr>rs_data = rd, rs_signature = addECDSASignature E s (ser_rd E rd)\<rparr>
      in ebind (clientStub clientId) (\<lambda>j. Ok (emit (ToClient j reply) s)))"

section \<open>What a send does\<close>

text \<open>No send changes anything but the outbox.\<close>

definition sent :: "outcall list \<Rightarrow> srv \<Rightarrow> srv" where
  "sent xs s = s\<lparr>outbox := outbox s @ xs\<rparr>"

definition others :: "srv \<Rightarrow> int list" where
  "others s = filter (\<lambda>i. i \<noteq> serverId s) [0..clusterSize s - 1]"

lemma sent_Nil [simp]: "sent [] s = s" by (simp add: sent_def)

lemma sent_refl [simp]: "\<exists>xs. s = sent xs s"
  by (rule exI [of _ "[]"]) simp

lemma emit_sent [simp]: "emit x (sent xs s) = sent (xs @ [x]) s"
  by (simp add: emit_def sent_def)

lemma emit_eq_sent: "emit x s = sent [x] s"
  by (simp add: emit_def sent_def)

lemma sent_sent [simp]: "sent ys (sent xs s) = sent (xs @ ys) s"
  by (simp add: sent_def)

lemma sent_frame [simp]:
  "serverId (sent x s) = serverId s" "serverName (sent x s) = serverName s"
  "isByzantine (sent x s) = isByzantine s"
  "pbft_f (sent x s) = pbft_f s" "pbft_k (sent x s) = pbft_k s"
  "currentView (sent x s) = currentView s" "currentSequence (sent x s) = currentSequence s"
  "clusterSize (sent x s) = clusterSize s" "lowWatermark (sent x s) = lowWatermark s"
  "highWatermark (sent x s) = highWatermark s" "log (sent x s) = log s"
  "digestToEntry (sent x s) = digestToEntry s"
  "checkpointStepSize (sent x s) = checkpointStepSize s"
  "lastStableCheckpointSeqNum (sent x s) = lastStableCheckpointSeqNum s"
  "lastStableCheckpointState (sent x s) = lastStableCheckpointState s"
  "lastStableCheckpointProofs (sent x s) = lastStableCheckpointProofs s"
  "lastStableCheckpointDigest (sent x s) = lastStableCheckpointDigest s"
  "checkpoints (sent x s) = checkpoints s" "lastExecuted (sent x s) = lastExecuted s"
  "lastCommitted (sent x s) = lastCommitted s" "lastCheckpoint (sent x s) = lastCheckpoint s"
  "lastProposedView (sent x s) = lastProposedView s"
  "viewChangeTimeoutDelta (sent x s) = viewChangeTimeoutDelta s"
  "futures (sent x s) = futures s"
  "viewChangeMessages (sent x s) = viewChangeMessages s"
  "selfTriggeredViewChangeMessages (sent x s) = selfTriggeredViewChangeMessages s"
  "awaitedDigests (sent x s) = awaitedDigests s" "srvState (sent x s) = srvState s"
  "balances (sent x s) = balances s" "heap (sent x s) = heap s"
  "totalTimeTaken (sent x s) = totalTimeTaken s"
  "outbox (sent x s) = outbox s @ x"
  by (simp_all add: sent_def)

lemma getLeaderId_sent [simp]: "getLeaderId (sent x s) = getLeaderId s"
  by (simp add: getLeaderId_def)

lemma to_others_aux:
  assumes "\<And>i t. i \<in> set is \<Longrightarrow> send i t = Inr (emit (msg i) t)"
  shows "each (\<lambda>i t. if i \<noteq> serverId t then send i t else Ok t) is s =
         Inr (sent (map msg (filter (\<lambda>i. i \<noteq> serverId s) is)) s)"
  using assms
proof (induction "is" arbitrary: s)
  case Nil
  then show ?case by simp
next
  case (Cons i "is")
  then show ?case by (simp add: emit_eq_sent)
qed

lemma to_others_payload:
  assumes "clusterSize s \<le> 7"
  shows "to_others (send_payload p) s = Inr (sent (map (\<lambda>i. ToServer i p) (others s)) s)"
  unfolding to_others_def others_def
proof (rule to_others_aux)
  fix i t assume "i \<in> set [0..clusterSize s - 1]"
  then have "serverStub_at i = Inr i"
    using assms by (simp add: serverStub_at_def)
  then show "send_payload p i t = Inr (emit (ToServer i p) t)"
    by (simp add: send_payload_def)
qed

lemma sendRequestToAll_sent:
  assumes "clusterSize s \<le> 7"
  shows "sendRequestToAll r PREPARE s = Inr (sent (map (\<lambda>i. ToServer i (P_Prepare r)) (others s)) s)"
    and "sendRequestToAll r COMMIT s = Inr (sent (map (\<lambda>i. ToServer i (P_Commit r)) (others s)) s)"
  using assms unfolding sendRequestToAll_def to_others_def others_def
  by (intro to_others_aux; simp add: sendRequest_proof_def serverStub_at_def)+

text \<open>Whatever the configuration, a send that returns has only added to the outbox.\<close>

lemma sendRequest_only: "sendRequest r i ty s = Inr s' \<Longrightarrow> \<exists>xs. s' = sent xs s"
  by (auto simp: sendRequest_def emit_eq_sent split: if_splits)

lemma notifyClient_only: "notifyClient E i m res s = Inr s' \<Longrightarrow> \<exists>xs. s' = sent xs s"
  by (auto simp: notifyClient_def emit_eq_sent Let_def)

lemma each_sent:
  assumes "each f is s = Inr s'" and "\<And>i t t'. f i t = Inr t' \<Longrightarrow> \<exists>xs. t' = sent xs t"
  shows "\<exists>xs. s' = sent xs s"
proof (rule each_invariant [OF assms(1), where P = "\<lambda>t. \<exists>xs. t = sent xs s"])
  show "\<exists>xs. s = sent xs s" by simp
  fix i t t' assume "f i t = Inr t'" and "\<exists>xs. t = sent xs s"
  with assms(2) show "\<exists>xs. t' = sent xs s" by fastforce
qed

lemma to_others_only:
  assumes "to_others send s = Inr s'" and "\<And>i t t'. send i t = Inr t' \<Longrightarrow> \<exists>xs. t' = sent xs t"
  shows "\<exists>xs. s' = sent xs s"
  using assms(1) unfolding to_others_def
proof (rule each_sent)
  fix i t t' assume "(if i \<noteq> serverId t then send i t else Ok t) = Inr t'"
  then show "\<exists>xs. t' = sent xs t"
    using assms(2) by (cases "i = serverId t") auto
qed

lemma send_payload_only: "send_payload p i t = Inr t' \<Longrightarrow> \<exists>xs. t' = sent xs t"
  by (auto simp: send_payload_def emit_eq_sent)

lemma sendRequest_proof_only: "sendRequest_proof r i ty s = Inr s' \<Longrightarrow> \<exists>xs. s' = sent xs s"
  by (auto simp: sendRequest_proof_def emit_eq_sent split: if_splits)

lemma sendToAll_only:
  "sendRequestToAll r ty s = Inr s' \<Longrightarrow> \<exists>xs. s' = sent xs s"
  "sendPrePrepareToAll p s = Inr s' \<Longrightarrow> \<exists>xs. s' = sent xs s"
  "sendViewChangeToAll E v s = Inr s' \<Longrightarrow> \<exists>xs. s' = sent xs s"
  "sendNewViewToAll E n s = Inr s' \<Longrightarrow> \<exists>xs. s' = sent xs s"
  "sendCheckpointToAll E c s = Inr s' \<Longrightarrow> \<exists>xs. s' = sent xs s"
  by (unfold sendRequestToAll_def sendPrePrepareToAll_def sendViewChangeToAll_def
        sendNewViewToAll_def sendCheckpointToAll_def Let_def)
    (erule to_others_only, erule sendRequest_proof_only send_payload_only)+

lemmas send_only = sendRequest_only notifyClient_only sendToAll_only

text \<open>With the parameters of the constructor no broadcast can fail.\<close>

lemma sendToAll_Ok:
  assumes "clusterSize s = 7"
  shows "\<exists>xs. sendPrePrepareToAll p s = Inr (sent xs s)"
    and "\<exists>xs. sendViewChangeToAll E v s = Inr (sent xs s)"
    and "\<exists>xs. sendNewViewToAll E n s = Inr (sent xs s)"
    and "\<exists>xs. sendCheckpointToAll E c s = Inr (sent xs s)"
  using assms by (simp_all add: sendPrePrepareToAll_def sendViewChangeToAll_def sendNewViewToAll_def
      sendCheckpointToAll_def to_others_payload, blast+)

lemma serverStub_at_Ok [simp]: "serverStub_at i = Inr j \<longleftrightarrow> 0 \<le> i \<and> i < 7 \<and> j = i"
  by (auto simp: serverStub_at_def)

lemma serverStub_Ok [simp]: "serverStub i = Inr j \<longleftrightarrow> 0 \<le> i \<and> i < 7 \<and> j = i"
  by (auto simp: serverStub_def)

lemma clientStub_Ok [simp]: "clientStub i = Inr j \<longleftrightarrow> 0 \<le> i \<and> i < 10 \<and> j = i"
  by (auto simp: clientStub_def)

end
