(* ===== verification/Server_Exec.thy ===== *)
theory Server_Exec
  imports Server_Net
begin

text \<open>
  Execution: \<open>executePending\<close> runs the committed requests in sequence order against the account
  balances, answers the clients and takes a checkpoint every \<open>checkpointStepSize\<close> requests
  (\<open>checkpoint\<close>). The balances refine a ledger, a function from accounts to amounts in which an
  account the map does not hold has 0.
\<close>

section \<open>One transfer\<close>

text \<open>\<open>balances[a]\<close> inserts the account with balance 0 when it is missing.\<close>

definition transfer :: "TransactionData \<Rightarrow> (string, int) smap \<Rightarrow> fault + (string, int) smap \<times> bool" where
  "transfer td b =
     (let sender = td_sender td; receiver = td_receiver td; amount = td_amount td;
          (have_s, b1) = sm_index 0 sender b
      in if have_s \<ge> amount then
           ebind (isub have_s amount) (\<lambda>x.
             let b2 = sm_put sender x b1; (have_r, b3) = sm_index 0 receiver b2
             in ebind (iadd have_r amount) (\<lambda>y. Ok (sm_put receiver y b3, True)))
         else Ok (b1, False))"

section \<open>Checkpoints\<close>

definition pop_back :: "string \<Rightarrow> fault + string" where
  "pop_back cs = (if cs = [] then Fault Out_of_bounds else Ok (butlast cs))"

definition balancesString :: "(string, int) smap \<Rightarrow> fault + string" where
  "balancesString b =
     (let cs = ''{'' @ concat (map (\<lambda>(a, v). a @ '': '' @ to_string v @ '', '') b)
      in ebind (if cs \<noteq> [] then ebind (pop_back cs) pop_back else Ok cs) (\<lambda>cs'. Ok (cs' @ ''}'')))"

definition checkpoint :: "env \<Rightarrow> srv \<Rightarrow> fault + srv" where
  "checkpoint E s =
     (let cinfo = (case sm_find (checkpoints s) (lastExecuted s) of
                     None \<Rightarrow> new_CheckpointInfo | Some c \<Rightarrow> c)
      in ebind (balancesString (balances s)) (\<lambda>cs.
         let digest = sha256Digest E cs;
             cinfo' = cinfo\<lparr>ci_state := balances s, ci_digest := digest\<rparr>;
             s1 = s\<lparr>checkpoints := sm_put (lastExecuted s) cinfo' (checkpoints s)\<rparr>;
             cdata = \<lparr>cd_c_seq_num = lastExecuted s, cd_c_digest = digest\<rparr>;
             request = \<lparr>cr_data = cdata, cr_signature = addECDSASignature E s1 (ser_cd E cdata)\<rparr>
         in ebind (sendCheckpointToAll E request s1) (\<lambda>s2.
            Ok (s2\<lparr>lastCheckpoint := lastExecuted s2\<rparr>))))"

section \<open>The execution loop\<close>

text \<open>The milliseconds \<open>duration_cast\<close> gives for a difference of clock readings.\<close>

definition millis :: "int \<Rightarrow> int" where "millis ns = ns sdiv 1000000"

text \<open>The committed branch of the loop body, for the entry \<open>e\<close> that \<open>p\<close> points to.\<close>

definition execute_entry :: "env \<Rightarrow> int \<Rightarrow> nat \<Rightarrow> MessageInfo \<Rightarrow> srv \<Rightarrow> fault + srv" where
  "execute_entry E seq p e s =
     ebind (transfer (ms_data (mi_m e)) (balances s)) (\<lambda>(b, result).
       let e' = e\<lparr>mi_mstatus := EXECUTED, mi_result := result\<rparr>;
           s1 = put_entry p e' (s\<lparr>balances := b, lastExecuted := seq,
                  totalTimeTaken := totalTimeTaken s + millis (env_now E - mi_startTime e)\<rparr>)
       in ebind (notifyClient E (sg_server_id (ms_signature (mi_m e))) (mi_m e) result s1) (\<lambda>s2.
          ebind (if seq smod checkpointStepSize s2 = checkpointStepSize s2 - 1
                 then checkpoint E s2 else Ok s2) (\<lambda>s3.
          Ok (s3\<lparr>lastExecuted := seq\<rparr>))))"

text \<open>One iteration; the flag says whether the loop goes on. An empty slot is skipped.\<close>

definition execute_slot :: "env \<Rightarrow> int \<Rightarrow> srv \<Rightarrow> fault + srv \<times> bool" where
  "execute_slot E seq s =
     ebind (isub seq (lowWatermark s)) (\<lambda>i.
     ebind (vec_get (log s) i) (\<lambda>q.
       case q of
         None \<Rightarrow> Ok (s, True)
       | Some p \<Rightarrow> ebind (deref s p) (\<lambda>e.
           if mi_mstatus e = COMMITTED then ebind (execute_entry E seq p e s) (\<lambda>t. Ok (t, True))
           else if mi_mstatus e \<noteq> EXECUTED then Ok (s, False)
           else Ok (s, True))))"

text \<open>What an execution step may change: two states agree when the fields it may change are
  blanked in both.\<close>

definition exec_blank :: "srv \<Rightarrow> srv" where
  "exec_blank s = s\<lparr>heap := [], balances := [], lastExecuted := 0, totalTimeTaken := 0,
     checkpoints := [], lastCheckpoint := 0, outbox := []\<rparr>"

definition exec_frame :: "srv \<Rightarrow> srv \<Rightarrow> bool" where
  "exec_frame s t \<longleftrightarrow> exec_blank s = exec_blank t"

lemma exec_frame_refl [simp]: "exec_frame s s"
  by (simp add: exec_frame_def)

lemma exec_frame_trans: "exec_frame s t \<Longrightarrow> exec_frame t u \<Longrightarrow> exec_frame s u"
  by (simp add: exec_frame_def)

lemma exec_frameI:
  "t = s\<lparr>heap := h, balances := b, lastExecuted := le, totalTimeTaken := tt,
        checkpoints := ck, lastCheckpoint := lc, outbox := out\<rparr> \<Longrightarrow> exec_frame s t"
  by (simp add: exec_frame_def exec_blank_def)

lemma exec_frameD:
  assumes "exec_frame s t"
  shows "serverId t = serverId s" "isByzantine t = isByzantine s" "pbft_f t = pbft_f s"
    "pbft_k t = pbft_k s" "currentView t = currentView s" "currentSequence t = currentSequence s"
    "clusterSize t = clusterSize s" "lowWatermark t = lowWatermark s"
    "highWatermark t = highWatermark s" "log t = log s" "digestToEntry t = digestToEntry s"
    "checkpointStepSize t = checkpointStepSize s"
    "lastStableCheckpointSeqNum t = lastStableCheckpointSeqNum s"
    "lastStableCheckpointState t = lastStableCheckpointState s"
    "lastStableCheckpointProofs t = lastStableCheckpointProofs s"
    "lastStableCheckpointDigest t = lastStableCheckpointDigest s"
    "lastCommitted t = lastCommitted s" "lastProposedView t = lastProposedView s"
    "viewChangeTimeoutDelta t = viewChangeTimeoutDelta s"
    "futures t = futures s" "viewChangeMessages t = viewChangeMessages s"
    "selfTriggeredViewChangeMessages t = selfTriggeredViewChangeMessages s"
    "awaitedDigests t = awaitedDigests s" "srvState t = srvState s"
  using assms by (cases s, cases t, simp add: exec_frame_def exec_blank_def)+

lemma checkpoint_frame:
  assumes "checkpoint E s = Inr t"
  shows "\<exists>ck lc out. t = s\<lparr>checkpoints := ck, lastCheckpoint := lc, outbox := out\<rparr>"
proof -
  obtain s1 s2 req ck where s1: "s1 = s\<lparr>checkpoints := ck\<rparr>"
    and send: "sendCheckpointToAll E req s1 = Inr s2" and t: "t = s2\<lparr>lastCheckpoint := lastExecuted s2\<rparr>"
    using assms by (auto simp: checkpoint_def Let_def)
  from send_only(7) [OF send] s1 obtain xs where s2: "s2 = sent xs (s\<lparr>checkpoints := ck\<rparr>)"
    by blast
  have "t = s\<lparr>checkpoints := ck, lastCheckpoint := lastExecuted s, outbox := outbox s @ xs\<rparr>"
    by (simp add: t s2 sent_def)
  then show ?thesis by blast
qed

lemma execute_entry_frame:
  assumes "execute_entry E seq p e s = Inr t"
  shows "exec_frame s t"
proof -
  obtain b res e' s1 s2 s3 tt where s1: "s1 = put_entry p e' (s\<lparr>balances := b, lastExecuted := seq,
        totalTimeTaken := tt\<rparr>)"
    and n: "notifyClient E (sg_server_id (ms_signature (mi_m e))) (mi_m e) res s1 = Inr s2"
    and c: "s3 = s2 \<or> checkpoint E s2 = Inr s3" and t: "t = s3\<lparr>lastExecuted := seq\<rparr>"
    using assms by (fastforce simp: execute_entry_def Let_def split: if_splits)
  from send_only(2) [OF n] obtain xs where s2: "s2 = sent xs s1" by blast
  have "\<exists>ck lc out. s3 = s2\<lparr>checkpoints := ck, lastCheckpoint := lc, outbox := out\<rparr>"
    using c
  proof
    assume "s3 = s2"
    then have "s3 = s2\<lparr>checkpoints := checkpoints s2, lastCheckpoint := lastCheckpoint s2,
        outbox := outbox s2\<rparr>" by simp
    then show ?thesis by blast
  qed (rule checkpoint_frame)
  then obtain ck lc out where "s3 = s2\<lparr>checkpoints := ck, lastCheckpoint := lc, outbox := out\<rparr>"
    by blast
  with t s2 s1 have "t = s\<lparr>heap := (heap s)[p := e'], balances := b, lastExecuted := seq,
      totalTimeTaken := tt, checkpoints := ck, lastCheckpoint := lc, outbox := out\<rparr>"
    by (simp add: put_entry_def sent_def)
  then show ?thesis by (rule exec_frameI)
qed

lemma execute_slot_frame: "execute_slot E seq s = Inr (t, go) \<Longrightarrow> exec_frame s t"
  by (auto simp: execute_slot_def dest: execute_entry_frame split: option.splits if_splits)

text \<open>The loop of \<open>executePending\<close>. Its bound is read again in every iteration; the body does not
  change it.\<close>

function execute_from :: "env \<Rightarrow> int \<Rightarrow> srv \<Rightarrow> fault + srv" where
  "execute_from E seq s =
     (if seq \<le> currentSequence s then
        ebind (execute_slot E seq s) (\<lambda>(t, go).
          if go then ebind (iadd seq 1) (\<lambda>seq'. execute_from E seq' t) else Ok t)
      else Ok s)"
  by pat_completeness auto
termination
  by (relation "measure (\<lambda>(E, seq, s). nat (currentSequence s - seq + 1))")
    (auto dest!: execute_slot_frame dest: exec_frameD(6))

declare execute_from.simps [simp del]

definition executePending :: "env \<Rightarrow> srv \<Rightarrow> fault + srv" where
  "executePending E s = ebind (iadd (lastExecuted s) 1) (\<lambda>seq. execute_from E seq s)"

text \<open>
  The rule of the loop: what every iteration keeps holds when the loop returns. In the first form the
  invariant may speak of the sequence number that is next.
\<close>

lemma execute_from_rule:
  assumes "execute_from E seq s = Inr t" and "I seq s"
    and "\<And>n u v go. execute_slot E n u = Inr (v, go) \<Longrightarrow> I n u \<Longrightarrow> n \<le> currentSequence u \<Longrightarrow> Q v \<and> (go \<longrightarrow> I (n + 1) v)"
    and "\<And>n u. I n u \<Longrightarrow> Q u"
  shows "Q t"
  using assms(1-3)
proof (induction E seq s rule: execute_from.induct)
  case (1 E seq s)
  note step = "1.prems"(3)
  show ?case
  proof (cases "seq \<le> currentSequence s")
    case False
    with "1.prems"(1) have "t = s" by (simp add: execute_from.simps [of E seq])
    with assms(4) [OF "1.prems"(2)] show ?thesis by simp
  next
    case True
    then obtain u go where u: "execute_slot E seq s = Inr (u, go)"
      and rest: "(if go then ebind (iadd seq 1) (\<lambda>seq'. execute_from E seq' u) else Ok u) = Inr t"
      using "1.prems"(1) by (auto simp: execute_from.simps [of E seq])
    have su: "Q u" "go \<Longrightarrow> I (seq + 1) u" using step [OF u "1.prems"(2) True] by simp_all
    show ?thesis
    proof (cases go)
      case go: True
      then have ex: "execute_from E (seq + 1) u = Inr t" and le: "iadd seq 1 = Inr (seq + 1)"
        using rest by auto
      show ?thesis by (rule "1.IH" [OF True u refl go le ex su(2) [OF go] step])
    qed (use rest su in simp)
  qed
qed

lemma execute_from_keeps:
  assumes "execute_from E seq s = Inr t" and "P s"
    and "\<And>n u v go. execute_slot E n u = Inr (v, go) \<Longrightarrow> P u \<Longrightarrow> P v"
  shows "P t"
  by (rule execute_from_rule [OF assms(1), where I = "\<lambda>n. P"]) (auto intro: assms)

lemma execute_from_frame: "execute_from E seq s = Inr t \<Longrightarrow> exec_frame s t"
  by (erule execute_from_keeps) (auto intro: exec_frame_trans execute_slot_frame)

lemma executePending_frame: "executePending E s = Inr t \<Longrightarrow> exec_frame s t"
  by (auto simp: executePending_def dest: execute_from_frame)

end
