(* ===== verification/Server_Normal.thy ===== *)
theory Server_Normal
  imports Server_Exec
begin

text \<open>
  The normal case of the protocol: the client's request (\<open>processTransfer\<close>), the leader's proposal
  (\<open>processPrePrepare\<close>), the replicas' votes (\<open>processPrePrepareOk\<close>, \<open>processPrepareOk\<close>), the
  certificates the leader sends back (\<open>processPrepare\<close>, \<open>processCommit\<close>) and the timer after which
  the leader chooses between the optimistic and the slow path. A handler is a function from the
  message and the state to the next state or a fault; a \<open>return\<close> of the source gives the state back.
\<close>

section \<open>Client requests\<close>

text \<open>The last branch of \<open>processTransfer\<close>: the leader proposes a fresh request.\<close>

definition new_proposal :: "env \<Rightarrow> string \<Rightarrow> srv \<Rightarrow> Request" where
  "new_proposal E digest s =
     (let context = \<lparr>cx_view_num = currentView s, cx_sequence_num = currentSequence s,
                     cx_digest = digest\<rparr>
      in \<lparr>rq_data = context, rq_sig_vec = addMACSignature E s (ser_ctx E context) default_sigvec\<rparr>)"

definition proposed_entry :: "env \<Rightarrow> Message \<Rightarrow> Request \<Rightarrow> MessageInfo" where
  "proposed_entry E message r =
     (new_MessageInfo E)\<lparr>mi_m := message, mi_mstatus := PRE_PREPARED, mi_prePrepare := r,
        mi_prepareProofs := [], mi_commitProofs := [], mi_startTime := env_now E\<rparr>"

definition propose :: "env \<Rightarrow> Message \<Rightarrow> string \<Rightarrow> srv \<Rightarrow> fault + srv" where
  "propose E message digest s0 =
     ebind (iadd (currentSequence s0) 1) (\<lambda>seq.
       let s = s0\<lparr>currentSequence := seq\<rparr>; r = new_proposal E digest s; p = length (heap s)
       in ebind (isub seq (lowWatermark s)) (\<lambda>index.
          ebind (vec_set (log s) index (Some p)) (\<lambda>log'.
          sendPrePrepareToAll \<lparr>pp_r = r, pp_m = message\<rparr>
            (s\<lparr>heap := heap s @ [proposed_entry E message r], log := log',
               digestToEntry := sm_put digest p (digestToEntry s)\<rparr>))))"

text \<open>The branch for an entry that an earlier leader proposed: the new leader signs its context for
  the current view and sends it again.\<close>

definition repropose :: "env \<Rightarrow> Message \<Rightarrow> nat \<Rightarrow> MessageInfo \<Rightarrow> srv \<Rightarrow> fault + srv" where
  "repropose E message p e s =
     (let context = (rq_data (mi_prePrepare e))\<lparr>cx_view_num := currentView s\<rparr>;
          r = \<lparr>rq_data = context,
               rq_sig_vec = addMACSignature E s (ser_ctx E context) (rq_sig_vec (mi_prePrepare e))\<rparr>;
          e' = e\<lparr>mi_prepareProofs := [], mi_commitProofs := [], mi_prePrepare := r\<rparr>
      in sendPrePrepareToAll \<lparr>pp_r = r, pp_m = message\<rparr> (put_entry p e' s))"

definition find_entry :: "srv \<Rightarrow> string \<Rightarrow> fault + (nat \<times> MessageInfo) option" where
  "find_entry s digest =
     (case sm_find (digestToEntry s) digest of
        None \<Rightarrow> Ok None
      | Some p \<Rightarrow> ebind (deref s p) (\<lambda>e. Ok (Some (p, e))))"

definition message_digest :: "env \<Rightarrow> Message \<Rightarrow> string" where
  "message_digest E m = sha256Digest E (ser_td E (ms_data m))"

text \<open>A replica that is not the leader passes the request on and waits for the leader to act.\<close>

definition forward :: "string \<Rightarrow> Message \<Rightarrow> srv \<Rightarrow> fault + srv" where
  "forward digest message s =
     ebind (serverStub (getLeaderId s)) (\<lambda>j.
       let s1 = emit (ToServer j (P_Transfer message)) s;
           s2 = s1\<lparr>awaitedDigests := insert digest (awaitedDigests s1)\<rparr>
       in ebind (iadd (currentView s) 1) (\<lambda>newView.
          Ok (start_timer (DigestTimer digest newView (viewChangeTimeoutDelta s)) s2)))"

definition processTransfer :: "env \<Rightarrow> Message \<Rightarrow> srv \<Rightarrow> fault + srv" where
  "processTransfer E message s =
     (if srvState s = VIEW_CHANGE_STATE then Ok s
      else
        let digest = message_digest E message in
        if \<not> verifySignature_Message E message then Ok s
        else ebind (find_entry s digest) (\<lambda>entry.
          if serverId s \<noteq> getLeaderId s then
            (case entry of
               Some (p, e) \<Rightarrow>
                 if mi_mstatus e = EXECUTED
                 then notifyClient E (sg_server_id (ms_signature message)) message (mi_result e) s
                 else forward digest message s
             | None \<Rightarrow> forward digest message s)
          else
            (case entry of
               Some (p, e) \<Rightarrow>
                 if mi_mstatus e = EXECUTED
                 then notifyClient E (sg_server_id (ms_signature message)) message (mi_result e) s
                 else if sv_server_id (rq_sig_vec (mi_prePrepare e)) = getLeaderId s then Ok s
                 else if \<not> isByzantine s then repropose E message p e s
                 else Ok s
             | None \<Rightarrow> propose E message digest s)))"

section \<open>Proposals\<close>

text \<open>Whether the slot holds another request of the same or a later view.\<close>

definition conflicting :: "int \<Rightarrow> string \<Rightarrow> MessageInfo \<Rightarrow> bool" where
  "conflicting viewNum digest e \<longleftrightarrow>
     viewNum \<le> cx_view_num (rq_data (mi_prePrepare e)) \<and>
     digest \<noteq> cx_digest (rq_data (mi_prePrepare e))"

text \<open>The body of \<open>processPrePrepare\<close> after its checks, for the slot's entry \<open>p\<close>.\<close>

definition own_prePrepareOk :: "env \<Rightarrow> Request \<Rightarrow> srv \<Rightarrow> Request" where
  "own_prePrepareOk E r s =
     (let ok0 = \<lparr>rq_data = rq_data r, rq_sig_vec = default_sigvec\<rparr>
      in ok0\<lparr>rq_sig_vec := addMACSignature E s (ser_request E ok0) default_sigvec\<rparr>)"

definition accepted_entry :: "env \<Rightarrow> PrePrepareRequest \<Rightarrow> Request \<Rightarrow> srv \<Rightarrow> MessageInfo \<Rightarrow> MessageInfo" where
  "accepted_entry E request prePrepareOk s e =
     e\<lparr>mi_m := pp_m request, mi_mstatus := PRE_PREPARED, mi_prePrepare := pp_r request,
       mi_prepareProofs := sm_put (serverId s) prePrepareOk [], mi_commitProofs := [],
       mi_startTime := env_now E\<rparr>"

definition accept_prePrepare :: "env \<Rightarrow> PrePrepareRequest \<Rightarrow> int \<Rightarrow> nat \<Rightarrow> srv \<Rightarrow> fault + srv" where
  "accept_prePrepare E request seqNum p s =
     ebind (deref s p) (\<lambda>e0.
       let r = pp_r request; digest = cx_digest (rq_data r);
           prePrepareOk = own_prePrepareOk E r s;
           s1 = (put_entry p (accepted_entry E request prePrepareOk s e0) s)
                  \<lparr>digestToEntry := sm_put digest p (digestToEntry s)\<rparr>
       in ebind (if \<not> isByzantine s1
                 then sendRequest prePrepareOk (sv_server_id (rq_sig_vec r)) PRE_PREPARE_OK s1
                 else Ok s1) (\<lambda>s2.
          ebind (iadd (currentView s2) 1) (\<lambda>newView.
          Ok (start_timer (SeqTimer seqNum newView (viewChangeTimeoutDelta s2)) s2))))"

definition processPrePrepare :: "env \<Rightarrow> PrePrepareRequest \<Rightarrow> srv \<Rightarrow> fault + srv" where
  "processPrePrepare E request s0 =
     (let r = pp_r request; viewNum = cx_view_num (rq_data r);
          seqNum = cx_sequence_num (rq_data r); digest = cx_digest (rq_data r)
      in if srvState s0 = VIEW_CHANGE_STATE then Ok s0
         else if sv_server_id (rq_sig_vec r) \<noteq> getLeaderId s0 then Ok s0
         else if \<not> verifySignature_Message E (pp_m request) then Ok s0
         else if viewNum \<noteq> currentView s0 then Ok s0
         else if seqNum < lowWatermark s0 \<or> seqNum > highWatermark s0 then Ok s0
         else if digest \<noteq> message_digest E (pp_m request) then Ok s0
         else
           let s = s0\<lparr>awaitedDigests := awaitedDigests s0 - {digest},
                      currentSequence := max seqNum (currentSequence s0)\<rparr>
           in ebind (isub seqNum (lowWatermark s)) (\<lambda>index.
              ebind (vec_get (log s) index) (\<lambda>q.
                case q of
                  None \<Rightarrow>
                    let p = length (heap s)
                    in ebind (vec_set (log s) index (Some p)) (\<lambda>log'.
                       accept_prePrepare E request seqNum p
                         (s\<lparr>heap := heap s @ [new_MessageInfo E], log := log'\<rparr>))
                | Some p \<Rightarrow>
                    ebind (deref s p) (\<lambda>e.
                      if conflicting viewNum digest e then Ok s
                      else accept_prePrepare E request seqNum p s))))"

section \<open>Votes for a proposal\<close>

definition processPrePrepareOk :: "env \<Rightarrow> Request \<Rightarrow> srv \<Rightarrow> fault + srv" where
  "processPrePrepareOk E request s =
     (if srvState s = VIEW_CHANGE_STATE then Ok s
      else if serverId s \<noteq> getLeaderId s then Ok s
      else ebind (verifySignature_Request E s request) (\<lambda>validSignature.
        if \<not> validSignature then Ok s
        else
          let seqNum = cx_sequence_num (rq_data request)
          in ebind (isub seqNum (lowWatermark s)) (\<lambda>index.
             ebind (log_entry s index) (\<lambda>(p, e).
               if cx_digest (rq_data (mi_prePrepare e)) \<noteq> cx_digest (rq_data request) then Ok s
               else
                 let e1 = e\<lparr>mi_prepareProofs :=
                            sm_put (sv_server_id (rq_sig_vec request)) request (mi_prepareProofs e)\<rparr>
                 in if \<not> isByzantine s \<and> mi_mstatus e1 = PRE_PREPARED \<and>
                       int (length (mi_prepareProofs e1)) \<ge> 2 * pbft_f s
                    then Ok (start_timer (OptimisticTimer seqNum)
                               (put_entry p (e1\<lparr>mi_mstatus := PREPARED\<rparr>) s))
                    else Ok (put_entry p e1 s)))))"

section \<open>Certificates\<close>

text \<open>
  The loop over the signature vectors of a certificate: a vector whose code verifies, for a context
  that matches the entry's proposal, becomes a proof of its sender. A vector in the receiver's own
  name is taken as it is; any other is read at the receiver's own position.
\<close>

primrec add_proofs ::
  "env \<Rightarrow> srv \<Rightarrow> Context \<Rightarrow> Context \<Rightarrow> SignatureVec list \<Rightarrow> (int, Request) smap \<Rightarrow>
     fault + (int, Request) smap" where
  "add_proofs E s d pp [] m = Ok m"
| "add_proofs E s d pp (sv # svs) m =
     (let senderId = sv_server_id sv
      in ebind (if senderId = serverId s then Ok True
                else ebind (vec_get (sv_signatures sv) (serverId s)) (\<lambda>sg.
                  Ok (verifyMAC E (ser_ctx E d) sg (macKeyPath (serverId s) senderId))))
           (\<lambda>validSignature.
             add_proofs E s d pp svs
               (if validSignature \<and> cx_view_num d = cx_view_num pp \<and> cx_digest d = cx_digest pp
                then sm_put senderId \<lparr>rq_data = d, rq_sig_vec = sv\<rparr> m else m)))"

definition processPrepare :: "env \<Rightarrow> ProofRequest \<Rightarrow> srv \<Rightarrow> fault + srv" where
  "processPrepare E request s =
     (if srvState s = VIEW_CHANGE_STATE \<or> isByzantine s then Ok s
      else
        let d = pf_data request; viewNum = cx_view_num d; seqNum = cx_sequence_num d
        in if viewNum \<noteq> currentView s then Ok s
           else if seqNum < lowWatermark s \<or> seqNum > highWatermark s then Ok s
           else
             ebind (isub seqNum (lowWatermark s)) (\<lambda>index.
             ebind (vec_get (log s) index) (\<lambda>q.
               case q of
                 None \<Rightarrow> Ok s
               | Some p \<Rightarrow>
                   ebind (deref s p) (\<lambda>e.
                   if mi_mstatus e \<noteq> PRE_PREPARED then Ok s
                   else
                     ebind (add_proofs E s d (rq_data (mi_prePrepare e)) (pf_sig_vecs request)
                              (mi_prepareProofs e)) (\<lambda>proofs.
                       let e1 = e\<lparr>mi_prepareProofs := proofs\<rparr>
                       in if \<not> isByzantine s \<and> int (length proofs) \<ge> 2 * pbft_f s then
                            let c0 = \<lparr>rq_data = d, rq_sig_vec = default_sigvec\<rparr>;
                                commitReq = c0\<lparr>rq_sig_vec :=
                                  addMACSignature E s (ser_request E c0) default_sigvec\<rparr>
                            in sendRequest commitReq (getLeaderId s) PREPARE_OK
                                 (put_entry p (e1\<lparr>mi_mstatus := PREPARED\<rparr>) s)
                          else Ok (put_entry p e1 s))))))"

definition processPrepareOk :: "env \<Rightarrow> Request \<Rightarrow> srv \<Rightarrow> fault + srv" where
  "processPrepareOk E request s =
     (if srvState s = VIEW_CHANGE_STATE then Ok s
      else if serverId s \<noteq> getLeaderId s then Ok s
      else ebind (verifySignature_Request E s request) (\<lambda>validSignature.
        if \<not> validSignature then Ok s
        else
          let seqNum = cx_sequence_num (rq_data request)
          in ebind (isub seqNum (lowWatermark s)) (\<lambda>index.
             ebind (log_entry s index) (\<lambda>(p, e).
               if cx_digest (rq_data (mi_prePrepare e)) \<noteq> cx_digest (rq_data request) then Ok s
               else
                 let e1 = e\<lparr>mi_commitProofs :=
                            sm_put (sv_server_id (rq_sig_vec request)) request (mi_commitProofs e)\<rparr>
                 in if mi_mstatus e1 = PREPARED \<and>
                       int (length (mi_commitProofs e1)) \<ge> 2 * pbft_f s + 1
                    then
                      let s1 = (put_entry p (e1\<lparr>mi_mstatus := COMMITTED\<rparr>) s)
                                 \<lparr>lastCommitted := max seqNum (lastCommitted s)\<rparr>;
                          commit = \<lparr>pf_data = rq_data (mi_prePrepare e1),
                                    pf_sig_vecs = map rq_sig_vec (sm_vals (mi_commitProofs e1))\<rparr>
                      in ebind (executePending E s1) (sendRequestToAll commit COMMIT)
                    else Ok (put_entry p e1 s)))))"

definition processCommit :: "env \<Rightarrow> ProofRequest \<Rightarrow> srv \<Rightarrow> fault + srv" where
  "processCommit E request s =
     (if srvState s = VIEW_CHANGE_STATE \<or> isByzantine s then Ok s
      else
        let d = pf_data request; viewNum = cx_view_num d; seqNum = cx_sequence_num d
        in if viewNum \<noteq> currentView s then Ok s
           else if seqNum < lowWatermark s \<or> seqNum > highWatermark s then Ok s
           else
             ebind (isub seqNum (lowWatermark s)) (\<lambda>index.
             ebind (vec_get (log s) index) (\<lambda>q.
               case q of
                 None \<Rightarrow> Ok s
               | Some p \<Rightarrow>
                   ebind (deref s p) (\<lambda>e.
                   if \<not> (mi_mstatus e = PRE_PREPARED \<or> mi_mstatus e = PREPARED) then Ok s
                   else
                     ebind (add_proofs E s d (rq_data (mi_prePrepare e)) (pf_sig_vecs request)
                              (mi_commitProofs e)) (\<lambda>proofs.
                       let e1 = e\<lparr>mi_commitProofs := proofs\<rparr>
                       in if mi_mstatus e1 \<noteq> COMMITTED \<and> mi_mstatus e1 \<noteq> EXECUTED \<and>
                             int (length proofs) \<ge> 2 * pbft_f s + 1
                          then executePending E
                                 ((put_entry p (e1\<lparr>mi_mstatus := COMMITTED\<rparr>) s)
                                    \<lparr>lastCommitted := max seqNum (lastCommitted s)\<rparr>)
                          else Ok (put_entry p e1 s))))))"

section \<open>The optimistic timer\<close>

text \<open>
  What the closure of \<open>setOptimisticTimer\<close> does when its delay is over. With votes from all other
  replicas the leader commits at once; otherwise it starts the slow path with a certificate of the
  votes it has.
\<close>

definition own_commit_proof :: "env \<Rightarrow> MessageInfo \<Rightarrow> srv \<Rightarrow> Request" where
  "own_commit_proof E e s =
     \<lparr>rq_data = rq_data (mi_prePrepare e),
      rq_sig_vec = addMACSignature E s (ser_ctx E (rq_data (mi_prePrepare e))) default_sigvec\<rparr>"

definition fire_OptimisticTimer :: "env \<Rightarrow> int \<Rightarrow> srv \<Rightarrow> fault + srv" where
  "fire_OptimisticTimer E seqNum s =
     (if srvState s = VIEW_CHANGE_STATE then Ok s
      else ebind (isub seqNum (lowWatermark s)) (\<lambda>index.
           ebind (log_entry s index) (\<lambda>(p, e).
             let sigs = map rq_sig_vec (sm_vals (mi_prepareProofs e)); r = own_commit_proof E e s
             in if int (length (mi_prepareProofs e)) = 3 * pbft_f s then
                  let e1 = e\<lparr>mi_mstatus := COMMITTED,
                             mi_commitProofs := sm_put (serverId s) r (mi_prepareProofs e)\<rparr>;
                      request = \<lparr>pf_data = rq_data (mi_prePrepare e), pf_sig_vecs = sigs @ [rq_sig_vec r]\<rparr>
                  in ebind (sendRequestToAll request COMMIT
                              ((put_entry p e1 s)\<lparr>lastCommitted := seqNum\<rparr>)) (executePending E)
                else
                  let e1 = e\<lparr>mi_commitProofs := sm_put (serverId s) r (mi_commitProofs e)\<rparr>;
                      request = \<lparr>pf_data = rq_data (mi_prePrepare e), pf_sig_vecs = sigs\<rparr>
                  in sendRequestToAll request PREPARE (put_entry p e1 s))))"

end
