(* ===== verification/Server_Checkpoint.thy ===== *)
theory Server_Checkpoint
  imports Server_Normal
begin

text \<open>
  Checkpoint messages (\<open>processCheckpoint\<close>): collecting signed proofs per sequence number, and, when
  a quorum has the checkpoint and the replica has executed that far, making it stable: the window of
  sequence numbers advances and the log below it is dropped.
\<close>

definition vec_erase_front :: "int \<Rightarrow> 'a list \<Rightarrow> fault + 'a list" where
  "vec_erase_front n xs =
     (if 0 \<le> n \<and> n \<le> int (length xs) then Ok (drop (nat n) xs) else Fault Out_of_bounds)"

lemma vec_erase_front_Ok_iff [simp]:
  "vec_erase_front n xs = Inr ys \<longleftrightarrow> 0 \<le> n \<and> n \<le> int (length xs) \<and> ys = drop (nat n) xs"
  by (auto simp: vec_erase_front_def)

text \<open>The loop that erases the digests of the entries that leave the log.\<close>

primrec erase_digests :: "srv \<Rightarrow> int list \<Rightarrow> (string, nat) smap \<Rightarrow> fault + (string, nat) smap" where
  "erase_digests s [] d = Ok d"
| "erase_digests s (i # is) d =
     ebind (log_entry s i) (\<lambda>(p, e).
       erase_digests s is (sm_erase (cx_digest (rq_data (mi_prePrepare e))) d))"

definition make_stable :: "int \<Rightarrow> CheckpointInfo \<Rightarrow> srv \<Rightarrow> fault + srv" where
  "make_stable c cinfo s =
     ebind (isub c (lowWatermark s)) (\<lambda>c0.
     ebind (iadd c0 1) (\<lambda>entriesToRemove.
     ebind (iadd c 1) (\<lambda>low.
     ebind (iadd low (pbft_k s)) (\<lambda>h0.
     ebind (isub h0 1) (\<lambda>high.
       let s1 = s\<lparr>lastStableCheckpointSeqNum := c, lastStableCheckpointDigest := ci_digest cinfo,
                  lastStableCheckpointState := ci_state cinfo,
                  lastStableCheckpointProofs := ci_checkpointProofs cinfo,
                  checkpoints := sm_erase c (checkpoints s),
                  lowWatermark := low, highWatermark := high\<rparr>
       in ebind (erase_digests s1 [0..entriesToRemove - 1] (digestToEntry s1)) (\<lambda>d.
          ebind (vec_erase_front entriesToRemove (log s1)) (\<lambda>kept.
          Ok (s1\<lparr>digestToEntry := d, log := kept @ replicate (nat entriesToRemove) None\<rparr>))))))))"

definition processCheckpoint :: "env \<Rightarrow> CheckpointReq \<Rightarrow> srv \<Rightarrow> fault + srv" where
  "processCheckpoint E request s =
     (if \<not> verifySignature_CheckpointReq E request then Ok s
      else
        let c = cd_c_seq_num (cr_data request); digest = cd_c_digest (cr_data request);
            known = sm_find (checkpoints s) c
        in if c \<le> lastStableCheckpointSeqNum s then Ok s
           else if known \<noteq> None \<and> ci_digest (the known) \<noteq> digest then Ok s
           else
             let cinfo0 = (case known of None \<Rightarrow> new_CheckpointInfo | Some ci \<Rightarrow> ci);
                 cinfo = cinfo0\<lparr>ci_checkpointProofs :=
                   sm_put (sg_server_id (cr_signature request)) request (ci_checkpointProofs cinfo0)\<rparr>;
                 s1 = s\<lparr>checkpoints := sm_put c cinfo (checkpoints s)\<rparr>
             in if lastExecuted s1 \<ge> c \<and> int (length (ci_checkpointProofs cinfo)) \<ge> 2 * pbft_f s1 + 1
                then make_stable c cinfo s1
                else Ok s1)"

end
