(* ===== verification/Server_View.thy ===== *)
theory Server_View
  imports Server_Checkpoint
begin

text \<open>
  View changes: composing and checking view-change messages, the new leader's choice of the requests
  to carry over (\<open>computeBigO\<close>), entering a new view, and the timers that suspect a leader.
\<close>

section \<open>Checking a view-change message\<close>

text \<open>Counting the elements that pass a check which may itself fault.\<close>

primrec count_valid :: "('a \<Rightarrow> fault + bool) \<Rightarrow> 'a list \<Rightarrow> fault + int" where
  "count_valid c [] = Ok 0"
| "count_valid c (x # xs) =
     ebind (c x) (\<lambda>b. ebind (count_valid c xs) (\<lambda>n. Ok (if b then n + 1 else n)))"

text \<open>The check of one prepare against the pre-prepare it belongs to; \<open>&&\<close> reads the signature only
  when the digests agree.\<close>

definition valid_prepare :: "env \<Rightarrow> srv \<Rightarrow> Request \<Rightarrow> Request \<Rightarrow> fault + bool" where
  "valid_prepare E s prePrepare prepare =
     (if cx_digest (rq_data prepare) = cx_digest (rq_data prePrepare)
      then verifySignature_Request E s prepare else Ok False)"

primrec verify_pproofs :: "env \<Rightarrow> srv \<Rightarrow> CheckpointData \<Rightarrow> PrepareProof list \<Rightarrow> fault + bool" where
  "verify_pproofs E s lastcp [] = Ok True"
| "verify_pproofs E s lastcp (p # ps) =
     ebind (count_valid (valid_prepare E s (pr_pre_prepare p)) (pr_prepares p)) (\<lambda>validPProofs.
       if cd_c_seq_num lastcp \<noteq> -1 \<and> validPProofs < 2 * pbft_f s then Ok False
       else verify_pproofs E s lastcp ps)"

definition valid_cproof :: "env \<Rightarrow> CheckpointData \<Rightarrow> CheckpointReq \<Rightarrow> bool" where
  "valid_cproof E lastcp c \<longleftrightarrow>
     cd_c_seq_num (cr_data c) = cd_c_seq_num lastcp \<and>
     cd_c_digest (cr_data c) = cd_c_digest lastcp \<and> verifySignature_CheckpointReq E c"

definition verifyViewChange :: "env \<Rightarrow> srv \<Rightarrow> ViewChangeReq \<Rightarrow> fault + bool" where
  "verifyViewChange E s request =
     (let d = vc_data request; lastcp = vd_last_checkpoint d;
          validCProofs = int (length (filter (valid_cproof E lastcp) (vd_cproofs d)))
      in if \<not> verifySignature_ViewChangeReq E request then Ok False
         else if cd_c_seq_num lastcp \<noteq> -1 \<and> validCProofs < 2 * pbft_f s + 1 then Ok False
         else verify_pproofs E s lastcp (vd_pproofs d))"

section \<open>The requests of the new view\<close>

text \<open>The first loop: the latest stable checkpoint among the messages, from 0 upwards.
  \<open>checkpointServerId\<close> stays unset when no message beats 0.\<close>

primrec max_checkpoint ::
  "ViewChangeReq list \<Rightarrow> int \<times> CheckpointData \<times> int option \<Rightarrow> int \<times> CheckpointData \<times> int option" where
  "max_checkpoint [] acc = acc"
| "max_checkpoint (v # vs) acc =
     (let cp = vd_last_checkpoint (vc_data v)
      in max_checkpoint vs
           (if fst acc < cd_c_seq_num cp
            then (cd_c_seq_num cp, cp, Some (sg_server_id (vc_signature v))) else acc))"

text \<open>The second loop, over all prepare proofs of all messages: the largest sequence number seen, and
  per sequence number the sufficiently prepared proposal of the highest view.\<close>

definition mega_step ::
  "env \<Rightarrow> int \<Rightarrow> PrepareProof \<Rightarrow> srv \<times> int \<times> (int, Request) smap \<Rightarrow>
     fault + srv \<times> int \<times> (int, Request) smap" where
  "mega_step E maxStable p acc =
     (let (s, maxSeq, mega) = acc; pre = pr_pre_prepare p; n = cx_sequence_num (rq_data pre)
      in if n \<le> maxStable then Ok acc
         else ebind (count_valid (valid_prepare E s pre) (pr_prepares p)) (\<lambda>valid.
           let better = (case sm_find mega n of
                           None \<Rightarrow> True
                         | Some r \<Rightarrow> cx_view_num (rq_data pre) > cx_view_num (rq_data r))
           in Ok (s, max maxSeq n,
                  if valid \<ge> 2 * pbft_f s \<and> better then sm_put n pre mega else mega)))"

text \<open>The filler for a sequence number nothing was prepared for: view -1, sequence number -1.\<close>

definition nop_request :: "env \<Rightarrow> srv \<Rightarrow> Request" where
  "nop_request E s =
     (let c = \<lparr>cx_view_num = -1, cx_sequence_num = -1, cx_digest = ''''\<rparr>
      in \<lparr>rq_data = c, rq_sig_vec = addMACSignature E s (ser_ctx E c) default_sigvec\<rparr>)"

definition all_pproofs :: "ViewChangeReq list \<Rightarrow> PrepareProof list" where
  "all_pproofs vs = concat (map (\<lambda>v. vd_pproofs (vc_data v)) vs)"

definition computeBigO ::
  "env \<Rightarrow> ViewChangeReq list \<Rightarrow> srv \<Rightarrow> fault + Request list \<times> CheckpointData \<times> int option" where
  "computeBigO E viewChanges s =
     ebind (vec_get viewChanges 0) (\<lambda>v0.
       let (maxStable, lastcp, cpServer) =
             max_checkpoint viewChanges (0, vd_last_checkpoint (vc_data v0), None)
       in ebind (each (mega_step E maxStable) (all_pproofs viewChanges) (s, 0, []))
            (\<lambda>(_, maxSeq, mega).
          ebind (iadd maxStable 1) (\<lambda>first.
          Ok (map (\<lambda>i. case sm_find mega i of Some r \<Rightarrow> r | None \<Rightarrow> nop_request E s)
                [first..maxSeq - 1],
              lastcp, cpServer))))"

section \<open>Starting a view change\<close>

text \<open>The loop over the log from \<open>checkpointOffset + 1\<close>: a proof for every prepared entry.\<close>

primrec collect_pproofs :: "srv \<Rightarrow> int list \<Rightarrow> fault + PrepareProof list" where
  "collect_pproofs s [] = Ok []"
| "collect_pproofs s (i # is) =
     ebind (vec_get (log s) i) (\<lambda>q.
       case q of
         None \<Rightarrow> collect_pproofs s is
       | Some p \<Rightarrow>
           ebind (deref s p) (\<lambda>e.
           ebind (collect_pproofs s is) (\<lambda>rest.
             Ok (if mi_mstatus e = PREPARED \<or> mi_mstatus e = COMMITTED \<or> mi_mstatus e = EXECUTED
                 then \<lparr>pr_pre_prepare = mi_prePrepare e,
                       pr_prepares = sm_vals (mi_prepareProofs e)\<rparr> # rest
                 else rest))))"

definition composeViewChangeRequest :: "int \<Rightarrow> srv \<Rightarrow> fault + ViewChangeReq" where
  "composeViewChangeRequest viewNum s =
     ebind (isub (lastStableCheckpointSeqNum s) (lowWatermark s)) (\<lambda>checkpointOffset.
     ebind (iadd checkpointOffset 1) (\<lambda>first.
     ebind (collect_pproofs s [first..pbft_k s - 1]) (\<lambda>pproofs.
       Ok \<lparr>vc_data =
             \<lparr>vd_view_num = viewNum,
              vd_last_checkpoint = \<lparr>cd_c_seq_num = lastStableCheckpointSeqNum s,
                                    cd_c_digest = lastStableCheckpointDigest s\<rparr>,
              vd_cproofs = sm_vals (lastStableCheckpointProofs s),
              vd_pproofs = pproofs\<rparr>,
           vc_signature = default_sig\<rparr>)))"

text \<open>\<open>m[i][j] = v\<close> for a map of maps.\<close>

definition sm_put2 :: "int \<Rightarrow> int \<Rightarrow> 'v \<Rightarrow> (int, (int, 'v) smap) smap \<Rightarrow> (int, (int, 'v) smap) smap" where
  "sm_put2 i j v m =
     sm_put i (sm_put j v (case sm_find m i of None \<Rightarrow> [] | Some inner \<Rightarrow> inner)) m"

definition sm_wf2 :: "(int, (int, 'v) smap) smap \<Rightarrow> bool" where
  "sm_wf2 m \<longleftrightarrow> sm_wf m \<and> (\<forall>x \<in> set m. sm_wf (snd x))"

lemma sm_put2_wf: "sm_wf2 m \<Longrightarrow> sm_wf2 (sm_put2 a b x m)"
  by (force simp: sm_wf2_def sm_put2_def dest!: sm_put_mem dest: map_of_SomeD split: option.split)

lemma fold_sm_put2_wf: "sm_wf2 m \<Longrightarrow> sm_wf2 (fold (\<lambda>v. sm_put2 a (f v) v) vs m)"
  by (induction vs arbitrary: m) (simp_all add: sm_put2_wf)

lemma sm_wf2_find: "sm_wf2 m \<Longrightarrow> sm_find m k = Some i \<Longrightarrow> sm_wf i"
  by (auto simp: sm_wf2_def dest!: map_of_SomeD)

definition triggerViewChange :: "env \<Rightarrow> int \<Rightarrow> srv \<Rightarrow> fault + srv" where
  "triggerViewChange E viewNum s0 =
     (let s = s0\<lparr>srvState := VIEW_CHANGE_STATE\<rparr>
      in ebind (composeViewChangeRequest viewNum s) (\<lambda>request.
         sendViewChangeToAll E request
           (s\<lparr>lastProposedView := viewNum,
              selfTriggeredViewChangeMessages :=
                sm_put2 viewNum (serverId s) request (selfTriggeredViewChangeMessages s)\<rparr>)))"

section \<open>Receiving view-change messages\<close>

text \<open>The new leader's reaction to the last message it needs.\<close>

definition announce_view :: "env \<Rightarrow> int \<Rightarrow> srv \<Rightarrow> fault + srv" where
  "announce_view E newView s =
     ebind (composeViewChangeRequest newView s) (\<lambda>vc.
       let viewChange = vc\<lparr>vc_signature := addECDSASignature E s (ser_vd E (vc_data vc))\<rparr>;
           s1 = s\<lparr>viewChangeMessages := sm_put2 newView (serverId s) viewChange (viewChangeMessages s)\<rparr>;
           viewChanges = (case sm_find (viewChangeMessages s1) newView of
                            None \<Rightarrow> [] | Some m \<Rightarrow> sm_vals m)
       in ebind (computeBigO E viewChanges s1) (\<lambda>(bigO, _).
            let d = \<lparr>nd_view_num = newView, nd_vproofs = viewChanges, nd_pre_prepares = bigO\<rparr>
            in sendNewViewToAll E \<lparr>nv_data = d, nv_signature = default_sig\<rparr>
                 (s1\<lparr>srvState := NORMAL_STATE, currentView := newView\<rparr>)))"

definition processViewChange :: "env \<Rightarrow> ViewChangeReq \<Rightarrow> srv \<Rightarrow> fault + srv" where
  "processViewChange E request s =
     ebind (verifyViewChange E s request) (\<lambda>valid.
       if \<not> valid then Ok s
       else
         let newView = vd_view_num (vc_data request)
         in if newView \<le> currentView s then Ok s
            else
              let senderId = sg_server_id (vc_signature request);
                  s1 = s\<lparr>viewChangeMessages := sm_put2 newView senderId request (viewChangeMessages s)\<rparr>;
                  count = (case sm_find (viewChangeMessages s1) newView of
                             None \<Rightarrow> 0 | Some m \<Rightarrow> int (length m))
              in if newView smod clusterSize s1 \<noteq> serverId s1 \<and> count = pbft_f s1 + 1 \<and>
                    srvState s1 \<noteq> VIEW_CHANGE_STATE
                 then ebind (triggerViewChange E newView s1) (\<lambda>s2.
                      Ok (start_timer (ViewTimer newView 0) s2))
                 else if \<not> isByzantine s1 \<and> newView smod clusterSize s1 = serverId s1 \<and>
                         count = 2 * pbft_f s1
                 then announce_view E newView s1
                 else Ok s1)"

section \<open>Entering a new view\<close>

text \<open>The comparison of the recomputed requests with those of the message, position by position.\<close>

primrec check_bigO :: "Request list \<Rightarrow> Request list \<Rightarrow> int \<Rightarrow> fault + bool" where
  "check_bigO [] sent_reqs i = Ok True"
| "check_bigO (r # rs) sent_reqs i =
     ebind (vec_get sent_reqs i) (\<lambda>q.
       if cx_view_num (rq_data r) \<noteq> cx_view_num (rq_data q) \<or>
          cx_sequence_num (rq_data r) \<noteq> cx_sequence_num (rq_data q) \<or>
          cx_digest (rq_data r) \<noteq> cx_digest (rq_data q)
       then Ok False else check_bigO rs sent_reqs (i + 1))"

definition send_new_view_ok :: "env \<Rightarrow> Request \<Rightarrow> srv \<Rightarrow> fault + srv" where
  "send_new_view_ok E prePrepare s =
     (let ok0 = \<lparr>rq_data = rq_data prePrepare, rq_sig_vec = default_sigvec\<rparr>
      in sendRequest
           (ok0\<lparr>rq_sig_vec := addMACSignature E s (ser_request E ok0) default_sigvec\<rparr>)
           (getLeaderId s) PRE_PREPARE_OK s)"

definition enter_view :: "env \<Rightarrow> NewViewData \<Rightarrow> srv \<Rightarrow> fault + srv" where
  "enter_view E d s =
     each (send_new_view_ok E) (nd_pre_prepares d)
       (s\<lparr>srvState := NORMAL_STATE, currentView := nd_view_num d,
          viewChangeMessages :=
            fold (\<lambda>v. sm_put2 (nd_view_num d) (sg_server_id (vc_signature v)) v) (nd_vproofs d)
              (sm_put (nd_view_num d) [] (viewChangeMessages s))\<rparr>)"

definition processNewView :: "env \<Rightarrow> NewViewReq \<Rightarrow> srv \<Rightarrow> fault + srv" where
  "processNewView E request s =
     (let d = nv_data request
      in if \<not> verifySignature_NewViewReq E request then Ok s
         else if nd_view_num d \<le> currentView s then Ok s
         else ebind (count_valid (verifyViewChange E s) (nd_vproofs d)) (\<lambda>validViewChanges.
           if validViewChanges < 2 * pbft_f s + 1 then Ok s
           else ebind (computeBigO E (nd_vproofs d) s) (\<lambda>(bigO, _).
                ebind (check_bigO bigO (nd_pre_prepares d) 0) (\<lambda>same.
                  if \<not> same then Ok s else enter_view E d s))))"

section \<open>Timers\<close>

text \<open>What each closure does when its delay is over.\<close>

definition fire_DigestTimer :: "env \<Rightarrow> string \<Rightarrow> int \<Rightarrow> int \<Rightarrow> srv \<Rightarrow> fault + srv" where
  "fire_DigestTimer E digest newView timeoutSeconds s =
     (if srvState s = NORMAL_STATE \<and> currentView s \<ge> newView then Ok s
      else if srvState s = VIEW_CHANGE_STATE \<and> lastProposedView s \<ge> newView then Ok s
      else if digest \<noteq> '''' \<and> (digest \<notin> awaitedDigests s \<or> serverId s = getLeaderId s) then Ok s
      else if digest \<noteq> '''' then
        ebind (triggerViewChange E newView (s\<lparr>lastProposedView := newView\<rparr>)) (\<lambda>s1.
        ebind (iadd newView 1) (\<lambda>v.
        ebind (iadd timeoutSeconds (viewChangeTimeoutDelta s1)) (\<lambda>t.
        Ok (start_timer (DigestTimer digest v t) s1))))
      else Ok s)"

definition fire_SeqTimer :: "env \<Rightarrow> int \<Rightarrow> int \<Rightarrow> int \<Rightarrow> srv \<Rightarrow> fault + srv" where
  "fire_SeqTimer E seqNum newView timeoutSeconds s =
     (if srvState s = NORMAL_STATE \<and> currentView s \<ge> newView then Ok s
      else if srvState s = VIEW_CHANGE_STATE \<and> lastProposedView s \<ge> newView then Ok s
      else if lastExecuted s \<ge> seqNum then Ok s
      else ebind (isub seqNum (lowWatermark s)) (\<lambda>index.
           ebind (log_entry s index) (\<lambda>(p, e).
             if mi_mstatus e \<noteq> EXECUTED then
               ebind (triggerViewChange E newView (s\<lparr>lastProposedView := newView\<rparr>)) (\<lambda>s1.
               ebind (iadd newView 1) (\<lambda>v.
               ebind (iadd timeoutSeconds (viewChangeTimeoutDelta s1)) (\<lambda>t.
               Ok (start_timer (SeqTimer seqNum v t) s1))))
             else Ok s)))"

definition fire_ViewTimer :: "int \<Rightarrow> int \<Rightarrow> srv \<Rightarrow> fault + srv" where
  "fire_ViewTimer newView timeoutSeconds s =
     (if srvState s = NORMAL_STATE then Ok s
      else if srvState s = VIEW_CHANGE_STATE \<and> lastProposedView s \<ge> newView then Ok s
      else ebind (iadd newView 1) (\<lambda>v.
           ebind (iadd timeoutSeconds (viewChangeTimeoutDelta s)) (\<lambda>t.
           Ok (start_timer (ViewTimer v t) (s\<lparr>lastProposedView := newView\<rparr>)))))"

definition fire_RetryTimer :: "env \<Rightarrow> NewViewReq \<Rightarrow> srv \<Rightarrow> fault + srv" where
  "fire_RetryTimer E request s =
     (if nd_view_num (nv_data request) > currentView s then processNewView E request s else Ok s)"

end
