(* ===== verification/Server_Query.thy ===== *)
theory Server_Query
  imports Server_View
begin

text \<open>
  The read-only requests of the driver: \<open>GetLog\<close>, \<open>GetDB\<close>, \<open>GetStatus\<close>, \<open>GetViewChanges\<close> and
  \<open>GetPerformance\<close>. \<open>GetDB\<close> reads the balances through \<open>operator[]\<close>, so it may insert accounts; the
  others leave the state alone. \<open>GetPerformance\<close> divides two doubles; the model gives the dividend and
  the divisor.
\<close>

definition log_line :: "MessageInfo \<Rightarrow> LogEntry" where
  "log_line e = \<lparr>le_t = ms_data (mi_m e), le_matching_prepares = int (length (mi_prepareProofs e)),
     le_matching_commits = int (length (mi_commitProofs e)), le_valid = mi_result e\<rparr>"

definition blank_line :: LogEntry where
  "blank_line = \<lparr>le_t = default_td, le_matching_prepares = 0, le_matching_commits = 0,
     le_valid = False\<rparr>"

primrec log_lines :: "srv \<Rightarrow> int list \<Rightarrow> fault + LogEntry list" where
  "log_lines s [] = Ok []"
| "log_lines s (seq # seqs) =
     ebind (isub seq (lowWatermark s)) (\<lambda>i.
     ebind (vec_get (log s) i) (\<lambda>q.
     ebind (case q of None \<Rightarrow> Ok blank_line | Some p \<Rightarrow> ebind (deref s p) (\<lambda>e. Ok (log_line e)))
       (\<lambda>line. ebind (log_lines s seqs) (\<lambda>rest. Ok (line # rest)))))"

definition GetLog :: "srv \<Rightarrow> fault + GetLogRes" where
  "GetLog s =
     ebind (log_lines s [lowWatermark s..currentSequence s]) (\<lambda>es.
       Ok \<lparr>gl_entries = es, gl_last_committed = lastCommitted s, gl_last_executed = lastExecuted s,
           gl_last_checkpoint = lastCheckpoint s,
           gl_last_stable_checkpoint = lastStableCheckpointSeqNum s\<rparr>)"

text \<open>The names \<open>std::string(1, 'A' + i)\<close>.\<close>

definition client_letter :: "nat \<Rightarrow> string" where
  "client_letter i = [char_of (65 + i)]"

primrec read_balances :: "string list \<Rightarrow> (string, int) smap \<Rightarrow> int list \<times> (string, int) smap" where
  "read_balances [] b = ([], b)"
| "read_balances (a # as) b =
     (let (v, b1) = sm_index 0 a b; (vs, b2) = read_balances as b1 in (v # vs, b2))"

definition GetDB :: "srv \<Rightarrow> int list \<times> srv" where
  "GetDB s =
     (let (vs, b) = read_balances (map client_letter [0..<length clientAddresses]) (balances s)
      in (vs, s\<lparr>balances := b\<rparr>))"

definition status_letter :: "MessageStatus \<Rightarrow> string" where
  "status_letter st = (case st of NO_STATUS \<Rightarrow> ''NS'' | PRE_PREPARED \<Rightarrow> ''PP'' | PREPARED \<Rightarrow> ''P''
     | COMMITTED \<Rightarrow> ''C'' | EXECUTED \<Rightarrow> ''E'')"

definition GetStatus :: "int \<Rightarrow> srv \<Rightarrow> fault + string" where
  "GetStatus seqNum s =
     ebind (isub seqNum (lowWatermark s)) (\<lambda>index.
       if seqNum \<le> lastExecuted s then Ok ''E''
       else if index < 0 \<or> index > pbft_k s then Ok ''NS''
       else ebind (vec_get (log s) index) (\<lambda>q.
         case q of
           None \<Rightarrow> Ok ''NS''
         | Some p \<Rightarrow> ebind (deref s p) (\<lambda>e. Ok (status_letter (mi_mstatus e)))))"

definition view_changes_of ::
  "(int \<Rightarrow> ViewChangeReq \<Rightarrow> string) \<Rightarrow> (int, (int, ViewChangeReq) smap) smap \<Rightarrow> ViewChangesResEntry list" where
  "view_changes_of initiator m =
     concat (map (\<lambda>(v, inner). map (\<lambda>(i, r).
         \<lparr>ve_view_num = v, ve_initiator = initiator i r,
          ve_stable_checkpoint = cd_c_seq_num (vd_last_checkpoint (vc_data r))\<rparr>) inner) m)"

definition GetViewChanges :: "srv \<Rightarrow> ViewChangesResEntry list" where
  "GetViewChanges s =
     view_changes_of (\<lambda>i r. ''S'' @ to_string (sg_server_id (vc_signature r) + 1)) (viewChangeMessages s)
     @ view_changes_of (\<lambda>i r. ''S'' @ to_string (serverId s + 1)) (selfTriggeredViewChangeMessages s)"

definition GetPerformance :: "srv \<Rightarrow> (int \<times> int) option" where
  "GetPerformance s =
     (if lastExecuted s \<ge> 0 then Some (1000 * lastExecuted s, totalTimeTaken s) else None)"

end
