(* ===== verification/Server_Inv.thy ===== *)
theory Server_Inv
  imports Server_Query
begin

text \<open>
  The events a server handles, its steps, and the invariant that every step keeps: the window of
  sequence numbers, the log and its entries, the ledger, and the maps.
\<close>

section \<open>Events and steps\<close>

datatype event =
    Rpc payload | Fire timer | Query_DB

fun handle_payload :: "env \<Rightarrow> payload \<Rightarrow> srv \<Rightarrow> fault + srv" where
  "handle_payload E (P_Transfer m) s = processTransfer E m s"
| "handle_payload E (P_PrePrepare r) s = processPrePrepare E r s"
| "handle_payload E (P_PrePrepareOk r) s = processPrePrepareOk E r s"
| "handle_payload E (P_Prepare r) s = processPrepare E r s"
| "handle_payload E (P_PrepareOk r) s = processPrepareOk E r s"
| "handle_payload E (P_Commit r) s = processCommit E r s"
| "handle_payload E (P_ViewChange r) s = processViewChange E r s"
| "handle_payload E (P_NewView r) s = processNewView E r s"
| "handle_payload E (P_Checkpoint r) s = processCheckpoint E r s"

fun fire_timer :: "env \<Rightarrow> timer \<Rightarrow> srv \<Rightarrow> fault + srv" where
  "fire_timer E (DigestTimer d v t) s = fire_DigestTimer E d v t s"
| "fire_timer E (SeqTimer n v t) s = fire_SeqTimer E n v t s"
| "fire_timer E (ViewTimer v t) s = fire_ViewTimer v t s"
| "fire_timer E (OptimisticTimer n) s = fire_OptimisticTimer E n s"
| "fire_timer E (RetryTimer r t) s = fire_RetryTimer E r s"

fun handle :: "env \<Rightarrow> event \<Rightarrow> srv \<Rightarrow> fault + srv" where
  "handle E (Rpc p) s = handle_payload E p s"
| "handle E (Fire t) s = fire_timer E t s"
| "handle E Query_DB s = Ok (snd (GetDB s))"

text \<open>Between two events only the clock, and what unset memory holds, differ.\<close>

definition at_time :: "env \<Rightarrow> int \<Rightarrow> bool \<Rightarrow> env" where
  "at_time E t j = E\<lparr>env_now := t, env_junk := j\<rparr>"

inductive server_step :: "env \<Rightarrow> srv \<Rightarrow> event \<Rightarrow> srv \<Rightarrow> bool" for E where
  receive: "handle (at_time E t j) (Rpc p) s = Inr s' \<Longrightarrow> server_step E s (Rpc p) s'"
| timeout: "handle (at_time E t j) (Fire x) s = Inr s' \<Longrightarrow> x \<in> set (futures s) \<Longrightarrow>
     server_step E s (Fire x) s'"
| query: "handle (at_time E t j) Query_DB s = Inr s' \<Longrightarrow> server_step E s Query_DB s'"

inductive_cases server_step_RpcE: "server_step E s (Rpc p) s'"

lemma server_step_handle: "server_step E s ev s' \<Longrightarrow> \<exists>t j. handle (at_time E t j) ev s = Inr s'"
  by (induction rule: server_step.induct) blast+

inductive server_reach :: "env \<Rightarrow> int \<Rightarrow> srv \<Rightarrow> bool" for E i where
  start: "server_reach E i (PbftServerImpl i name byz lc lcp)"
| step: "server_reach E i s \<Longrightarrow> server_step E s ev s' \<Longrightarrow> server_reach E i s'"

section \<open>The invariant\<close>

text \<open>Votes are filed under their senders.\<close>

definition votes_wf :: "(int, Request) smap \<Rightarrow> bool" where
  "votes_wf m \<longleftrightarrow> sm_wf m \<and> (\<forall>x \<in> set m. sv_server_id (rq_sig_vec (snd x)) = fst x)"

lemma votes_wf_simps [simp]:
  "votes_wf []" "votes_wf [(k, r)] \<longleftrightarrow> sv_server_id (rq_sig_vec r) = k" "votes_wf m \<Longrightarrow> sv_server_id (rq_sig_vec r) = k \<Longrightarrow> votes_wf (sm_put k r m)"
  by (auto simp: votes_wf_def dest!: sm_put_mem)

lemma votes_wfD: "votes_wf m \<Longrightarrow> sm_wf m"
  by (simp add: votes_wf_def)

lemma own_votes:
  "sv_server_id (rq_sig_vec (own_commit_proof E e s)) = serverId s"
  "sv_server_id (rq_sig_vec (own_prePrepareOk E r s)) = serverId s"
  by (simp_all add: own_commit_proof_def own_prePrepareOk_def addMACSignature_def Let_def)

text \<open>An entry's maps are well formed, the agreed digest is that of its message, and the message
  carries its client's signature.\<close>

definition entry_ok :: "env \<Rightarrow> MessageInfo \<Rightarrow> bool" where
  "entry_ok E e \<longleftrightarrow> votes_wf (mi_prepareProofs e) \<and> votes_wf (mi_commitProofs e) \<and>
     cx_digest (rq_data (mi_prePrepare e)) = message_digest E (mi_m e) \<and>
     verifySignature_Message E (mi_m e)"

definition entry_seq :: "MessageInfo \<Rightarrow> int" where
  "entry_seq e = cx_sequence_num (rq_data (mi_prePrepare e))"

definition entry_view :: "MessageInfo \<Rightarrow> int" where
  "entry_view e = cx_view_num (rq_data (mi_prePrepare e))"

definition entry_digest :: "MessageInfo \<Rightarrow> string" where
  "entry_digest e = cx_digest (rq_data (mi_prePrepare e))"

text \<open>No entry was proposed in a view the server has not reached.\<close>

definition heap_ok :: "env \<Rightarrow> srv \<Rightarrow> bool" where
  "heap_ok E s \<longleftrightarrow> (\<forall>e \<in> set (heap s). entry_ok E e \<and> entry_view e \<le> currentView s)"

definition window_ok :: "srv \<Rightarrow> bool" where
  "window_ok s \<longleftrightarrow>
     0 \<le> lowWatermark s \<and> lowWatermark s = lastStableCheckpointSeqNum s + 1 \<and>
     highWatermark s = lowWatermark s + 19 \<and> highWatermark s \<le> int32_max \<and> length (log s) = 20 \<and>
     lastStableCheckpointSeqNum s \<le> lastExecuted s \<and> lastExecuted s \<le> currentSequence s \<and>
     currentSequence s \<le> highWatermark s \<and> 1 \<le> currentView s"

text \<open>Slot \<open>i\<close> holds the entry of sequence number \<open>lowWatermark + i\<close>, not beyond
  \<open>currentSequence\<close>, and what is executed is not beyond \<open>lastExecuted\<close>.\<close>

definition slots_ok :: "srv \<Rightarrow> bool" where
  "slots_ok s \<longleftrightarrow>
     (\<forall>i p. i < length (log s) \<longrightarrow> log s ! i = Some p \<longrightarrow>
        p < length (heap s) \<and> entry_seq (heap s ! p) = lowWatermark s + int i \<and>
        lowWatermark s + int i \<le> currentSequence s \<and>
        (mi_mstatus (heap s ! p) = EXECUTED \<longrightarrow> lowWatermark s + int i \<le> lastExecuted s))"

definition digests_ok :: "srv \<Rightarrow> bool" where
  "digests_ok s \<longleftrightarrow> sm_wf (digestToEntry s) \<and> (\<forall>(d, p) \<in> set (digestToEntry s). p < length (heap s))"

definition maps_ok :: "srv \<Rightarrow> bool" where
  "maps_ok s \<longleftrightarrow> sm_wf (checkpoints s) \<and>
     (\<forall>(c, ci) \<in> set (checkpoints s). sm_wf (ci_checkpointProofs ci)) \<and>
     sm_wf (lastStableCheckpointProofs s) \<and> sm_wf (balances s) \<and>
     sm_wf2 (viewChangeMessages s)"

definition srv_inv :: "env \<Rightarrow> srv \<Rightarrow> bool" where
  "srv_inv E s \<longleftrightarrow> config_ok s \<and> window_ok s \<and> slots_ok s \<and> heap_ok E s \<and> digests_ok s \<and> maps_ok s"

lemma message_digest_at [simp]: "message_digest (at_time E t j) m = message_digest E m"
  by (simp add: message_digest_def at_time_def sha256Digest_def)

lemma verifySignature_Message_at [simp]:
  "verifySignature_Message (at_time E t j) m = verifySignature_Message E m"
  by (simp add: verifySignature_Message_def at_time_def verifyECDSA_def split: option.split)

lemma entry_ok_at [simp]: "entry_ok (at_time E t j) e = entry_ok E e"
  by (simp add: entry_ok_def)

lemma srv_inv_at [simp]: "srv_inv (at_time E t j) s = srv_inv E s"
  by (simp add: srv_inv_def heap_ok_def)

lemma srv_inv_init: "0 \<le> i \<Longrightarrow> i < 7 \<Longrightarrow> srv_inv E (PbftServerImpl i name byz lc lcp)"
  by (simp add: srv_inv_def config_ok_def window_ok_def slots_ok_def heap_ok_def digests_ok_def
      maps_ok_def sm_wf2_def PbftServerImpl_def int32_max_def initial_balances_eq less_char_def)

lemmas inv_parts = config_ok_def window_ok_def slots_ok_def heap_ok_def digests_ok_def maps_ok_def

text \<open>Changes that the invariant does not see.\<close>

lemma srv_inv_sent [simp]: "srv_inv E (sent xs s) = srv_inv E s"
  by (simp add: srv_inv_def inv_parts)

lemma srv_inv_timer [simp]: "srv_inv E (start_timer t s) = srv_inv E s"
  by (simp add: srv_inv_def inv_parts start_timer_def)

lemma srv_inv_lastCommitted [simp]: "srv_inv E (s\<lparr>lastCommitted := n\<rparr>) = srv_inv E s"
  by (simp add: srv_inv_def inv_parts)

lemma srv_inv_lastProposedView [simp]: "srv_inv E (s\<lparr>lastProposedView := n\<rparr>) = srv_inv E s"
  by (simp add: srv_inv_def inv_parts)

lemma srv_inv_awaited [simp]: "srv_inv E (s\<lparr>awaitedDigests := n\<rparr>) = srv_inv E s"
  by (simp add: srv_inv_def inv_parts)

lemma srv_inv_srvState [simp]: "srv_inv E (s\<lparr>srvState := n\<rparr>) = srv_inv E s"
  by (simp add: srv_inv_def inv_parts)

lemma srv_inv_self [simp]: "srv_inv E (s\<lparr>selfTriggeredViewChangeMessages := n\<rparr>) = srv_inv E s"
  by (simp add: srv_inv_def inv_parts)

lemma srv_inv_lastCheckpoint [simp]: "srv_inv E (s\<lparr>lastCheckpoint := n\<rparr>) = srv_inv E s"
  by (simp add: srv_inv_def inv_parts)

lemma srv_inv_send:
  assumes "\<exists>xs. t = sent xs s"
  shows "srv_inv E t = srv_inv E s"
  using assms by auto

section \<open>Changes of an entry\<close>

lemma srv_inv_entryD:
  "srv_inv E s \<Longrightarrow> p < length (heap s) \<Longrightarrow>
     entry_ok E (heap s ! p) \<and> entry_view (heap s ! p) \<le> currentView s"
  by (simp add: srv_inv_def heap_ok_def)

lemma srv_inv_slotD:
  assumes "srv_inv E s" and "i < 20" and "log s ! i = Some p"
  shows "p < length (heap s)" and "entry_seq (heap s ! p) = lowWatermark s + int i"
    and "lowWatermark s + int i \<le> currentSequence s"
    and "mi_mstatus (heap s ! p) = EXECUTED \<Longrightarrow> lowWatermark s + int i \<le> lastExecuted s"
    and "entry_ok E (heap s ! p)"
  using assms by (auto simp: srv_inv_def slots_ok_def window_ok_def heap_ok_def)

text \<open>Two slots never hold the same pointer.\<close>

lemma srv_inv_slots_distinct:
  assumes "srv_inv E s" and "i < 20" "log s ! i = Some p" and "j < 20" "log s ! j = Some p"
  shows "i = j"
  using srv_inv_slotD(2) [OF assms(1,2,3)] srv_inv_slotD(2) [OF assms(1,4,5)] by simp

lemma srv_inv_put_entry:
  assumes "srv_inv E s" and "p < length (heap s)" and "entry_ok E e"
    and "entry_view e \<le> currentView s" and "entry_seq e = entry_seq (heap s ! p)"
    and "mi_mstatus e = EXECUTED \<Longrightarrow> mi_mstatus (heap s ! p) = EXECUTED"
  shows "srv_inv E (put_entry p e s)"
proof -
  have "slots_ok (put_entry p e s)"
    using assms by (auto simp: srv_inv_def slots_ok_def nth_list_update)
  moreover have "heap_ok E (put_entry p e s)"
    using assms by (auto simp: srv_inv_def heap_ok_def dest: set_update_subset_insert [THEN subsetD])
  ultimately show ?thesis
    using assms(1) by (auto simp: srv_inv_def config_ok_def window_ok_def digests_ok_def maps_ok_def)
qed

text \<open>Storing a pointer to a new entry in a slot of the window.\<close>

lemma srv_inv_alloc:
  assumes "srv_inv E s" and "entry_ok E e" and "entry_view e \<le> currentView s" and "i < 20" and "entry_seq e = lowWatermark s + int i"
    and "mi_mstatus e \<noteq> EXECUTED" and "currentSequence s \<le> n" and "lowWatermark s + int i \<le> n"
    and "n \<le> highWatermark s"
  shows "srv_inv E (s\<lparr>currentSequence := n, heap := heap s @ [e], log := (log s)[i := Some (length (heap s))]\<rparr>)"
    (is "srv_inv E ?t")
proof -
  have "slots_ok ?t"
    unfolding slots_ok_def
  proof (intro allI impI)
    fix j p
    assume j: "j < length (log ?t)" and p: "log ?t ! j = Some p"
    have len: "length (log s) = 20" using assms(1) by (simp add: srv_inv_def window_ok_def)
    show "p < length (heap ?t) \<and> entry_seq (heap ?t ! p) = lowWatermark ?t + int j \<and>
        lowWatermark ?t + int j \<le> currentSequence ?t \<and>
        (mi_mstatus (heap ?t ! p) = EXECUTED \<longrightarrow> lowWatermark ?t + int j \<le> lastExecuted ?t)"
    proof (cases "j = i")
      case True
      with p j assms show ?thesis by auto
    next
      case False
      with p j len have "log s ! j = Some p" "j < 20" by auto
      from srv_inv_slotD [OF assms(1) this(2) this(1)] assms(7) show ?thesis
        by (auto simp: nth_append)
    qed
  qed
  moreover have "heap_ok E ?t" "window_ok ?t" "config_ok ?t" "maps_ok ?t"
    using assms by (auto simp: srv_inv_def inv_parts entry_view_def)
  moreover have "digests_ok ?t"
    using assms(1) by (fastforce simp: srv_inv_def digests_ok_def)
  ultimately show ?thesis by (simp add: srv_inv_def)
qed

lemma srv_inv_digest:
  assumes "srv_inv E s" and "p < length (heap s)"
  shows "srv_inv E (s\<lparr>digestToEntry := sm_put d p (digestToEntry s)\<rparr>)"
  using assms by (auto simp: srv_inv_def inv_parts dest!: sm_put_mem)

lemma srv_inv_currentSequence:
  assumes "srv_inv E s" and "n \<le> highWatermark s" and "currentSequence s \<le> n"
  shows "srv_inv E (s\<lparr>currentSequence := n\<rparr>)"
  using assms by (fastforce simp: srv_inv_def inv_parts)

section \<open>Execution keeps the invariant\<close>

lemma transfer_wf: "transfer td b = Inr (b', res) \<Longrightarrow> sm_wf b \<Longrightarrow> sm_wf b'"
  by (auto simp: transfer_def Let_def sm_index_def split: prod.splits if_splits option.splits)

lemma checkpoint_inv:
  assumes "checkpoint E s = Inr t" and "srv_inv E' s"
  shows "srv_inv E' t \<and> lastExecuted t = lastExecuted s"
proof -
  define ci where "ci = (case sm_find (checkpoints s) (lastExecuted s) of
      None \<Rightarrow> new_CheckpointInfo | Some c \<Rightarrow> c)"
  have ci: "sm_wf (ci_checkpointProofs ci)"
    using assms(2) by (auto simp: ci_def new_CheckpointInfo_def srv_inv_def maps_ok_def
        dest: map_of_SomeD split: option.split)
  obtain ci' req s2 where
    send: "sendCheckpointToAll E req (s\<lparr>checkpoints := sm_put (lastExecuted s) ci' (checkpoints s)\<rparr>) = Inr s2"
      (is "sendCheckpointToAll E req ?s1 = _")
    and ci': "ci_checkpointProofs ci' = ci_checkpointProofs ci"
    and t: "t = s2\<lparr>lastCheckpoint := lastExecuted s2\<rparr>"
    using assms(1) unfolding checkpoint_def Let_def ci_def [symmetric]
    by (elim ebind_OkE) (erule that, simp_all)
  have "srv_inv E' ?s1"
    using assms(2) ci ci' by (auto simp: srv_inv_def inv_parts dest!: sm_put_mem)
  with send_only(7) [OF send] show ?thesis by (auto simp: t)
qed

lemma execute_entry_inv:
  assumes "execute_entry E seq p e s = Inr t" and "srv_inv E' s" and "i < 20" and "log s ! i = Some p"
    and "e = heap s ! p" and "seq = lowWatermark s + int i" and "lastExecuted s \<le> seq"
  shows "srv_inv E' t \<and> lastExecuted t = seq"
proof -
  obtain b res s2 s3 tt where tr: "transfer (ms_data (mi_m e)) (balances s) = Inr (b, res)"
    and n: "notifyClient E (sg_server_id (ms_signature (mi_m e))) (mi_m e) res
        (put_entry p (e\<lparr>mi_mstatus := EXECUTED, mi_result := res\<rparr>)
           (s\<lparr>balances := b, lastExecuted := seq, totalTimeTaken := tt\<rparr>)) = Inr s2"
      (is "notifyClient E _ _ _ ?s1 = _")
    and c: "s3 = s2 \<or> checkpoint E s2 = Inr s3" and t: "t = s3\<lparr>lastExecuted := seq\<rparr>"
    using assms(1) by (fastforce simp: execute_entry_def Let_def split: if_splits)
  note slot = srv_inv_slotD [OF assms(2-4)]
  have s1: "srv_inv E' ?s1"
  proof -
    have "slots_ok ?s1"
      unfolding slots_ok_def
    proof (intro allI impI)
      fix j q assume j: "j < length (log ?s1)" "log ?s1 ! j = Some q"
      then have j20: "j < 20" "log s ! j = Some q"
        using assms(2) by (auto simp: srv_inv_def window_ok_def)
      note jslot = srv_inv_slotD [OF assms(2) j20]
      show "q < length (heap ?s1) \<and> entry_seq (heap ?s1 ! q) = lowWatermark ?s1 + int j \<and>
          lowWatermark ?s1 + int j \<le> currentSequence ?s1 \<and>
          (mi_mstatus (heap ?s1 ! q) = EXECUTED \<longrightarrow> lowWatermark ?s1 + int j \<le> lastExecuted ?s1)"
      proof (cases "q = p")
        case True
        then have "j = i" using srv_inv_slots_distinct [OF assms(2)] j20 assms(3,4) by blast
        with True slot assms(5,6) show ?thesis by (simp add: entry_seq_def)
      next
        case False
        with jslot assms(7) show ?thesis by auto
      qed
    qed
    moreover have "entry_ok E' (e\<lparr>mi_mstatus := EXECUTED, mi_result := res\<rparr>)"
      and "entry_view (e\<lparr>mi_mstatus := EXECUTED, mi_result := res\<rparr>) \<le> currentView s"
      using slot(5) srv_inv_entryD [OF assms(2) slot(1)] assms(5)
      by (simp_all add: entry_ok_def entry_view_def)
    then have "heap_ok E' ?s1"
      using assms(2) by (auto simp: srv_inv_def heap_ok_def dest: set_update_subset_insert [THEN subsetD])
    moreover have "window_ok ?s1"
      using assms(2,6,7) slot(3) by (simp add: srv_inv_def window_ok_def)
    moreover have "sm_wf b"
      using transfer_wf [OF tr] assms(2) by (simp add: srv_inv_def maps_ok_def)
    ultimately show ?thesis
      using assms(2) by (simp add: srv_inv_def config_ok_def digests_ok_def maps_ok_def)
  qed
  have s2: "srv_inv E' s2 \<and> lastExecuted s2 = seq"
    using send_only(2) [OF n] s1 by auto
  then have s3: "srv_inv E' s3 \<and> lastExecuted s3 = seq"
    using c checkpoint_inv by auto
  then have "t = s3" by (simp add: t)
  with s3 show ?thesis by simp
qed

text \<open>One iteration at a sequence number beyond \<open>lastExecuted\<close>.\<close>

lemma execute_slot_inv:
  assumes "execute_slot E seq s = Inr (t, go)" and "srv_inv E' s" and "lastExecuted s < seq"
  shows "srv_inv E' t \<and> lastExecuted s \<le> lastExecuted t \<and> lastExecuted t \<le> seq"
proof -
  obtain q where i: "0 \<le> seq - lowWatermark s" "seq - lowWatermark s < int (length (log s))"
    and q: "q = log s ! nat (seq - lowWatermark s)"
    and body: "(case q of None \<Rightarrow> Ok (s, True)
       | Some p \<Rightarrow> ebind (deref s p) (\<lambda>e.
           if mi_mstatus e = COMMITTED then ebind (execute_entry E seq p e s) (\<lambda>t. Ok (t, True))
           else if mi_mstatus e \<noteq> EXECUTED then Ok (s, False) else Ok (s, True))) = Inr (t, go)"
    using assms(1) by (auto simp: execute_slot_def)
  show ?thesis
  proof (cases "\<exists>p. q = Some p \<and> mi_mstatus (heap s ! p) = COMMITTED")
    case False
    with body assms show ?thesis by (auto split: option.splits if_splits)
  next
    case True
    then obtain p where p: "q = Some p" "mi_mstatus (heap s ! p) = COMMITTED" by blast
    with body have ex: "execute_entry E seq p (heap s ! p) s = Inr t" by auto
    have "nat (seq - lowWatermark s) < 20"
      using i(2) assms(2) by (simp add: srv_inv_def window_ok_def)
    from execute_entry_inv [OF ex assms(2) this] p q i assms(3) show ?thesis by simp
  qed
qed

lemma execute_from_inv:
  assumes "execute_from E seq s = Inr t" and "srv_inv E' s" and "lastExecuted s < seq"
  shows "srv_inv E' t \<and> lastExecuted s \<le> lastExecuted t"
  by (rule execute_from_rule [OF assms(1), where I = "\<lambda>n u. srv_inv E' u \<and> lastExecuted s \<le> lastExecuted u \<and> lastExecuted u < n"])
    (use assms(2,3) in \<open>auto dest: execute_slot_inv\<close>)

lemma executePending_inv:
  "executePending E s = Inr t \<Longrightarrow> srv_inv E' s \<Longrightarrow> srv_inv E' t \<and> lastExecuted s \<le> lastExecuted t"
  by (auto simp: executePending_def dest: execute_from_inv)

section \<open>Evolution\<close>

text \<open>
  What an entry may become: its view never decreases, and within a view its digest stays. A server
  evolves when its view, its window and what it has executed only advance and the entry of every
  sequence number still in the window evolves.
\<close>

definition entry_le :: "MessageInfo \<Rightarrow> MessageInfo \<Rightarrow> bool" where
  "entry_le e e' \<longleftrightarrow> entry_view e \<le> entry_view e' \<and>
     (entry_digest e' = entry_digest e \<or> entry_view e < entry_view e')"

definition entry_at :: "srv \<Rightarrow> int \<Rightarrow> MessageInfo option" where
  "entry_at s seq =
     (if lowWatermark s \<le> seq \<and> seq - lowWatermark s < int (length (log s)) then
        (case log s ! nat (seq - lowWatermark s) of None \<Rightarrow> None | Some p \<Rightarrow> Some (heap s ! p))
      else None)"

definition evolves :: "srv \<Rightarrow> srv \<Rightarrow> bool" where
  "evolves s t \<longleftrightarrow> currentView s \<le> currentView t \<and> currentSequence s \<le> currentSequence t \<and>
     lowWatermark s \<le> lowWatermark t \<and> lastExecuted s \<le> lastExecuted t \<and> serverId t = serverId s \<and>
     (\<forall>seq e. entry_at s seq = Some e \<longrightarrow> lowWatermark t \<le> seq \<longrightarrow>
        (\<exists>e'. entry_at t seq = Some e' \<and> entry_le e e'))"

lemma entry_le_refl [simp]: "entry_le e e"
  by (simp add: entry_le_def)

lemma entry_le_trans: "entry_le d e \<Longrightarrow> entry_le e e' \<Longrightarrow> entry_le d e'"
  by (auto simp: entry_le_def)

lemma entry_le_same: "mi_prePrepare e' = mi_prePrepare e \<Longrightarrow> entry_le e e'"
  by (simp add: entry_le_def entry_view_def entry_digest_def)

lemma evolves_refl [simp]: "evolves s s"
  by (auto simp: evolves_def)

lemma evolves_trans:
  assumes "evolves s t" and "evolves t u"
  shows "evolves s u"
  unfolding evolves_def
proof (intro conjI allI impI)
  fix seq e assume e: "entry_at s seq = Some e" and low: "lowWatermark u \<le> seq"
  from low assms(2) have "lowWatermark t \<le> seq" by (simp add: evolves_def)
  with e assms(1) obtain e1 where e1: "entry_at t seq = Some e1" "entry_le e e1"
    by (auto simp: evolves_def)
  with low assms(2) obtain e2 where "entry_at u seq = Some e2" "entry_le e1 e2"
    by (auto simp: evolves_def)
  with e1 show "\<exists>e'. entry_at u seq = Some e' \<and> entry_le e e'"
    using entry_le_trans by blast
qed (use assms in \<open>auto simp: evolves_def\<close>)

text \<open>A state that keeps its window evolves when its slots do.\<close>

lemma evolvesI:
  assumes "lowWatermark t = lowWatermark s" and "length (log t) = length (log s)"
    and "currentView s \<le> currentView t" and "currentSequence s \<le> currentSequence t"
    and "lastExecuted s \<le> lastExecuted t" and "serverId t = serverId s"
    and "\<And>i p. i < length (log s) \<Longrightarrow> log s ! i = Some p \<Longrightarrow>
           \<exists>p'. log t ! i = Some p' \<and> entry_le (heap s ! p) (heap t ! p')"
  shows "evolves s t"
  unfolding evolves_def
proof (intro conjI allI impI)
  fix seq e assume "entry_at s seq = Some e"
  then obtain p where i: "lowWatermark s \<le> seq" "seq - lowWatermark s < int (length (log s))"
      "log s ! nat (seq - lowWatermark s) = Some p" and e: "e = heap s ! p"
    by (auto simp: entry_at_def split: if_splits option.splits)
  have "nat (seq - lowWatermark s) < length (log s)" using i by auto
  from assms(7) [OF this i(3)] i e assms(1,2)
  show "\<exists>e'. entry_at t seq = Some e' \<and> entry_le e e'"
    by (auto simp: entry_at_def)
qed (use assms in auto)

lemma evolves_same_entries:
  assumes "lowWatermark t = lowWatermark s" and "log t = log s" and "currentView s \<le> currentView t"
    and "currentSequence s \<le> currentSequence t" and "lastExecuted s \<le> lastExecuted t"
    and "serverId t = serverId s" and "\<And>p. entry_le (heap s ! p) (heap t ! p)"
  shows "evolves s t"
  by (rule evolvesI) (use assms in auto)

text \<open>Steps that only touch what evolution does not look at.\<close>

lemma evolves_sent [simp]: "evolves s (sent xs t) = evolves s t" "evolves (sent xs t) u = evolves t u"
  by (simp_all add: evolves_def entry_at_def cong: option.case_cong)

lemma evolves_timer [simp]: "evolves s (start_timer x t) = evolves s t"
  by (simp add: evolves_def entry_at_def start_timer_def cong: option.case_cong)

lemma evolves_put_entry:
  assumes "entry_le (heap s ! p) e"
  shows "evolves s (put_entry p e s)"
proof (rule evolves_same_entries)
  fix q show "entry_le (heap s ! q) (heap (put_entry p e s) ! q)"
    using assms by (cases "p < length (heap s)") (auto simp: nth_list_update list_update_beyond)
qed simp_all

text \<open>Execution leaves every proposal and every message alone.\<close>

definition same_proposals :: "srv \<Rightarrow> srv \<Rightarrow> bool" where
  "same_proposals s t \<longleftrightarrow> length (heap t) = length (heap s) \<and>
     (\<forall>p. mi_prePrepare (heap t ! p) = mi_prePrepare (heap s ! p) \<and> mi_m (heap t ! p) = mi_m (heap s ! p))"

lemma same_proposals_trans: "same_proposals s t \<Longrightarrow> same_proposals t u \<Longrightarrow> same_proposals s u"
  by (simp add: same_proposals_def)

lemma checkpoint_heap: "checkpoint E s = Inr t \<Longrightarrow> heap t = heap s"
  using checkpoint_frame by fastforce

lemma execute_entry_heap:
  assumes "execute_entry E seq p e s = Inr t"
  shows "\<exists>res. heap t = (heap s)[p := e\<lparr>mi_mstatus := EXECUTED, mi_result := res\<rparr>]"
proof -
  obtain b res s2 s3 tt where n: "notifyClient E (sg_server_id (ms_signature (mi_m e))) (mi_m e) res
        (put_entry p (e\<lparr>mi_mstatus := EXECUTED, mi_result := res\<rparr>)
           (s\<lparr>balances := b, lastExecuted := seq, totalTimeTaken := tt\<rparr>)) = Inr s2"
    and c: "s3 = s2 \<or> checkpoint E s2 = Inr s3" and t: "t = s3\<lparr>lastExecuted := seq\<rparr>"
    using assms by (fastforce simp: execute_entry_def Let_def split: if_splits)
  from send_only(2) [OF n] have "heap s2 = (heap s)[p := e\<lparr>mi_mstatus := EXECUTED, mi_result := res\<rparr>]"
    by auto
  then show ?thesis using c checkpoint_heap by (auto simp: t)
qed

lemma execute_slot_proposals:
  assumes "execute_slot E seq s = Inr (t, go)"
  shows "same_proposals s t"
proof -
  have "t = s \<or> (\<exists>p res. p < length (heap s) \<and>
      heap t = (heap s)[p := (heap s ! p)\<lparr>mi_mstatus := EXECUTED, mi_result := res\<rparr>])"
    using assms by (fastforce simp: execute_slot_def dest: execute_entry_heap split: option.splits if_splits)
  then show ?thesis
    by (auto simp: same_proposals_def nth_list_update)
qed

lemma execute_from_proposals: "execute_from E seq s = Inr t \<Longrightarrow> same_proposals s t"
  by (erule execute_from_keeps) (simp add: same_proposals_def, blast intro: same_proposals_trans execute_slot_proposals)

lemma executePending_evolves:
  assumes "executePending E s = Inr t" and "srv_inv E' s"
  shows "srv_inv E' t \<and> evolves s t"
proof -
  have "same_proposals s t"
    using assms(1) by (auto simp: executePending_def dest: execute_from_proposals)
  moreover note executePending_inv [OF assms] exec_frameD [OF executePending_frame [OF assms(1)]]
  ultimately show ?thesis
    by (auto simp: same_proposals_def intro!: evolves_same_entries entry_le_same)
qed

end
