(* ===== verification/Server_Steps.thy ===== *)
theory Server_Steps
  imports Server_Inv
begin

text \<open>
  Every handler and every timer keeps the invariant and lets the server evolve; by induction so does
  every run.
\<close>

definition keeps :: "env \<Rightarrow> srv \<Rightarrow> srv \<Rightarrow> bool" where
  "keeps E s t \<longleftrightarrow> (srv_inv E s \<longrightarrow> srv_inv E t \<and> evolves s t)"

lemma keeps_refl [simp]: "keeps E s s"
  by (simp add: keeps_def)

lemma keeps_trans: "keeps E s t \<Longrightarrow> keeps E t u \<Longrightarrow> keeps E s u"
  unfolding keeps_def using evolves_trans by blast

lemma keeps_sent [simp]: "keeps E s (sent xs t) = keeps E s t"
  by (simp add: keeps_def)

lemma keeps_timer [simp]: "keeps E s (start_timer x t) = keeps E s t"
  by (simp add: keeps_def)

lemma keeps_send: "\<exists>xs. t = sent xs s \<Longrightarrow> keeps E u s \<Longrightarrow> keeps E u t"
  by auto

lemma keeps_executePending: "executePending E s = Inr t \<Longrightarrow> keeps E' s t"
  by (simp add: keeps_def executePending_evolves)

text \<open>Fields that neither the invariant nor evolution looks at.\<close>

lemma keeps_fields [simp]:
  "keeps E s (t\<lparr>lastCommitted := n\<rparr>) = keeps E s t"
  "keeps E s (t\<lparr>lastProposedView := n\<rparr>) = keeps E s t"
  "keeps E s (t\<lparr>awaitedDigests := w\<rparr>) = keeps E s t"
  "keeps E s (t\<lparr>srvState := st\<rparr>) = keeps E s t"
  "keeps E s (t\<lparr>selfTriggeredViewChangeMessages := m\<rparr>) = keeps E s t"
  by (simp_all add: keeps_def evolves_def entry_at_def cong: option.case_cong)

lemma keeps_fields_left [simp]:
  "keeps E (s\<lparr>lastCommitted := n\<rparr>) t = keeps E s t"
  "keeps E (s\<lparr>lastProposedView := n\<rparr>) t = keeps E s t"
  "keeps E (s\<lparr>awaitedDigests := w\<rparr>) t = keeps E s t"
  "keeps E (s\<lparr>srvState := st\<rparr>) t = keeps E s t"
  by (simp_all add: keeps_def evolves_def entry_at_def cong: option.case_cong)

text \<open>Changing an entry in place without touching its proposal.\<close>

lemma keeps_put_entry:
  assumes "p < length (heap s)" and "mi_prePrepare e = mi_prePrepare (heap s ! p)"
    and "mi_m e = mi_m (heap s ! p)"
    and "votes_wf (mi_prepareProofs (heap s ! p)) \<Longrightarrow> votes_wf (mi_prepareProofs e)"
    and "votes_wf (mi_prepareProofs (heap s ! p)) \<Longrightarrow> votes_wf (mi_commitProofs (heap s ! p)) \<Longrightarrow>
           votes_wf (mi_commitProofs e)"
    and "mi_mstatus e = EXECUTED \<Longrightarrow> mi_mstatus (heap s ! p) = EXECUTED"
  shows "keeps E s (put_entry p e s)"
  unfolding keeps_def
proof (intro impI conjI)
  assume inv: "srv_inv E s"
  note p = srv_inv_entryD [OF inv assms(1)]
  show "srv_inv E (put_entry p e s)"
    by (rule srv_inv_put_entry [OF inv assms(1)])
      (use p assms in \<open>auto simp: entry_ok_def entry_view_def entry_seq_def\<close>)
  show "evolves s (put_entry p e s)"
    by (rule evolves_put_entry) (simp add: entry_le_same assms(2))
qed

lemma keeps_digest:
  "p < length (heap s) \<Longrightarrow> keeps E s (s\<lparr>digestToEntry := sm_put d p (digestToEntry s)\<rparr>)"
  by (simp add: keeps_def srv_inv_digest evolves_def entry_at_def cong: option.case_cong)

section \<open>The normal case\<close>

lemma add_proofs_wf: "add_proofs E s d pp svs m = Inr m' \<Longrightarrow> votes_wf m \<Longrightarrow> votes_wf m'"
  by (induction svs arbitrary: m) (auto simp: Let_def)

text \<open>An entry whose proofs grow, with or without a change of its status.\<close>

lemma keeps_put_proofs:
  assumes "p < length (heap s)"
  shows "(votes_wf (mi_prepareProofs (heap s ! p)) \<Longrightarrow> votes_wf m) \<Longrightarrow>
      keeps E s (put_entry p ((heap s ! p)\<lparr>mi_prepareProofs := m\<rparr>) s)"
    and "(votes_wf (mi_commitProofs (heap s ! p)) \<Longrightarrow> votes_wf m) \<Longrightarrow>
      keeps E s (put_entry p ((heap s ! p)\<lparr>mi_commitProofs := m\<rparr>) s)"
    and "(votes_wf (mi_prepareProofs (heap s ! p)) \<Longrightarrow> votes_wf m) \<Longrightarrow> st \<noteq> EXECUTED \<Longrightarrow>
      keeps E s (put_entry p ((heap s ! p)\<lparr>mi_prepareProofs := m, mi_mstatus := st\<rparr>) s)"
    and "(votes_wf (mi_commitProofs (heap s ! p)) \<Longrightarrow> votes_wf m) \<Longrightarrow> st \<noteq> EXECUTED \<Longrightarrow>
      keeps E s (put_entry p ((heap s ! p)\<lparr>mi_commitProofs := m, mi_mstatus := st\<rparr>) s)"
    and "(votes_wf (mi_prepareProofs (heap s ! p)) \<Longrightarrow> votes_wf m) \<Longrightarrow> st \<noteq> EXECUTED \<Longrightarrow>
      keeps E s (put_entry p ((heap s ! p)\<lparr>mi_mstatus := st, mi_commitProofs := m\<rparr>) s)"
  using assms by (auto intro!: keeps_put_entry)

lemma processPrePrepareOk_keeps: "processPrePrepareOk E r s = Inr t \<Longrightarrow> keeps E' s t"
  unfolding processPrePrepareOk_def Let_def
  by (auto simp: log_entry_Ok_iff intro!: keeps_put_proofs split: if_splits)

lemma processPrepare_keeps: "processPrepare E r s = Inr t \<Longrightarrow> keeps E' s t"
  unfolding processPrepare_def Let_def
  by (auto split: if_splits option.splits dest!: sendRequest_only
      intro!: keeps_put_proofs elim: add_proofs_wf)

lemma keeps_executePending_after:
  "executePending E s = Inr t \<Longrightarrow> keeps E' u s \<Longrightarrow> keeps E' u t"
  by (rule keeps_trans [OF _ keeps_executePending])

lemma processPrepareOk_keeps: "processPrepareOk E r s = Inr t \<Longrightarrow> keeps E' s t"
  unfolding processPrepareOk_def Let_def
  by (auto simp: log_entry_Ok_iff split: if_splits dest!: send_only(3)
      intro!: keeps_put_proofs elim!: keeps_executePending_after)

lemma processCommit_keeps: "processCommit E r s = Inr t \<Longrightarrow> keeps E' s t"
  unfolding processCommit_def Let_def
  by (auto split: if_splits option.splits intro!: keeps_put_proofs
      elim: add_proofs_wf elim!: keeps_executePending_after)

lemma fire_OptimisticTimer_keeps: "fire_OptimisticTimer E n s = Inr t \<Longrightarrow> keeps E' s t"
  unfolding fire_OptimisticTimer_def Let_def
  by (auto simp: log_entry_Ok_iff own_votes split: if_splits dest!: send_only(3)
      intro!: keeps_put_proofs elim!: keeps_executePending_after)

section \<open>Proposals\<close>

text \<open>A new entry in a free slot, or in place of an entry that may evolve into it.\<close>

lemma keeps_alloc:
  assumes "srv_inv E s" and "entry_ok E e" and "entry_view e \<le> currentView s" and "i < 20"
    and "entry_seq e = lowWatermark s + int i" and "mi_mstatus e \<noteq> EXECUTED"
    and "currentSequence s \<le> n" and "lowWatermark s + int i \<le> n" and "n \<le> highWatermark s"
    and "log s ! i = None"
  shows "srv_inv E (s\<lparr>currentSequence := n, heap := heap s @ [e], log := (log s)[i := Some (length (heap s))]\<rparr>)
     \<and> evolves s (s\<lparr>currentSequence := n, heap := heap s @ [e], log := (log s)[i := Some (length (heap s))]\<rparr>)"
proof (intro conjI srv_inv_alloc assms(1-9))
  show "evolves s (s\<lparr>currentSequence := n, heap := heap s @ [e], log := (log s)[i := Some (length (heap s))]\<rparr>)"
  proof (rule evolvesI)
    fix j p assume j: "j < length (log s)" "log s ! j = Some p"
    then have "j \<noteq> i" using assms(10) by auto
    moreover have "p < length (heap s)"
      using srv_inv_slotD(1) [OF assms(1) _ j(2)] j(1) assms(1) by (simp add: srv_inv_def window_ok_def)
    ultimately show "\<exists>p'. log (s\<lparr>currentSequence := n, heap := heap s @ [e],
          log := (log s)[i := Some (length (heap s))]\<rparr>) ! j = Some p' \<and>
        entry_le (heap s ! p) (heap (s\<lparr>currentSequence := n, heap := heap s @ [e],
          log := (log s)[i := Some (length (heap s))]\<rparr>) ! p')"
      using j by (auto simp: nth_append)
  qed (use assms in auto)
qed

text \<open>Beyond \<open>currentSequence\<close> every slot is free, so a leader never overwrites a proposal.\<close>

lemma slot_beyond_free:
  assumes "srv_inv E s" and "i < 20" and "currentSequence s < lowWatermark s + int i"
  shows "log s ! i = None"
proof (rule ccontr)
  assume "log s ! i \<noteq> None"
  then obtain p where "log s ! i = Some p" by auto
  from srv_inv_slotD(3) [OF assms(1,2) this] assms(3) show False by simp
qed

lemma propose_cases:
  assumes "propose E m d s = Inr t"
  defines "seq \<equiv> currentSequence s + 1"
  defines "r \<equiv> new_proposal E d (s\<lparr>currentSequence := seq\<rparr>)"
  shows "0 \<le> seq - lowWatermark s \<and> seq - lowWatermark s < int (length (log s)) \<and>
     sendPrePrepareToAll \<lparr>pp_r = r, pp_m = m\<rparr>
       (s\<lparr>currentSequence := seq, heap := heap s @ [proposed_entry E m r],
          log := (log s)[nat (seq - lowWatermark s) := Some (length (heap s))],
          digestToEntry := sm_put d (length (heap s)) (digestToEntry s)\<rparr>) = Inr t"
  using assms by (auto simp: propose_def Let_def)

lemma proposed_entry_simps [simp]:
  "mi_m (proposed_entry E m r) = m" "mi_mstatus (proposed_entry E m r) = PRE_PREPARED"
  "mi_prePrepare (proposed_entry E m r) = r" "mi_prepareProofs (proposed_entry E m r) = []"
  "mi_commitProofs (proposed_entry E m r) = []"
  by (simp_all add: proposed_entry_def)

lemma new_proposal_simps [simp]:
  "rq_data (new_proposal E d s) =
     \<lparr>cx_view_num = currentView s, cx_sequence_num = currentSequence s, cx_digest = d\<rparr>"
  by (simp add: new_proposal_def Let_def)

lemma propose_keeps:
  assumes "propose E m (message_digest E m) s = Inr t" and "verifySignature_Message E m"
  shows "keeps E s t"
  unfolding keeps_def
proof (intro impI)
  assume inv: "srv_inv E s"
  define seq where "seq = currentSequence s + 1"
  define r where "r = new_proposal E (message_digest E m) (s\<lparr>currentSequence := seq\<rparr>)"
  let ?i = "nat (seq - lowWatermark s)" and ?e = "proposed_entry E m r"
  let ?v = "s\<lparr>currentSequence := seq, heap := heap s @ [?e], log := (log s)[?i := Some (length (heap s))]\<rparr>"
  let ?u = "?v\<lparr>digestToEntry := sm_put (message_digest E m) (length (heap s)) (digestToEntry s)\<rparr>"
  from propose_cases [OF assms(1)] have idx: "0 \<le> seq - lowWatermark s" "seq - lowWatermark s < int (length (log s))"
    and send: "sendPrePrepareToAll \<lparr>pp_r = r, pp_m = m\<rparr> ?u = Inr t"
    by (simp_all add: seq_def r_def)
  have i: "?i < 20" "lowWatermark s + int ?i = seq" "seq \<le> highWatermark s"
    using idx inv by (auto simp: srv_inv_def window_ok_def)
  have free: "log s ! ?i = None"
    using slot_beyond_free [OF inv i(1)] i(2) by (simp add: seq_def)
  have "entry_ok E ?e" "entry_view ?e = currentView s" "entry_seq ?e = seq"
    by (simp_all add: entry_ok_def entry_view_def entry_seq_def r_def assms(2))
  then have "srv_inv E ?v \<and> evolves s ?v"
    by (intro keeps_alloc [OF inv]) (use i free in \<open>simp_all add: seq_def\<close>)
  moreover have "keeps E ?v ?u"
    using keeps_digest [of "length (heap s)" ?v] by simp
  ultimately have "srv_inv E ?u \<and> evolves s ?u"
    unfolding keeps_def using evolves_trans by blast
  with send_only(4) [OF send] show "srv_inv E t \<and> evolves s t" by auto
qed

text \<open>A leader's own copy of an earlier proposal moves to the current view.\<close>

lemma repropose_keeps:
  assumes "repropose E m p (heap s ! p) s = Inr t" and "p < length (heap s)"
  shows "keeps E' s t"
  unfolding keeps_def
proof (intro impI)
  assume inv: "srv_inv E' s"
  define e where "e = heap s ! p"
  define r where "r = \<lparr>rq_data = (rq_data (mi_prePrepare e))\<lparr>cx_view_num := currentView s\<rparr>,
      rq_sig_vec = addMACSignature E s
        (ser_ctx E ((rq_data (mi_prePrepare e))\<lparr>cx_view_num := currentView s\<rparr>))
        (rq_sig_vec (mi_prePrepare e))\<rparr>"
  let ?e = "e\<lparr>mi_prepareProofs := [], mi_commitProofs := [], mi_prePrepare := r\<rparr>"
  have send: "sendPrePrepareToAll \<lparr>pp_r = r, pp_m = m\<rparr> (put_entry p ?e s) = Inr t"
    using assms(1) by (simp add: repropose_def Let_def r_def e_def)
  note old = srv_inv_entryD [OF inv assms(2)]
  have new: "entry_ok E' ?e" "entry_view ?e = currentView s" "entry_seq ?e = entry_seq (heap s ! p)"
      "entry_digest ?e = entry_digest (heap s ! p)"
    using old by (simp_all add: entry_ok_def entry_view_def entry_seq_def entry_digest_def r_def e_def)
  have "srv_inv E' (put_entry p ?e s)"
    by (rule srv_inv_put_entry [OF inv assms(2) new(1)]) (use new in \<open>simp_all add: e_def\<close>)
  moreover have "evolves s (put_entry p ?e s)"
    by (rule evolves_put_entry) (use new old in \<open>simp add: entry_le_def\<close>)
  ultimately show "srv_inv E' t \<and> evolves s t"
    using send_only(4) [OF send] by auto
qed

lemma forward_keeps: "forward d m s = Inr t \<Longrightarrow> keeps E s t"
  by (auto simp: forward_def emit_eq_sent Let_def)

lemma find_entry_cases:
  "find_entry s d = Inr r \<Longrightarrow> r = None \<or> (\<exists>p. p < length (heap s) \<and> r = Some (p, heap s ! p))"
  by (auto simp: find_entry_def split: option.splits)

lemma processTransfer_keeps: "processTransfer E m s = Inr t \<Longrightarrow> keeps E s t"
  unfolding processTransfer_def Let_def
  by (auto split: if_splits dest!: find_entry_cases send_only(2) intro: forward_keeps propose_keeps repropose_keeps)

lemma accepted_entry_simps [simp]:
  "mi_m (accepted_entry E r ok s e) = pp_m r"
  "mi_mstatus (accepted_entry E r ok s e) = PRE_PREPARED"
  "mi_prePrepare (accepted_entry E r ok s e) = pp_r r"
  "mi_prepareProofs (accepted_entry E r ok s e) = [(serverId s, ok)]"
  "mi_commitProofs (accepted_entry E r ok s e) = []"
  by (simp_all add: accepted_entry_def)

text \<open>What the body of \<open>processPrePrepare\<close> does to the state, sends and timer aside.\<close>

lemma accept_prePrepare_keeps:
  assumes "accept_prePrepare E req n p s = Inr t"
  shows "p < length (heap s) \<and>
     keeps E' (put_entry p (accepted_entry E req (own_prePrepareOk E (pp_r req) s) s (heap s ! p)) s) t"
    (is "_ \<and> keeps E' ?u t")
proof -
  obtain s2 where p: "p < length (heap s)"
    and s2: "s2 = ?u\<lparr>digestToEntry := sm_put (cx_digest (rq_data (pp_r req))) p (digestToEntry s)\<rparr> \<or>
       (\<exists>q i. sendRequest q i PRE_PREPARE_OK
         (?u\<lparr>digestToEntry := sm_put (cx_digest (rq_data (pp_r req))) p (digestToEntry s)\<rparr>) = Inr s2)"
    and t: "\<exists>x. t = start_timer x s2"
    using assms by (auto simp: accept_prePrepare_def Let_def split: if_splits)
  have "keeps E' ?u (?u\<lparr>digestToEntry := sm_put (cx_digest (rq_data (pp_r req))) p (digestToEntry s)\<rparr>)"
    using keeps_digest [of p ?u] p by simp
  with s2 t p show ?thesis by (auto dest: send_only(1))
qed

text \<open>
  The checks of \<open>processPrePrepare\<close>, and its four outcomes: the proposal is dropped; the slot holds another
  request of this or a later view; the slot is free; the slot's entry is replaced.
\<close>

definition valid_proposal :: "env \<Rightarrow> PrePrepareRequest \<Rightarrow> srv \<Rightarrow> bool" where
  "valid_proposal E r s \<longleftrightarrow>
     srvState s = NORMAL_STATE \<and> sv_server_id (rq_sig_vec (pp_r r)) = getLeaderId s \<and>
     verifySignature_Message E (pp_m r) \<and> cx_view_num (rq_data (pp_r r)) = currentView s \<and>
     lowWatermark s \<le> cx_sequence_num (rq_data (pp_r r)) \<and>
     cx_sequence_num (rq_data (pp_r r)) \<le> highWatermark s \<and>
     cx_digest (rq_data (pp_r r)) = message_digest E (pp_m r)"

lemma srvState_cases: "srvState s = VIEW_CHANGE_STATE \<longleftrightarrow> srvState s \<noteq> NORMAL_STATE"
  by (cases "srvState s") auto

definition note_proposal :: "PrePrepareRequest \<Rightarrow> srv \<Rightarrow> srv" where
  "note_proposal req s = s\<lparr>awaitedDigests := awaitedDigests s - {cx_digest (rq_data (pp_r req))},
     currentSequence := max (cx_sequence_num (rq_data (pp_r req))) (currentSequence s)\<rparr>"

definition free_slot :: "env \<Rightarrow> nat \<Rightarrow> srv \<Rightarrow> srv" where
  "free_slot E i s = s\<lparr>heap := heap s @ [new_MessageInfo E], log := (log s)[i := Some (length (heap s))]\<rparr>"

lemma processPrePrepare_dropped:
  "\<not> valid_proposal E req s \<Longrightarrow> processPrePrepare E req s = Inr s"
  by (auto simp: processPrePrepare_def Let_def valid_proposal_def srvState_cases not_le
      cong: if_cong split del: if_split ebind_split)

lemma processPrePrepare_cases [consumes 1, case_names dropped busy fresh again]:
  assumes "processPrePrepare E req s = Inr t"
  obtains
    "t = s" "\<not> valid_proposal E req s"
  | p where "valid_proposal E req s" "p < length (heap s)" "t = note_proposal req s"
      "log s ! nat (cx_sequence_num (rq_data (pp_r req)) - lowWatermark s) = Some p"
      "conflicting (currentView s) (cx_digest (rq_data (pp_r req))) (heap s ! p)"
  | "valid_proposal E req s" "log s ! nat (cx_sequence_num (rq_data (pp_r req)) - lowWatermark s) = None"
      "accept_prePrepare E req (cx_sequence_num (rq_data (pp_r req))) (length (heap s))
         (free_slot E (nat (cx_sequence_num (rq_data (pp_r req)) - lowWatermark s)) (note_proposal req s)) = Inr t"
  | p where "valid_proposal E req s" "p < length (heap s)"
      "log s ! nat (cx_sequence_num (rq_data (pp_r req)) - lowWatermark s) = Some p"
      "\<not> conflicting (currentView s) (cx_digest (rq_data (pp_r req))) (heap s ! p)"
      "accept_prePrepare E req (cx_sequence_num (rq_data (pp_r req))) p (note_proposal req s) = Inr t"
proof (cases "valid_proposal E req s")
  case False
  with assms show ?thesis using that(1) processPrePrepare_dropped [OF False] by simp
next
  case v: True
  show ?thesis
  proof (cases "log s ! nat (cx_sequence_num (rq_data (pp_r req)) - lowWatermark s)")
    case None
    have "accept_prePrepare E req (cx_sequence_num (rq_data (pp_r req))) (length (heap s))
         (free_slot E (nat (cx_sequence_num (rq_data (pp_r req)) - lowWatermark s)) (note_proposal req s)) = Inr t"
      using assms v None unfolding processPrePrepare_def Let_def valid_proposal_def
      by (auto simp: note_proposal_def free_slot_def)
    with v None show ?thesis by (rule that(3))
  next
    case (Some p)
    have "p < length (heap s) \<and> (if conflicting (currentView s) (cx_digest (rq_data (pp_r req))) (heap s ! p)
        then t = note_proposal req s
        else accept_prePrepare E req (cx_sequence_num (rq_data (pp_r req))) p (note_proposal req s) = Inr t)"
      using assms v Some unfolding processPrePrepare_def Let_def valid_proposal_def
      by (auto simp: note_proposal_def split: if_splits)
    with v Some show ?thesis using that(2) [of p] that(4) [of p] by (auto split: if_splits)
  qed
qed

lemma note_proposal_keeps:
  assumes "srv_inv E s" and "valid_proposal E req s"
  shows "srv_inv E (note_proposal req s) \<and> evolves s (note_proposal req s)"
proof
  show "srv_inv E (note_proposal req s)"
    using srv_inv_currentSequence [OF assms(1), of "max (cx_sequence_num (rq_data (pp_r req))) (currentSequence s)"] assms
    by (simp add: note_proposal_def valid_proposal_def srv_inv_def inv_parts)
  show "evolves s (note_proposal req s)"
    by (rule evolves_same_entries) (simp_all add: note_proposal_def)
qed

text \<open>The entry that a valid proposal leaves in its slot.\<close>

lemma accepted_entry_valid:
  assumes "valid_proposal E req s"
  shows "entry_ok E (accepted_entry E req (own_prePrepareOk E (pp_r req) u) u e)"
    "entry_view (accepted_entry E req ok u e) = currentView s"
    "entry_seq (accepted_entry E req ok u e) = cx_sequence_num (rq_data (pp_r req))"
  using assms by (simp_all add: valid_proposal_def entry_ok_def entry_view_def entry_seq_def own_votes)

lemma valid_proposal_slot:
  assumes "srv_inv E s" and "valid_proposal E req s"
  shows "nat (cx_sequence_num (rq_data (pp_r req)) - lowWatermark s) < 20"
    "lowWatermark s + int (nat (cx_sequence_num (rq_data (pp_r req)) - lowWatermark s)) = cx_sequence_num (rq_data (pp_r req))"
    "0 \<le> cx_sequence_num (rq_data (pp_r req)) - lowWatermark s" "cx_sequence_num (rq_data (pp_r req)) - lowWatermark s < 20"
    "currentSequence s \<le> highWatermark s"
  using assms by (auto simp: srv_inv_def window_ok_def valid_proposal_def)

lemma processPrePrepare_keeps:
  assumes "processPrePrepare E req s = Inr t"
  shows "keeps E s t"
  unfolding keeps_def
proof (intro impI)
  assume inv: "srv_inv E s"
  note noted = note_proposal_keeps [OF inv] and slot = valid_proposal_slot [OF inv] and acc = accepted_entry_valid
  let ?n = "cx_sequence_num (rq_data (pp_r req))" and ?s1 = "note_proposal req s"
  let ?i = "nat (?n - lowWatermark s)"
  from assms show "srv_inv E t \<and> evolves s t"
  proof (cases rule: processPrePrepare_cases)
    case fresh
    let ?v = "free_slot E ?i ?s1" and ?p = "length (heap s)"
    let ?e = "accepted_entry E req (own_prePrepareOk E (pp_r req) ?v) ?v (heap ?v ! ?p)"
    let ?u = "?s1\<lparr>currentSequence := currentSequence ?s1, heap := heap ?s1 @ [?e],
        log := (log ?s1)[?i := Some (length (heap ?s1))]\<rparr>"
    have "put_entry ?p ?e ?v = ?u" by (cases s) (simp add: put_entry_def note_proposal_def free_slot_def)
    with accept_prePrepare_keeps [OF fresh(3), of E] have "keeps E ?u t" by (simp only:)
    moreover have "srv_inv E ?u \<and> evolves ?s1 ?u"
      by (rule keeps_alloc)
        (use noted [OF fresh(1)] acc [OF fresh(1)] slot [OF fresh(1)] fresh in \<open>simp_all add: note_proposal_def valid_proposal_def\<close>)
    ultimately show ?thesis
      using noted [OF fresh(1)] unfolding keeps_def by (blast intro: evolves_trans)
  next
    case (again p)
    note sl = srv_inv_slotD [OF inv slot(1) [OF again(1)] again(3)]
    let ?e = "accepted_entry E req (own_prePrepareOk E (pp_r req) ?s1) ?s1 (heap ?s1 ! p)"
    have "entry_le (heap ?s1 ! p) ?e"
      using srv_inv_entryD [OF inv sl(1)] again(1,4)
      by (auto simp: conflicting_def entry_le_def entry_view_def entry_digest_def note_proposal_def valid_proposal_def)
    then have "evolves ?s1 (put_entry p ?e ?s1)" by (rule evolves_put_entry)
    moreover have "srv_inv E (put_entry p ?e ?s1)"
      by (rule srv_inv_put_entry)
        (use noted [OF again(1)] acc [OF again(1)] sl slot [OF again(1)] in \<open>auto simp: note_proposal_def\<close>)
    moreover have "keeps E (put_entry p ?e ?s1) t"
      using accept_prePrepare_keeps [OF again(5)] by blast
    ultimately show ?thesis
      using noted [OF again(1)] unfolding keeps_def by (blast intro: evolves_trans)
  qed (use inv noted in simp_all)
qed

section \<open>Checkpoints\<close>

lemma erase_digests_sub:
  "erase_digests s is d = Inr d' \<Longrightarrow> set d' \<subseteq> set d \<and> (sm_wf d \<longrightarrow> sm_wf d')"
proof (induction "is" arbitrary: d)
  case (Cons i "is")
  then obtain x where "erase_digests s is (sm_erase x d) = Inr d'" by auto
  from Cons.IH [OF this] show ?case using set_sm_erase [of x d] by auto
qed auto

lemma nth_shifted_log:
  assumes "n \<le> length xs" and "j < length xs" and "(drop n xs @ replicate n None) ! j = Some p"
  shows "j + n < length xs \<and> xs ! (j + n) = Some p"
  using assms by (auto simp: nth_append add.commute split: if_splits)

lemma make_stable_cases:
  assumes "make_stable c ci s = Inr t"
  shows "\<exists>d high. t = s\<lparr>lastStableCheckpointSeqNum := c, lastStableCheckpointDigest := ci_digest ci,
        lastStableCheckpointState := ci_state ci,
        lastStableCheckpointProofs := ci_checkpointProofs ci,
        checkpoints := sm_erase c (checkpoints s), lowWatermark := c + 1, highWatermark := high,
        digestToEntry := d, log := drop (nat (c - lowWatermark s + 1)) (log s) @
          replicate (nat (c - lowWatermark s + 1)) None\<rparr> \<and>
     high = c + pbft_k s \<and> in_int32 high \<and> set d \<subseteq> set (digestToEntry s) \<and>
     (sm_wf (digestToEntry s) \<longrightarrow> sm_wf d)"
  using assms unfolding make_stable_def Let_def
  by (elim ebind_OkE) (force dest: erase_digests_sub)

lemma make_stable_keeps:
  assumes "make_stable c ci s = Inr t" and inv: "srv_inv E s" and "lastStableCheckpointSeqNum s < c"
    and "c \<le> lastExecuted s" and "sm_wf (ci_checkpointProofs ci)"
  shows "srv_inv E t \<and> evolves s t"
proof -
  define n where "n = nat (c - lowWatermark s + 1)"
  from make_stable_cases [OF assms(1)] obtain d high where
    t: "t = s\<lparr>lastStableCheckpointSeqNum := c, lastStableCheckpointDigest := ci_digest ci,
        lastStableCheckpointState := ci_state ci,
        lastStableCheckpointProofs := ci_checkpointProofs ci,
        checkpoints := sm_erase c (checkpoints s), lowWatermark := c + 1, highWatermark := high,
        digestToEntry := d, log := drop n (log s) @ replicate n None\<rparr>"
    and high: "high = c + pbft_k s" "in_int32 high" "set d \<subseteq> set (digestToEntry s)"
      "sm_wf (digestToEntry s) \<longrightarrow> sm_wf d"
    unfolding n_def by blast
  have n: "n \<le> 20" "int n = c - lowWatermark s + 1" and len: "length (log s) = 20"
    using inv assms(3,4) by (auto simp: srv_inv_def window_ok_def n_def)
  have win: "window_ok t" "config_ok t" "heap_ok E t" "digests_ok t" "maps_ok t"
    using inv assms(3-5) high n set_sm_erase [of c "checkpoints s"]
    by (auto simp: srv_inv_def inv_parts t int32_max_def)
  have "slots_ok t"
    unfolding slots_ok_def
  proof (intro allI impI)
    fix j p assume j: "j < length (log t)" "log t ! j = Some p"
    then have "j + n < 20" "log s ! (j + n) = Some p"
      using nth_shifted_log [of n "log s" j p] n len by (auto simp: t)
    from srv_inv_slotD [OF inv this] n show "p < length (heap t) \<and>
        entry_seq (heap t ! p) = lowWatermark t + int j \<and> lowWatermark t + int j \<le> currentSequence t \<and>
        (mi_mstatus (heap t ! p) = EXECUTED \<longrightarrow> lowWatermark t + int j \<le> lastExecuted t)"
      by (auto simp: t)
  qed
  moreover have "evolves s t"
    unfolding evolves_def
  proof (intro conjI allI impI)
    fix seq e assume e: "entry_at s seq = Some e" and "lowWatermark t \<le> seq"
    then have seq: "c + 1 \<le> seq" "seq - lowWatermark s < 20"
      using len by (auto simp: t entry_at_def split: if_splits)
    define j where "j = nat (seq - (c + 1))"
    have j: "nat (seq - lowWatermark s) = n + j" "j < 20 - n" "int j = seq - (c + 1)"
      using seq n by (auto simp: j_def)
    have "(drop n (log s) @ replicate n None) ! j = log s ! (n + j)"
      using j(2) len by (simp add: nth_append)
    with e j n len have "entry_at t seq = Some e"
      by (auto simp: entry_at_def t split: if_splits option.splits simp flip: j_def)
    then show "\<exists>e'. entry_at t seq = Some e' \<and> entry_le e e'" by auto
  qed (use inv assms(3) in \<open>auto simp: t srv_inv_def window_ok_def\<close>)
  ultimately show ?thesis using win by (simp add: srv_inv_def)
qed

lemma srv_inv_checkpoints:
  assumes "srv_inv E s" and "sm_wf (ci_checkpointProofs ci)"
  shows "srv_inv E (s\<lparr>checkpoints := sm_put c ci (checkpoints s)\<rparr>)"
  using assms by (auto simp: srv_inv_def inv_parts dest!: sm_put_mem)

lemma known_checkpoint_wf:
  "srv_inv E s \<Longrightarrow> sm_find (checkpoints s) c = Some ci \<Longrightarrow> sm_wf (ci_checkpointProofs ci)"
  by (auto simp: srv_inv_def maps_ok_def dest: map_of_SomeD)

lemma processCheckpoint_keeps:
  assumes "processCheckpoint E r s = Inr t"
  shows "keeps E' s t"
  unfolding keeps_def
proof (intro impI)
  assume inv: "srv_inv E' s"
  define c where "c = cd_c_seq_num (cr_data r)"
  define ci0 where "ci0 = (case sm_find (checkpoints s) c of None \<Rightarrow> new_CheckpointInfo | Some ci \<Rightarrow> ci)"
  define ci where "ci = ci0\<lparr>ci_checkpointProofs :=
      sm_put (sg_server_id (cr_signature r)) r (ci_checkpointProofs ci0)\<rparr>"
  define s1 where "s1 = s\<lparr>checkpoints := sm_put c ci (checkpoints s)\<rparr>"
  have wf: "sm_wf (ci_checkpointProofs ci)"
    using known_checkpoint_wf [OF inv]
    by (auto simp: ci_def ci0_def new_CheckpointInfo_def split: option.split)
  have s1: "srv_inv E' s1 \<and> evolves s s1"
    using srv_inv_checkpoints [OF inv wf, of c] by (auto simp: s1_def intro!: evolves_same_entries)
  have "t = s \<or> lastStableCheckpointSeqNum s < c \<and>
      (t = s1 \<or> c \<le> lastExecuted s \<and> make_stable c ci s1 = Inr t)"
    using assms by (auto simp: processCheckpoint_def Let_def s1_def ci_def ci0_def c_def split: if_splits)
  then show "srv_inv E' t \<and> evolves s t"
  proof (elim disjE conjE)
    assume "lastStableCheckpointSeqNum s < c" "c \<le> lastExecuted s" and st: "make_stable c ci s1 = Inr t"
    then have "srv_inv E' t \<and> evolves s1 t"
      using s1 wf by (intro make_stable_keeps [OF st]) (auto simp: s1_def)
    then show ?thesis using s1 evolves_trans by blast
  qed (use inv s1 in auto)
qed

section \<open>View changes\<close>

lemma keeps_viewChangeMessages:
  assumes "sm_wf2 (viewChangeMessages s) \<Longrightarrow> sm_wf2 m"
  shows "keeps E s (s\<lparr>viewChangeMessages := m\<rparr>)"
  using assms by (auto simp: keeps_def srv_inv_def inv_parts intro!: evolves_same_entries)

lemma keeps_currentView:
  assumes "currentView s \<le> v"
  shows "keeps E s (s\<lparr>currentView := v\<rparr>)"
  using assms by (fastforce simp: keeps_def srv_inv_def inv_parts intro!: evolves_same_entries)

lemma triggerViewChange_keeps: "triggerViewChange E v s = Inr t \<Longrightarrow> keeps E' s t"
  by (auto simp: triggerViewChange_def Let_def dest!: send_only(5))

lemma announce_view_keeps:
  assumes "announce_view E v s = Inr t" and "currentView s < v"
  shows "keeps E' s t"
proof -
  obtain vc nd where send: "sendNewViewToAll E nd
      (s\<lparr>viewChangeMessages := sm_put2 v (serverId s) vc (viewChangeMessages s),
         srvState := NORMAL_STATE, currentView := v\<rparr>) = Inr t" (is "sendNewViewToAll _ _ ?u = _")
    using assms(1) by (auto simp: announce_view_def Let_def)
  let ?s1 = "s\<lparr>viewChangeMessages := sm_put2 v (serverId s) vc (viewChangeMessages s)\<rparr>"
  have "keeps E' s ?s1" by (rule keeps_viewChangeMessages) (rule sm_put2_wf)
  moreover have "keeps E' (?s1\<lparr>srvState := NORMAL_STATE\<rparr>) ?u"
    using keeps_currentView [of "?s1\<lparr>srvState := NORMAL_STATE\<rparr>" v E'] assms(2) by simp
  ultimately have "keeps E' s ?u" using keeps_trans by fastforce
  then show ?thesis using send_only(6) [OF send] by auto
qed

lemma processViewChange_keeps:
  assumes "processViewChange E r s = Inr t"
  shows "keeps E' s t"
proof -
  define v where "v = vd_view_num (vc_data r)"
  define s1 where "s1 = s\<lparr>viewChangeMessages :=
      sm_put2 v (sg_server_id (vc_signature r)) r (viewChangeMessages s)\<rparr>"
  have s1: "keeps E' s s1" "currentView s1 = currentView s"
    unfolding s1_def by (rule keeps_viewChangeMessages, rule sm_put2_wf) simp_all
  have "t = s \<or> t = s1 \<or> currentView s < v \<and> announce_view E v s1 = Inr t \<or>
      (\<exists>u x. triggerViewChange E v s1 = Inr u \<and> t = start_timer x u)"
    using assms by (auto simp: processViewChange_def Let_def v_def s1_def split: if_splits)
  moreover have "keeps E' s t" if "currentView s < v" "announce_view E v s1 = Inr t"
    using keeps_trans [OF s1(1) announce_view_keeps [OF that(2)]] that(1) s1(2) by simp
  moreover have "keeps E' s t" if "triggerViewChange E v s1 = Inr u" "t = start_timer x u" for u x
    using keeps_trans [OF s1(1) triggerViewChange_keeps [OF that(1)]] that(2) by simp
  ultimately show ?thesis using s1(1) keeps_refl by blast
qed

lemma enter_view_keeps:
  assumes "enter_view E d s = Inr t" and "currentView s < nd_view_num d"
  shows "keeps E' s t"
proof -
  define m where "m = fold (\<lambda>v. sm_put2 (nd_view_num d) (sg_server_id (vc_signature v)) v) (nd_vproofs d)
      (sm_put (nd_view_num d) [] (viewChangeMessages s))"
  let ?u = "s\<lparr>srvState := NORMAL_STATE, currentView := nd_view_num d, viewChangeMessages := m\<rparr>"
  have wf: "sm_wf2 m" if "sm_wf2 (viewChangeMessages s)"
    unfolding m_def by (rule fold_sm_put2_wf) (use that in \<open>auto simp: sm_wf2_def dest!: sm_put_mem\<close>)
  have 1: "keeps E' s (s\<lparr>srvState := NORMAL_STATE, currentView := nd_view_num d\<rparr>)"
    using keeps_currentView [of "s\<lparr>srvState := NORMAL_STATE\<rparr>" "nd_view_num d" E'] assms(2) by simp
  have 2: "keeps E' (s\<lparr>srvState := NORMAL_STATE, currentView := nd_view_num d\<rparr>) ?u"
    using keeps_viewChangeMessages [of "s\<lparr>srvState := NORMAL_STATE, currentView := nd_view_num d\<rparr>" m E'] wf
    by simp
  have "\<exists>xs. t = sent xs ?u"
    using assms(1) unfolding enter_view_def m_def
    by (rule each_sent) (auto simp: send_new_view_ok_def Let_def dest: send_only(1))
  then show ?thesis using keeps_trans [OF 1 2] by auto
qed

lemma processNewView_cases:
  "processNewView E r s = Inr t \<Longrightarrow> t = s \<or>
     currentView s < nd_view_num (nv_data r) \<and> enter_view E (nv_data r) s = Inr t"
  by (auto simp: processNewView_def Let_def split: if_splits)

lemma processNewView_keeps: "processNewView E r s = Inr t \<Longrightarrow> keeps E' s t"
  using processNewView_cases [of E r s t] enter_view_keeps [of E "nv_data r" s t E'] by auto

section \<open>Timers and queries\<close>

lemma fire_DigestTimer_keeps: "fire_DigestTimer E d v n s = Inr t \<Longrightarrow> keeps E' s t"
  by (auto simp: fire_DigestTimer_def split: if_splits dest!: triggerViewChange_keeps [where E' = E'])

lemma fire_SeqTimer_keeps: "fire_SeqTimer E q v n s = Inr t \<Longrightarrow> keeps E' s t"
  by (auto simp: fire_SeqTimer_def split: if_splits dest!: triggerViewChange_keeps [where E' = E'])

lemma fire_ViewTimer_keeps: "fire_ViewTimer v n s = Inr t \<Longrightarrow> keeps E' s t"
  by (auto simp: fire_ViewTimer_def split: if_splits)

lemma fire_RetryTimer_keeps: "fire_RetryTimer E r s = Inr t \<Longrightarrow> keeps E' s t"
  by (auto simp: fire_RetryTimer_def split: if_splits intro: processNewView_keeps)

lemma read_balances_wf: "read_balances as b = (vs, b') \<Longrightarrow> sm_wf b \<Longrightarrow> sm_wf b'"
  by (induction as arbitrary: b vs) (auto split: prod.splits dest: sm_index_wf)

lemma GetDB_keeps: "keeps E s (snd (GetDB s))"
  by (auto simp: GetDB_def keeps_def srv_inv_def inv_parts dest: read_balances_wf
      intro!: evolves_same_entries split: prod.split)

lemmas handlers_keep = processTransfer_keeps processPrePrepare_keeps processPrePrepareOk_keeps
  processPrepare_keeps processPrepareOk_keeps processCommit_keeps processViewChange_keeps
  processNewView_keeps processCheckpoint_keeps fire_DigestTimer_keeps fire_SeqTimer_keeps
  fire_ViewTimer_keeps fire_OptimisticTimer_keeps fire_RetryTimer_keeps

lemma handle_keeps: "handle E ev s = Inr t \<Longrightarrow> keeps E s t"
proof (cases ev)
  case (Rpc p)
  assume "handle E ev s = Inr t"
  with Rpc show ?thesis by (cases p) (auto intro: handlers_keep)
next
  case (Fire x)
  assume "handle E ev s = Inr t"
  with Fire show ?thesis by (cases x) (auto intro: handlers_keep)
qed (auto simp: GetDB_keeps)

section \<open>Runs\<close>

definition next_state :: "env \<Rightarrow> srv \<Rightarrow> srv \<Rightarrow> bool" where
  "next_state E s t \<longleftrightarrow> (\<exists>ev. server_step E s ev t)"

lemma server_step_keeps: "server_step E s ev t \<Longrightarrow> keeps E s t"
  using server_step_handle [of E s ev t] handle_keeps by (fastforce simp: keeps_def)

lemma server_run_keeps: "rtranclp (next_state E) s t \<Longrightarrow> keeps E s t"
  by (induction rule: rtranclp_induct) (auto simp: next_state_def intro: keeps_trans server_step_keeps)

lemma server_reach_inv:
  assumes "server_reach E i s" and "0 \<le> i" and "i < 7"
  shows "srv_inv E s \<and> serverId s = i"
  using assms
proof (induction rule: server_reach.induct)
  case (start name byz lc lcp)
  then show ?case by (simp add: srv_inv_init) (simp add: PbftServerImpl_def)
next
  case (step s ev s')
  from server_step_keeps [OF step.hyps(2)] step show ?case
    by (simp add: keeps_def evolves_def)
qed

end
