(* ===== verification/Server_Ledger.thy ===== *)
theory Server_Ledger
  imports Server_Steps
begin

text \<open>
  What execution means for the accounts. The abstract specification is a ledger, a total function from
  accounts to amounts, and the requests applied to it one after the other; \<open>executePending\<close> refines
  it: it applies the committed requests in sequence order, up to the first entry that is neither
  committed nor executed, and answers each client with the ledger's verdict.
\<close>

section \<open>The ledger\<close>

type_synonym ledger = "string \<Rightarrow> int"

definition ledger_of :: "(string, int) smap \<Rightarrow> ledger" where
  "ledger_of b = (\<lambda>a. case sm_find b a of Some v \<Rightarrow> v | None \<Rightarrow> 0)"

definition ledger_apply :: "TransactionData \<Rightarrow> ledger \<Rightarrow> ledger \<times> bool" where
  "ledger_apply td L =
     (if td_amount td \<le> L (td_sender td) then
        (let L1 = L(td_sender td := L (td_sender td) - td_amount td)
         in (L1(td_receiver td := L1 (td_receiver td) + td_amount td), True))
      else (L, False))"

primrec run_ledger :: "Message list \<Rightarrow> ledger \<Rightarrow> ledger \<times> bool list" where
  "run_ledger [] L = (L, [])"
| "run_ledger (m # ms) L =
     (let (L1, res) = ledger_apply (ms_data m) L; (L2, rs) = run_ledger ms L1 in (L2, res # rs))"

lemma ledger_of_put: "ledger_of (sm_put a v b) = (ledger_of b)(a := v)"
  by (auto simp: ledger_of_def)

lemma sm_index_ledger: "sm_index 0 a b = (v, b') \<Longrightarrow> v = ledger_of b a \<and> ledger_of b' = ledger_of b"
  by (auto simp: sm_index_def ledger_of_def fun_eq_iff split: option.splits if_splits)

lemma transfer_refines:
  assumes "transfer td b = Inr (b', res)"
  shows "ledger_apply td (ledger_of b) = (ledger_of b', res)"
proof -
  obtain v b1 where i: "sm_index 0 (td_sender td) b = (v, b1)" by (cases "sm_index 0 (td_sender td) b")
  obtain w b3 where j: "sm_index 0 (td_receiver td) (sm_put (td_sender td) (v - td_amount td) b1) = (w, b3)"
    by (cases "sm_index 0 (td_receiver td) (sm_put (td_sender td) (v - td_amount td) b1)")
  note vi = sm_index_ledger [OF i] and wj = sm_index_ledger [OF j]
  from assms i j vi wj show ?thesis
    by (auto simp: transfer_def Let_def ledger_apply_def ledger_of_put split: if_splits)
qed

text \<open>The sum of all balances: an account that appears starts with 0.\<close>

lemma sm_total_put_ledger:
  "sm_wf b \<Longrightarrow> sm_total (sm_put a v b) = sm_total b + v - ledger_of b a"
  by (simp add: sm_total_put ledger_of_def)

lemma sm_index_total: "sm_wf b \<Longrightarrow> sm_index 0 a b = (v, b') \<Longrightarrow> sm_wf b' \<and> sm_total b' = sm_total b"
  by (auto simp: sm_index_def sm_total_put split: option.splits)

lemma transfer_total:
  assumes "transfer td b = Inr (b', res)" and "sm_wf b"
  shows "sm_total b' = sm_total b"
proof -
  obtain v b1 where i: "sm_index 0 (td_sender td) b = (v, b1)" by (cases "sm_index 0 (td_sender td) b")
  let ?b2 = "sm_put (td_sender td) (v - td_amount td) b1"
  obtain w b3 where j: "sm_index 0 (td_receiver td) ?b2 = (w, b3)"
    by (cases "sm_index 0 (td_receiver td) ?b2")
  note vi = sm_index_ledger [OF i] sm_index_total [OF assms(2) i]
  have "sm_wf ?b2" using vi by simp
  note wj = sm_index_ledger [OF j] sm_index_total [OF this j]
  have "b' = b1 \<or> b' = sm_put (td_receiver td) (w + td_amount td) b3"
    using assms(1) i j by (auto simp: transfer_def Let_def split: if_splits)
  then show ?thesis using vi wj by (auto simp: sm_total_put_ledger)
qed

text \<open>Values add up when none is negative.\<close>

definition nonneg :: "(string, int) smap \<Rightarrow> bool" where
  "nonneg b \<longleftrightarrow> (\<forall>x \<in> set b. 0 \<le> snd x)"

lemma nonneg_ledger: "nonneg b \<Longrightarrow> 0 \<le> ledger_of b a"
  by (auto simp: nonneg_def ledger_of_def dest!: map_of_SomeD split: option.split)

lemma sum_list_nonneg_member: "\<forall>v \<in> set vs. 0 \<le> v \<Longrightarrow> x \<in> set vs \<Longrightarrow> (x::int) \<le> sum_list vs"
proof (induction vs)
  case (Cons v vs)
  have "0 \<le> sum_list vs" using Cons.prems(1) by (intro sum_list_nonneg) auto
  with Cons show ?case by auto
qed simp

lemma nonneg_le_total: "nonneg b \<Longrightarrow> ledger_of b a \<le> sm_total b"
proof (cases "sm_find b a")
  case None
  assume "nonneg b"
  then have "0 \<le> sm_total b"
    by (auto simp: nonneg_def sm_total_def sm_vals_def intro!: sum_list_nonneg)
  with None show ?thesis by (simp add: ledger_of_def)
next
  case (Some v)
  assume "nonneg b"
  from Some have "v \<in> set (sm_vals b)" by (force simp: sm_vals_def dest: map_of_SomeD)
  with \<open>nonneg b\<close> have "v \<le> sm_total b"
    unfolding sm_total_def by (intro sum_list_nonneg_member) (auto simp: nonneg_def sm_vals_def)
  with Some show ?thesis by (simp add: ledger_of_def)
qed

lemma nonneg_put: "nonneg b \<Longrightarrow> 0 \<le> v \<Longrightarrow> nonneg (sm_put a v b)"
  by (auto simp: nonneg_def dest!: sm_put_mem)

lemma nonneg_index: "nonneg b \<Longrightarrow> sm_index 0 a b = (v, b') \<Longrightarrow> nonneg b'"
  by (auto simp: sm_index_def nonneg_put split: option.splits)

text \<open>A transfer of an amount that is not negative never overdraws and never overflows.\<close>

lemma transfer_nonneg:
  assumes "sm_wf b" and "nonneg b" and "0 \<le> td_amount td" and "sm_total b \<le> int32_max"
  shows "\<exists>b' res. transfer td b = Inr (b', res) \<and> nonneg b'"
proof -
  obtain v b1 where i: "sm_index 0 (td_sender td) b = (v, b1)" by (cases "sm_index 0 (td_sender td) b")
  let ?b2 = "sm_put (td_sender td) (v - td_amount td) b1"
  obtain w b3 where j: "sm_index 0 (td_receiver td) ?b2 = (w, b3)"
    by (cases "sm_index 0 (td_receiver td) ?b2")
  note vi = sm_index_ledger [OF i] sm_index_total [OF assms(1) i] nonneg_index [OF assms(2) i]
  have v: "0 \<le> v" "v \<le> int32_max"
    using vi nonneg_ledger [OF assms(2)] nonneg_le_total [OF assms(2)] assms(4) by (auto intro: order_trans)
  show ?thesis
  proof (cases "td_amount td \<le> v")
    case False
    with i vi show ?thesis by (auto simp: transfer_def)
  next
    case True
    have wf2: "sm_wf ?b2" using vi by simp
    note wj = sm_index_ledger [OF j] sm_index_total [OF wf2 j]
    have nn2: "nonneg ?b2" using vi True by (intro nonneg_put) auto
    then have nn: "nonneg b3" using nonneg_index [OF _ j] by blast
    have "sm_total ?b2 = sm_total b - td_amount td"
      using vi by (simp add: sm_total_put_ledger)
    with nonneg_le_total [OF nn2, of "td_receiver td"] wj have "w + td_amount td \<le> int32_max"
      using assms(4) by simp
    moreover have "0 \<le> w" using wj nonneg_ledger [OF nn2] by simp
    ultimately have "transfer td b = Inr (sm_put (td_receiver td) (w + td_amount td) b3, True)"
      using i j True v assms(3) by (auto simp: transfer_def Let_def int32_max_def iadd_def isub_def cint_def)
    then show ?thesis using nn \<open>0 \<le> w\<close> assms(3) by (auto intro: nonneg_put)
  qed
qed

section \<open>The requests that one call executes\<close>

definition slot_ptr :: "srv \<Rightarrow> int \<Rightarrow> nat option" where
  "slot_ptr s n = log s ! nat (n - lowWatermark s)"

primrec pending :: "srv \<Rightarrow> int list \<Rightarrow> (int \<times> nat) list" where
  "pending s [] = []"
| "pending s (n # ns) =
     (case slot_ptr s n of
        None \<Rightarrow> pending s ns
      | Some p \<Rightarrow>
          (if mi_mstatus (heap s ! p) = COMMITTED then (n, p) # pending s ns
           else if mi_mstatus (heap s ! p) = EXECUTED then pending s ns
           else []))"

definition to_execute :: "srv \<Rightarrow> (int \<times> nat) list" where
  "to_execute s = pending s [lastExecuted s + 1..currentSequence s]"

definition messages_at :: "srv \<Rightarrow> (int \<times> nat) list \<Rightarrow> Message list" where
  "messages_at s ps = map (\<lambda>(n, p). mi_m (heap s ! p)) ps"

text \<open>The replies among a list of calls: client, transaction, verdict.\<close>

fun client_replies :: "outcall list \<Rightarrow> (int \<times> TransactionData \<times> bool) list" where
  "client_replies [] = []"
| "client_replies (ToClient c r # os) = (c, rd_tdata (rs_data r), rd_ack (rs_data r)) # client_replies os"
| "client_replies (ToServer i p # os) = client_replies os"

lemma client_replies_append [simp]:
  "client_replies (xs @ ys) = client_replies xs @ client_replies ys"
  by (induction xs rule: client_replies.induct) auto

lemma client_replies_servers [simp]: "client_replies (map (\<lambda>i. ToServer i p) is) = []"
  by (induction "is") auto

definition verdicts :: "Message list \<Rightarrow> bool list \<Rightarrow> (int \<times> TransactionData \<times> bool) list" where
  "verdicts ms rs = map2 (\<lambda>m r. (sg_server_id (ms_signature m), ms_data m, r)) ms rs"

lemma checkpoint_effect:
  assumes "checkpoint E s = Inr t" and "clusterSize s \<le> 7"
  shows "balances t = balances s \<and> heap t = heap s \<and> client_replies (outbox t) = client_replies (outbox s)"
proof -
  obtain ck req s2 where send: "sendCheckpointToAll E req (s\<lparr>checkpoints := ck\<rparr>) = Inr s2"
    and t: "t = s2\<lparr>lastCheckpoint := lastExecuted s2\<rparr>"
    using assms(1) unfolding checkpoint_def Let_def by (elim ebind_OkE) (erule that, simp_all)
  then show ?thesis
    using assms(2) by (auto simp: sendCheckpointToAll_def Let_def to_others_payload)
qed

lemma execute_entry_effect:
  assumes "execute_entry E seq p e s = Inr t" and "clusterSize s \<le> 7"
  obtains b res where "transfer (ms_data (mi_m e)) (balances s) = Inr (b, res)" and "balances t = b"
    and "heap t = (heap s)[p := e\<lparr>mi_mstatus := EXECUTED, mi_result := res\<rparr>]"
    and "client_replies (outbox t) = client_replies (outbox s) @
           [(sg_server_id (ms_signature (mi_m e)), ms_data (mi_m e), res)]"
    and "lastExecuted t = seq"
proof -
  obtain b res s2 s3 tt where tr: "transfer (ms_data (mi_m e)) (balances s) = Inr (b, res)"
    and n: "notifyClient E (sg_server_id (ms_signature (mi_m e))) (mi_m e) res
        (put_entry p (e\<lparr>mi_mstatus := EXECUTED, mi_result := res\<rparr>)
           (s\<lparr>balances := b, lastExecuted := seq, totalTimeTaken := tt\<rparr>)) = Inr s2"
    and c: "s3 = s2 \<or> checkpoint E s2 = Inr s3" and t: "t = s3\<lparr>lastExecuted := seq\<rparr>"
    using assms(1) by (fastforce simp: execute_entry_def Let_def split: if_splits)
  have s2: "balances s2 = b" "heap s2 = (heap s)[p := e\<lparr>mi_mstatus := EXECUTED, mi_result := res\<rparr>]"
      "client_replies (outbox s2) = client_replies (outbox s) @
         [(sg_server_id (ms_signature (mi_m e)), ms_data (mi_m e), res)]" "clusterSize s2 = clusterSize s"
    using n by (auto simp: notifyClient_def Let_def)
  then have "balances s3 = b \<and> heap s3 = heap s2 \<and> client_replies (outbox s3) = client_replies (outbox s2)"
    using c checkpoint_effect [of E s2 s3] assms(2) by auto
  with s2 show ?thesis by (intro that [OF tr]) (simp_all add: t)
qed

text \<open>Executing one entry does not change which of the others are pending.\<close>

lemma pending_frame:
  assumes "log t = log s" and "lowWatermark t = lowWatermark s"
    and "\<And>n q. n \<in> set ns \<Longrightarrow> slot_ptr s n = Some q \<Longrightarrow>
           mi_mstatus (heap t ! q) = mi_mstatus (heap s ! q)"
  shows "pending t ns = pending s ns"
  using assms(3)
proof (induction ns)
  case (Cons n ns)
  have same: "slot_ptr t n = slot_ptr s n" using assms(1,2) by (simp add: slot_ptr_def)
  have IH: "pending t ns = pending s ns" by (rule Cons.IH) (rule Cons.prems, simp_all)
  show ?case
  proof (cases "slot_ptr s n")
    case (Some q)
    with Cons.prems [of n q] same IH show ?thesis by simp
  qed (use same IH in simp)
qed simp

lemma pending_slots: "(n, p) \<in> set (pending s ns) \<Longrightarrow> n \<in> set ns \<and> slot_ptr s n = Some p"
  by (induction ns) (auto split: option.splits if_splits)

lemma pending_committed: "(n, p) \<in> set (pending s ns) \<Longrightarrow> mi_mstatus (heap s ! p) = COMMITTED"
  by (induction ns) (auto split: option.splits if_splits)

text \<open>The description of a run from \<open>s\<close> to \<open>t\<close> that executes \<open>ps\<close>.\<close>

definition executes :: "srv \<Rightarrow> (int \<times> nat) list \<Rightarrow> srv \<Rightarrow> bool" where
  "executes s ps t \<longleftrightarrow>
     (let (L, rs) = run_ledger (messages_at s ps) (ledger_of (balances s))
      in ledger_of (balances t) = L \<and>
         client_replies (outbox t) = client_replies (outbox s) @ verdicts (messages_at s ps) rs \<and>
         lastExecuted t = (if ps = [] then lastExecuted s else fst (last ps)) \<and>
         (\<forall>p. mi_mstatus (heap t ! p) =
            (if p \<in> snd ` set ps then EXECUTED else mi_mstatus (heap s ! p))))"

lemma executes_Nil [simp]: "executes s [] s"
  by (simp add: executes_def messages_at_def verdicts_def)

lemma executes_step:
  assumes ex: "execute_entry E n p (heap s ! p) s = Inr u" and "clusterSize s \<le> 7"
    and p: "p < length (heap s)" and rest: "executes u ps t" and fresh: "p \<notin> snd ` set ps"
  shows "executes s ((n, p) # ps) t"
proof -
  obtain b res where tr: "transfer (ms_data (mi_m (heap s ! p))) (balances s) = Inr (b, res)"
    and u: "balances u = b"
      "heap u = (heap s)[p := (heap s ! p)\<lparr>mi_mstatus := EXECUTED, mi_result := res\<rparr>]"
      "client_replies (outbox u) = client_replies (outbox s) @
         [(sg_server_id (ms_signature (mi_m (heap s ! p))), ms_data (mi_m (heap s ! p)), res)]"
      "lastExecuted u = n"
    using execute_entry_effect [OF ex assms(2)] by metis
  have msgs: "messages_at u ps = messages_at s ps"
    using u(2) p by (auto simp: messages_at_def nth_list_update)
  have st: "mi_mstatus (heap u ! q) = (if q = p then EXECUTED else mi_mstatus (heap s ! q))" for q
    using u(2) p by simp
  obtain L rs where run: "run_ledger (messages_at s ps) (ledger_of b) = (L, rs)"
    by fastforce
  have m: "messages_at s ((n, p) # ps) = mi_m (heap s ! p) # messages_at s ps"
    by (simp add: messages_at_def)
  have r: "ledger_of (balances t) = L"
    "client_replies (outbox t) = client_replies (outbox u) @ verdicts (messages_at s ps) rs"
    "lastExecuted t = (if ps = [] then lastExecuted u else fst (last ps))"
    "\<And>q. mi_mstatus (heap t ! q) = (if q \<in> snd ` set ps then EXECUTED else mi_mstatus (heap u ! q))"
    using rest by (simp_all add: executes_def msgs u(1) run)
  show ?thesis
    by (simp add: executes_def m run transfer_refines [OF tr] r u(3,4) st verdicts_def)
qed

lemma execute_from_spec:
  "execute_from E seq s = Inr t \<Longrightarrow> srv_inv E' s \<Longrightarrow> lastExecuted s < seq \<Longrightarrow>
     executes s (pending s [seq..currentSequence s]) t"
proof (induction E seq s rule: execute_from.induct)
  case (1 E seq s)
  show ?case
  proof (cases "seq \<le> currentSequence s")
    case False
    with "1.prems" show ?thesis by (simp add: execute_from.simps [of E seq])
  next
    case True
    then obtain u go where u: "execute_slot E seq s = Inr (u, go)"
      and rest: "(if go then ebind (iadd seq 1) (\<lambda>seq'. execute_from E seq' u) else Ok u) = Inr t"
      using "1.prems" by (auto simp: execute_from.simps [of E seq])
    note iu = execute_slot_inv [OF u "1.prems"(2,3)]
    note fr = exec_frameD [OF execute_slot_frame [OF u]]
    have upto: "[seq..currentSequence s] = seq # [seq + 1..currentSequence s]"
      using True by (rule upto_rec1)
    have slot: "0 \<le> seq - lowWatermark s" "seq - lowWatermark s < 20"
      using "1.prems" True by (auto simp: srv_inv_def window_ok_def)
    have IH: "executes u (pending u [seq + 1..currentSequence s]) t" if go
    proof -
      have ex: "execute_from E (seq + 1) u = Inr t" and le: "iadd seq 1 = Inr (seq + 1)"
        using rest that by auto
      show ?thesis
        using "1.IH" [OF True u refl that le ex] iu fr(6) by simp
    qed
    show ?thesis
    proof (cases "slot_ptr s seq")
      case None
      then have "u = s" "go"
        using u by (auto simp: execute_slot_def slot_ptr_def)
      then show ?thesis using IH None upto by simp
    next
      case (Some p)
      note sl = srv_inv_slotD [OF "1.prems"(2), of "nat (seq - lowWatermark s)" p]
      have p: "p < length (heap s)" using sl(1) Some slot by (simp add: slot_ptr_def)
      show ?thesis
      proof (cases "mi_mstatus (heap s ! p) = COMMITTED")
        case False
        then have "u = s" "go = (mi_mstatus (heap s ! p) = EXECUTED)"
          using u Some by (auto simp: execute_slot_def slot_ptr_def split: if_splits)
        then show ?thesis using IH Some False upto rest by (cases go) auto
      next
        case True
        then have ex: "execute_entry E seq p (heap s ! p) s = Inr u" and "go"
          using u Some by (auto simp: execute_slot_def slot_ptr_def)
        have other: "q \<noteq> p" if n: "n \<in> set [seq + 1..currentSequence s]" and q: "slot_ptr s n = Some q" for n q
        proof
          assume "q = p"
          have "nat (n - lowWatermark s) = nat (seq - lowWatermark s)"
            by (rule srv_inv_slots_distinct [OF "1.prems"(2)])
              (use n q Some slot \<open>q = p\<close> "1.prems"(2) in \<open>auto simp: slot_ptr_def srv_inv_def window_ok_def\<close>)
          with n slot show False by auto
        qed
        obtain res where hu: "heap u = (heap s)[p := (heap s ! p)\<lparr>mi_mstatus := EXECUTED, mi_result := res\<rparr>]"
          using execute_entry_heap [OF ex] by blast
        have "pending u [seq + 1..currentSequence s] = pending s [seq + 1..currentSequence s]"
        proof (rule pending_frame)
          fix n q assume "n \<in> set [seq + 1..currentSequence s]" and "slot_ptr s n = Some q"
          then have "p \<noteq> q" using other by blast
          then show "mi_mstatus (heap u ! q) = mi_mstatus (heap s ! q)" by (simp add: hu)
        qed (use fr in simp_all)
        moreover have "p \<notin> snd ` set (pending s [seq + 1..currentSequence s])"
          using other by (force dest: pending_slots)
        moreover have "clusterSize s \<le> 7"
          using "1.prems"(2) by (simp add: srv_inv_def config_ok_def)
        ultimately have "executes s ((seq, p) # pending s [seq + 1..currentSequence s]) t"
          using IH \<open>go\<close> by (intro executes_step [OF ex _ p]) auto
        then show ?thesis using True Some upto by simp
      qed
    qed
  qed
qed

lemma executePending_spec:
  "executePending E s = Inr t \<Longrightarrow> srv_inv E' s \<Longrightarrow> executes s (to_execute s) t"
  by (auto simp: executePending_def to_execute_def dest: execute_from_spec)

end
