(* ===== verification/Sample.thy ===== *)
theory Sample
  imports Server_Ledger
begin

text \<open>
  A concrete environment and concrete messages: OpenSSL replaced by functions that obey its laws (a
  digest that keeps the data, signatures that name what they sign), protobuf by readable
  serialisers. The witnesses of the properties run the model here.
\<close>

section \<open>The environment\<close>

definition bytes_of :: "string \<Rightarrow> byte list" where
  "bytes_of s = map (\<lambda>c. word_of_nat (of_char c)) s"

definition show_td :: "TransactionData \<Rightarrow> string" where
  "show_td td = td_sender td @ ''>'' @ td_receiver td @ '':'' @ to_string (td_amount td) @ ''@'' @
     to_string (td_timestamp td)"

definition show_ctx :: "Context \<Rightarrow> string" where
  "show_ctx c = to_string (cx_view_num c) @ '','' @ to_string (cx_sequence_num c) @ '','' @ cx_digest c"

definition sample_env :: env where
  "sample_env =
     \<lparr>env_files = (\<lambda>path. Some path),
      evp_sha256 = (\<lambda>d. Some [word_of_nat (length d), word_of_nat (sum_list (map of_char d))]),
      evp_sign = (\<lambda>key d. Some (bytes_of d)),
      evp_verify = (\<lambda>key d sg. sg = bytes_of d),
      evp_hmac = (\<lambda>key d. Some []),
      ser_td = show_td, ser_rd = (\<lambda>r. show_td (rd_tdata r)), ser_ctx = show_ctx,
      ser_request = (\<lambda>r. show_ctx (rq_data r)),
      ser_cd = (\<lambda>c. to_string (cd_c_seq_num c) @ '','' @ cd_c_digest c),
      ser_vd = (\<lambda>v. to_string (vd_view_num v)), ser_nd = (\<lambda>n. to_string (nd_view_num n)),
      env_now = 0, env_junk = False\<rparr>"

lemma sample_env_sel:
  "ser_td sample_env = show_td" "ser_ctx sample_env = show_ctx"
  "ser_cd sample_env = (\<lambda>c. to_string (cd_c_seq_num c) @ '','' @ cd_c_digest c)"
  "ser_vd sample_env = (\<lambda>v. to_string (vd_view_num v))"
  "ser_nd sample_env = (\<lambda>n. to_string (nd_view_num n))"
  by (simp_all add: sample_env_def)

text \<open>The sample obeys the law of signatures: every private key belongs to every public key.\<close>

lemma sample_key_pair: "key_pair sample_env a b"
  by (simp add: key_pair_def sample_env_def)

section \<open>Messages\<close>

definition pay :: "string \<Rightarrow> string \<Rightarrow> int \<Rightarrow> TransactionData" where
  "pay a b n = \<lparr>td_sender = a, td_receiver = b, td_amount = n, td_timestamp = 7\<rparr>"

text \<open>A message of client \<open>c\<close>, signed with its key.\<close>

definition signed_by :: "int \<Rightarrow> TransactionData \<Rightarrow> Message" where
  "signed_by c td =
     \<lparr>ms_data = td,
      ms_signature = \<lparr>sg_sig = signECDSA sample_env (show_td td) (clientPrECDSAKeyPath c),
                      sg_server_id = c\<rparr>\<rparr>"

lemma signed_by_sel [simp]:
  "ms_data (signed_by c td) = td" "sg_server_id (ms_signature (signed_by c td)) = c"
  by (simp_all add: signed_by_def)

lemma signed_by_valid [simp]: "verifySignature_Message sample_env (signed_by c td)"
  using verify_sign [OF sample_key_pair]
  by (simp add: verifySignature_Message_def signed_by_def sample_env_sel)

text \<open>What server \<open>i\<close> proposes for a message: the leader of view \<open>v\<close> is \<open>i = v mod 7\<close>.\<close>

definition proposal :: "int \<Rightarrow> int \<Rightarrow> Message \<Rightarrow> PrePrepareRequest" where
  "proposal v n m =
     \<lparr>pp_r = \<lparr>rq_data = \<lparr>cx_view_num = v, cx_sequence_num = n,
                         cx_digest = message_digest sample_env m\<rparr>,
              rq_sig_vec = \<lparr>sv_signatures = replicate 7 '''', sv_server_id = v mod 7\<rparr>\<rparr>,
      pp_m = m\<rparr>"

lemma proposal_sel [simp]:
  "pp_m (proposal v n m) = m" "cx_view_num (rq_data (pp_r (proposal v n m))) = v"
  "cx_sequence_num (rq_data (pp_r (proposal v n m))) = n"
  "cx_digest (rq_data (pp_r (proposal v n m))) = message_digest sample_env m"
  "sv_server_id (rq_sig_vec (pp_r (proposal v n m))) = v mod 7"
  "sv_signatures (rq_sig_vec (pp_r (proposal v n m))) = replicate 7 ''''"
  by (simp_all add: proposal_def)

text \<open>A certificate for a proposal with an empty code from each of the senders.\<close>

definition certificate :: "PrePrepareRequest \<Rightarrow> int list \<Rightarrow> ProofRequest" where
  "certificate r is =
     \<lparr>pf_data = rq_data (pp_r r),
      pf_sig_vecs = map (\<lambda>i. \<lparr>sv_signatures = replicate 7 '''', sv_server_id = i\<rparr>) is\<rparr>"

section \<open>Servers\<close>

definition replica :: srv where "replica = PbftServerImpl 0 ''S1'' False 0 0"
definition leader :: srv where "leader = PbftServerImpl 1 ''S2'' False 0 0"

text \<open>The sample request, and the replica after it accepted the leader's proposal of it.\<close>

definition request1 :: Message where "request1 = signed_by 0 (pay ''A'' ''B'' 4)"

text \<open>A result that returned, with a property of what it returned.\<close>

definition holds :: "fault + 'a \<Rightarrow> ('a \<Rightarrow> bool) \<Rightarrow> bool" where
  "holds r P = (case r of Inl e \<Rightarrow> False | Inr x \<Rightarrow> P x)"

lemma holds_iff: "holds r P \<longleftrightarrow> (\<exists>x. r = Inr x \<and> P x)"
  by (cases r) (simp_all add: holds_def)

lemma holdsD: "holds r P \<Longrightarrow> r = Inr x \<Longrightarrow> P x"
  by (simp add: holds_def)

lemma sample_now [simp]: "at_time sample_env 0 False = sample_env"
  by (simp add: at_time_def sample_env_def)

text \<open>A replica accepts the proposal and then executes it on a certificate of five.\<close>

lemma sample_run:
  "holds (ebind (processPrePrepare sample_env (proposal 1 0 request1) replica)
            (processCommit sample_env (certificate (proposal 1 0 request1) [1, 2, 3, 4, 5])))
     (\<lambda>t. lastExecuted t = 0 \<and> map_option (\<lambda>p. mi_mstatus (heap t ! p)) (log t ! 0) = Some EXECUTED)"
  by code_simp

lemma sample_reach:
  obtains u t where "server_reach sample_env 0 u"
    and "server_step sample_env u
           (Rpc (P_Commit (certificate (proposal 1 0 request1) [1, 2, 3, 4, 5]))) t"
    and "server_reach sample_env 0 t" and "lastExecuted t = 0"
    and "processCommit sample_env (certificate (proposal 1 0 request1) [1, 2, 3, 4, 5]) u = Inr t"
    and "processPrePrepare sample_env (proposal 1 0 request1) replica = Inr u"
proof -
  obtain u t where u: "processPrePrepare sample_env (proposal 1 0 request1) replica = Inr u"
    and t: "processCommit sample_env (certificate (proposal 1 0 request1) [1, 2, 3, 4, 5]) u = Inr t"
    and e: "lastExecuted t = 0"
    using sample_run by (auto simp: holds_iff)
  have "server_step sample_env replica (Rpc (P_PrePrepare (proposal 1 0 request1))) u"
    by (rule server_step.receive [where t = 0 and j = False]) (simp add: u)
  then have ru: "server_reach sample_env 0 u"
    unfolding replica_def by (rule server_reach.step [OF server_reach.start])
  moreover have "server_step sample_env u
      (Rpc (P_Commit (certificate (proposal 1 0 request1) [1, 2, 3, 4, 5]))) t" (is ?st)
    by (rule server_step.receive [where t = 0 and j = False]) (simp add: t)
  moreover have "server_reach sample_env 0 t" by (rule server_reach.step [OF ru \<open>?st\<close>])
  ultimately show ?thesis using e u t by (intro that)
qed

end
