(* ===== verification/Server_Accounts.thy ===== *)
theory Server_Accounts
  imports Sample
begin

text \<open>
  The accounts over a whole run: no event creates or destroys money, and a call of
  \<open>executePending\<close> on requests whose amounts are not negative always returns and never overdraws.
\<close>

section \<open>Conservation\<close>

text \<open>What every handler does to the sum of the balances: nothing.\<close>

definition keeps_money :: "srv \<Rightarrow> srv \<Rightarrow> bool" where
  "keeps_money s t \<longleftrightarrow> (sm_wf (balances s) \<longrightarrow>
     sm_wf (balances t) \<and> sm_total (balances t) = sm_total (balances s))"

lemma keeps_money_same: "balances t = balances s \<Longrightarrow> keeps_money s t"
  by (simp add: keeps_money_def)

lemma keeps_money_trans: "keeps_money s t \<Longrightarrow> keeps_money t u \<Longrightarrow> keeps_money s u"
  by (simp add: keeps_money_def)

lemma keeps_money_left: "balances s = balances s' \<Longrightarrow> keeps_money s t = keeps_money s' t"
  by (simp add: keeps_money_def)

lemma checkpoint_balances: "checkpoint E s = Inr t \<Longrightarrow> balances t = balances s"
  using checkpoint_frame by fastforce

lemma execute_entry_money:
  assumes "execute_entry E seq p e s = Inr t"
  shows "keeps_money s t"
proof -
  obtain b res s2 s3 e' tt where tr: "transfer (ms_data (mi_m e)) (balances s) = Inr (b, res)"
    and n: "notifyClient E (sg_server_id (ms_signature (mi_m e))) (mi_m e) res
        (put_entry p e' (s\<lparr>balances := b, lastExecuted := seq, totalTimeTaken := tt\<rparr>)) = Inr s2"
    and c: "s3 = s2 \<or> checkpoint E s2 = Inr s3" and t: "t = s3\<lparr>lastExecuted := seq\<rparr>"
    using assms by (fastforce simp: execute_entry_def Let_def split: if_splits)
  from send_only(2) [OF n] have "balances s2 = b" by auto
  then have "balances t = b" using c checkpoint_balances by (auto simp: t)
  then show ?thesis
    using transfer_total [OF tr] transfer_wf [OF tr] by (simp add: keeps_money_def)
qed

lemma execute_slot_money: "execute_slot E seq s = Inr (t, go) \<Longrightarrow> keeps_money s t"
  by (auto simp: execute_slot_def keeps_money_same dest: execute_entry_money
      split: option.splits if_splits)

lemma execute_from_money: "execute_from E seq s = Inr t \<Longrightarrow> keeps_money s t"
  by (erule execute_from_keeps) (auto intro: keeps_money_same keeps_money_trans execute_slot_money)

lemma executePending_money: "executePending E s = Inr t \<Longrightarrow> keeps_money s t"
  by (auto simp: executePending_def dest: execute_from_money)

text \<open>The other helpers do not touch the balances.\<close>

lemma forward_balances: "forward d m s = Inr t \<Longrightarrow> balances t = balances s"
  by (auto simp: forward_def emit_eq_sent start_timer_def Let_def)

lemma propose_balances: "propose E m d s = Inr t \<Longrightarrow> balances t = balances s"
  by (auto simp: propose_def Let_def dest!: send_only)

lemma repropose_balances: "repropose E m p e s = Inr t \<Longrightarrow> balances t = balances s"
  by (auto simp: repropose_def Let_def dest!: send_only)

lemma accept_prePrepare_balances: "accept_prePrepare E r n p s = Inr t \<Longrightarrow> balances t = balances s"
  by (auto simp: accept_prePrepare_def Let_def start_timer_def split: if_splits dest!: send_only)

lemma make_stable_balances: "make_stable c ci s = Inr t \<Longrightarrow> balances t = balances s"
  by (auto simp: make_stable_def Let_def)

lemma triggerViewChange_balances: "triggerViewChange E v s = Inr t \<Longrightarrow> balances t = balances s"
  by (auto simp: triggerViewChange_def Let_def dest!: send_only)

lemma announce_view_balances: "announce_view E v s = Inr t \<Longrightarrow> balances t = balances s"
  by (auto simp: announce_view_def Let_def dest!: send_only)

lemma enter_view_balances: "enter_view E d s = Inr t \<Longrightarrow> balances t = balances s"
  unfolding enter_view_def send_new_view_ok_def Let_def
  by (drule each_sent) (auto dest: send_only)

lemmas same_balances = forward_balances propose_balances repropose_balances
  accept_prePrepare_balances make_stable_balances triggerViewChange_balances announce_view_balances
  enter_view_balances

lemma read_balances_money:
  "read_balances as b = (vs, b') \<Longrightarrow> sm_wf b \<Longrightarrow> sm_wf b' \<and> sm_total b' = sm_total b"
proof (induction as arbitrary: b vs)
  case (Cons a as)
  then obtain v b1 ws where i: "sm_index 0 a b = (v, b1)" and r: "read_balances as b1 = (ws, b')"
    by (auto split: prod.splits)
  from sm_index_total [OF Cons.prems(2) i] Cons.IH [OF r] show ?case by simp
qed simp

lemma processTransfer_money: "processTransfer E m s = Inr t \<Longrightarrow> balances t = balances s"
  unfolding processTransfer_def Let_def
  by (auto split: if_splits option.splits dest!: send_only(2) dest: same_balances)

lemma processPrePrepare_money: "processPrePrepare E r s = Inr t \<Longrightarrow> balances t = balances s"
  unfolding processPrePrepare_def Let_def
  by (auto split: if_splits option.splits dest!: same_balances)

lemma processPrePrepareOk_money: "processPrePrepareOk E r s = Inr t \<Longrightarrow> balances t = balances s"
  unfolding processPrePrepareOk_def Let_def
  by (auto split: if_splits simp: start_timer_def)

lemma processPrepare_money: "processPrepare E r s = Inr t \<Longrightarrow> balances t = balances s"
  unfolding processPrepare_def Let_def
  by (auto split: if_splits option.splits dest!: send_only(1))

lemma processCheckpoint_money: "processCheckpoint E r s = Inr t \<Longrightarrow> balances t = balances s"
  unfolding processCheckpoint_def Let_def
  by (auto split: if_splits dest!: same_balances)

lemma processViewChange_money: "processViewChange E r s = Inr t \<Longrightarrow> balances t = balances s"
  unfolding processViewChange_def Let_def
  by (auto split: if_splits simp: start_timer_def dest!: same_balances)

lemma processNewView_money: "processNewView E r s = Inr t \<Longrightarrow> balances t = balances s"
  using processNewView_cases [of E r s t] enter_view_balances by auto

lemma fire_money:
  "fire_DigestTimer E d v n s = Inr t \<Longrightarrow> balances t = balances s"
  "fire_SeqTimer E q v n s = Inr t \<Longrightarrow> balances t = balances s"
  "fire_ViewTimer v n s = Inr t \<Longrightarrow> balances t = balances s"
  "fire_RetryTimer E nv s = Inr t \<Longrightarrow> balances t = balances s"
  by (auto simp: fire_DigestTimer_def fire_SeqTimer_def fire_ViewTimer_def fire_RetryTimer_def
      start_timer_def split: if_splits dest!: same_balances processNewView_money)

lemmas balances_kept = processTransfer_money processPrePrepare_money processPrePrepareOk_money
  processPrepare_money processCheckpoint_money processViewChange_money processNewView_money fire_money

lemmas money_kept = balances_kept [THEN keeps_money_same]

lemma processPrepareOk_money: "processPrepareOk E r s = Inr t \<Longrightarrow> keeps_money s t"
  unfolding processPrepareOk_def Let_def
  by (auto simp: keeps_money_same split: if_splits dest!: send_only(3) executePending_money)
    (auto simp: keeps_money_def)

lemma processCommit_money: "processCommit E r s = Inr t \<Longrightarrow> keeps_money s t"
  unfolding processCommit_def Let_def
  by (auto simp: keeps_money_same split: if_splits option.splits dest!: executePending_money)
    (auto simp: keeps_money_def)

lemma fire_OptimisticTimer_money: "fire_OptimisticTimer E n s = Inr t \<Longrightarrow> keeps_money s t"
  unfolding fire_OptimisticTimer_def Let_def
  by (auto simp: keeps_money_same split: if_splits dest!: send_only(3) executePending_money)
    (auto simp: keeps_money_def)

lemma handle_money: "handle E ev s = Inr t \<Longrightarrow> keeps_money s t"
proof (cases ev)
  case (Rpc p)
  assume "handle E ev s = Inr t"
  with Rpc show ?thesis
    by (cases p) (auto intro: processPrepareOk_money processCommit_money money_kept)
next
  case (Fire x)
  assume "handle E ev s = Inr t"
  with Fire show ?thesis
    by (cases x) (auto intro: fire_OptimisticTimer_money money_kept)
next
  case Query_DB
  assume "handle E ev s = Inr t"
  with Query_DB show ?thesis
    by (auto simp: GetDB_def keeps_money_def split: prod.splits dest: read_balances_money)
qed

lemma server_reach_money: "server_reach E i s \<Longrightarrow> sm_wf (balances s) \<and> sm_total (balances s) = 100"
proof (induction rule: server_reach.induct)
  case (start name byz lc lcp)
  then show ?case
    by (simp add: PbftServerImpl_def initial_balances_eq less_char_def sm_total_def sm_vals_def)
next
  case (step s ev s')
  then obtain t j where "handle (at_time E t j) ev s = Inr s'" using server_step_handle by blast
  from handle_money [OF this] step.IH show ?case by (simp add: keeps_money_def)
qed

section \<open>Execution returns\<close>

text \<open>A request that the loop can execute: its amount is not negative and its client has a stub.\<close>

definition payable :: "Message \<Rightarrow> bool" where
  "payable m \<longleftrightarrow> 0 \<le> td_amount (ms_data m) \<and>
     0 \<le> sg_server_id (ms_signature m) \<and> sg_server_id (ms_signature m) < 10"

definition solvent :: "srv \<Rightarrow> bool" where
  "solvent s \<longleftrightarrow> nonneg (balances s) \<and> sm_total (balances s) \<le> int32_max \<and>
     (\<forall>e \<in> set (heap s). payable (mi_m e)) \<and> currentSequence s < int32_max"

lemma balancesString_Ok:
  assumes "b \<noteq> []"
  shows "\<exists>cs. balancesString b = Inr cs"
proof -
  obtain a v rest where "b = (a, v) # rest" using assms by (cases b) auto
  then show ?thesis by (simp add: balancesString_def pop_back_def Let_def)
qed

lemma checkpoint_Ok:
  assumes "balances s \<noteq> []" and "clusterSize s = 7"
  shows "\<exists>t. checkpoint E s = Inr t"
proof -
  obtain cs where cs: "balancesString (balances s) = Inr cs"
    using balancesString_Ok [OF assms(1)] by blast
  have "\<exists>t. ebind (sendCheckpointToAll E r (s\<lparr>checkpoints := ck\<rparr>))
      (\<lambda>s2. Ok (s2\<lparr>lastCheckpoint := lastExecuted s2\<rparr>)) = Inr t" for r ck
    using sendToAll_Ok(4) [of "s\<lparr>checkpoints := ck\<rparr>" E r] assms(2) by auto
  then show ?thesis unfolding checkpoint_def Let_def cs ebind.simps by simp
qed

lemma sm_put_nonempty [simp]: "sm_put k v m \<noteq> []"
  by (cases m) auto

lemma transfer_nonempty:
  assumes "transfer td b = Inr (b', res)"
  shows "b' \<noteq> []"
proof -
  obtain v b1 where i: "sm_index 0 (td_sender td) b = (v, b1)" by (cases "sm_index 0 (td_sender td) b")
  then have "b1 \<noteq> []" by (auto simp: sm_index_def split: option.splits)
  with assms i show ?thesis
    by (auto simp: transfer_def Let_def split: prod.splits if_splits)
qed

text \<open>One entry, then one slot, then the loop.\<close>

lemma execute_entry_Ok:
  assumes "srv_inv E' s" and "solvent s" and "payable (mi_m e)"
  shows "\<exists>t. execute_entry E seq p e s = Inr t"
proof -
  have c: "clusterSize s = 7" "sm_wf (balances s)"
    using assms(1) by (auto simp: srv_inv_def config_ok_def maps_ok_def)
  obtain b res where tr: "transfer (ms_data (mi_m e)) (balances s) = Inr (b, res)"
    using transfer_nonneg [OF c(2), of "ms_data (mi_m e)"] assms(2,3)
    by (auto simp: solvent_def payable_def)
  define s1 where "s1 = put_entry p (e\<lparr>mi_mstatus := EXECUTED, mi_result := res\<rparr>)
     (s\<lparr>balances := b, lastExecuted := seq,
        totalTimeTaken := totalTimeTaken s + millis (env_now E - mi_startTime e)\<rparr>)"
  obtain s2 where n: "notifyClient E (sg_server_id (ms_signature (mi_m e))) (mi_m e) res s1 = Inr s2"
    using assms(3) by (auto simp: notifyClient_def payable_def Let_def clientStub_def)
  then obtain xs where s2: "s2 = sent xs s1" using send_only(2) by blast
  have "\<exists>t. checkpoint E s2 = Inr t"
    by (rule checkpoint_Ok) (use transfer_nonempty [OF tr] c s2 in \<open>simp_all add: s1_def\<close>)
  then show ?thesis
    using n unfolding execute_entry_def Let_def tr by (simp add: s1_def) (cases "seq smod checkpointStepSize s2 = checkpointStepSize s2 - 1"; auto)
qed

lemma solvent_step:
  assumes ex: "execute_entry E seq p (heap s ! p) s = Inr t" and inv: "srv_inv E' s"
    and sol: "solvent s" and p: "p < length (heap s)"
  shows "solvent t"
proof -
  have cl: "clusterSize s \<le> 7" "sm_wf (balances s)"
    using inv by (auto simp: srv_inv_def config_ok_def maps_ok_def)
  have pay: "0 \<le> td_amount (ms_data (mi_m (heap s ! p)))"
    using sol p by (auto simp: solvent_def payable_def)
  obtain b res where tr: "transfer (ms_data (mi_m (heap s ! p))) (balances s) = Inr (b, res)"
    and t: "balances t = b"
      "heap t = (heap s)[p := (heap s ! p)\<lparr>mi_mstatus := EXECUTED, mi_result := res\<rparr>]"
    using execute_entry_effect [OF ex cl(1)] by metis
  have "nonneg b"
    using transfer_nonneg [OF cl(2), of "ms_data (mi_m (heap s ! p))"] sol pay tr
    by (auto simp: solvent_def)
  moreover have "payable (mi_m e)" if "e \<in> set (heap t)" for e
    using that sol p t(2) by (auto simp: solvent_def dest: set_update_subset_insert [THEN subsetD])
  ultimately show ?thesis
    using sol t transfer_total [OF tr cl(2)] exec_frameD(6) [OF execute_entry_frame [OF ex]]
    by (simp add: solvent_def)
qed

lemma execute_slot_Ok:
  assumes "srv_inv E' s" and "solvent s" and "lastExecuted s < seq" and "seq \<le> currentSequence s"
  shows "\<exists>t go. execute_slot E seq s = Inr (t, go) \<and> solvent t"
proof -
  let ?i = "seq - lowWatermark s"
  have i: "0 \<le> ?i" "?i < 20" "length (log s) = 20" "in_int32 ?i"
    using assms by (auto simp: srv_inv_def window_ok_def)
  show ?thesis
  proof (cases "log s ! nat ?i")
    case None
    then have "execute_slot E seq s = Inr (s, True)" using i by (simp add: execute_slot_def isub_def cint_def vec_get_def)
    with assms(2) show ?thesis by blast
  next
    case (Some p)
    have p: "p < length (heap s)" using srv_inv_slotD(1) [OF assms(1) _ Some] i by simp
    obtain t where t: "execute_entry E seq p (heap s ! p) s = Inr t"
      using execute_entry_Ok [OF assms(1,2)] p assms(2) by (fastforce simp: solvent_def)
    have "execute_slot E seq s =
        (if mi_mstatus (heap s ! p) = COMMITTED then Inr (t, True)
         else if mi_mstatus (heap s ! p) \<noteq> EXECUTED then Inr (s, False) else Inr (s, True))"
      using i Some p t by (simp add: execute_slot_def isub_def cint_def vec_get_def deref_def)
    with assms(2) solvent_step [OF t assms(1,2) p] show ?thesis by auto
  qed
qed

lemma execute_from_Ok:
  "srv_inv E' s \<Longrightarrow> solvent s \<Longrightarrow> lastExecuted s < seq \<Longrightarrow>
     \<exists>t. execute_from E seq s = Inr t \<and> solvent t"
proof (induction E seq s rule: execute_from.induct)
  case (1 E seq s)
  show ?case
  proof (cases "seq \<le> currentSequence s")
    case False
    with "1.prems" show ?thesis by (simp add: execute_from.simps [of E seq])
  next
    case True
    obtain u go where u: "execute_slot E seq s = Inr (u, go)" and sol: "solvent u"
      using execute_slot_Ok [OF "1.prems" True] by blast
    note iu = execute_slot_inv [OF u "1.prems"(1,3)]
    have le: "iadd seq 1 = Inr (seq + 1)"
      using True "1.prems" by (auto simp: solvent_def int32_max_def srv_inv_def window_ok_def)
    show ?thesis
    proof (cases go)
      case go: True
      obtain t where "execute_from E (seq + 1) u = Inr t" "solvent t"
        using "1.IH" [OF True u refl go le] iu sol by auto
      with True u go le show ?thesis by (simp add: execute_from.simps [of E seq])
    next
      case False
      with True u sol show ?thesis by (simp add: execute_from.simps [of E seq])
    qed
  qed
qed

lemma executePending_Ok: "srv_inv E' s \<Longrightarrow> solvent s \<Longrightarrow> \<exists>t. executePending E s = Inr t \<and> solvent t"
  using execute_from_Ok [of E' s "lastExecuted s + 1" E]
  by (auto simp: executePending_def solvent_def srv_inv_def window_ok_def int32_max_def iadd_def cint_def)

end
