(* ===== verification/Server_Quorum.thy ===== *)
theory Server_Quorum
  imports Server_Accounts
begin

text \<open>
  Certificates: which events may make an entry prepared or committed, and how many votes of distinct
  senders they need.
\<close>

section \<open>What execution does to entries\<close>

text \<open>Execution turns committed entries into executed ones and changes nothing else of an entry
  but its result.\<close>

definition execd :: "MessageInfo list \<Rightarrow> MessageInfo list \<Rightarrow> bool" where
  "execd h h' \<longleftrightarrow> length h' = length h \<and>
     (\<forall>p. h' ! p = h ! p \<or> mi_mstatus (h ! p) = COMMITTED \<and>
        (\<exists>res. h' ! p = (h ! p)\<lparr>mi_mstatus := EXECUTED, mi_result := res\<rparr>))"

lemma execd_refl [simp]: "execd h h"
  by (simp add: execd_def)

lemma execd_trans:
  assumes "execd h h'" and "execd h' h''"
  shows "execd h h''"
proof -
  have "h'' ! p = h ! p \<or> mi_mstatus (h ! p) = COMMITTED \<and>
        (\<exists>res. h'' ! p = (h ! p)\<lparr>mi_mstatus := EXECUTED, mi_result := res\<rparr>)" for p
    using assms unfolding execd_def by (elim conjE allE [of _ p]) (elim disjE; auto)
  with assms show ?thesis by (auto simp: execd_def)
qed

lemma execute_slot_execd:
  assumes "execute_slot E seq s = Inr (t, go)"
  shows "execd (heap s) (heap t)"
proof -
  have "t = s \<or> (\<exists>p res. p < length (heap s) \<and> mi_mstatus (heap s ! p) = COMMITTED \<and>
      heap t = (heap s)[p := (heap s ! p)\<lparr>mi_mstatus := EXECUTED, mi_result := res\<rparr>])"
    using assms by (fastforce simp: execute_slot_def dest: execute_entry_heap split: option.splits if_splits)
  then show ?thesis
    by (auto simp: execd_def nth_list_update split: if_splits)
qed

lemma execute_from_execd: "execute_from E seq s = Inr t \<Longrightarrow> execd (heap s) (heap t)"
  by (erule execute_from_keeps) (auto intro: execd_trans execute_slot_execd)

lemma executePending_execd: "executePending E s = Inr t \<Longrightarrow> execd (heap s) (heap t)"
  by (auto simp: executePending_def dest: execute_from_execd)

section \<open>Justified changes\<close>

text \<open>Being committed or executed, and being at least prepared.\<close>

definition final :: "MessageInfo list \<Rightarrow> nat \<Rightarrow> bool" where
  "final h p \<longleftrightarrow> p < length h \<and> (mi_mstatus (h ! p) = COMMITTED \<or> mi_mstatus (h ! p) = EXECUTED)"

definition ready :: "MessageInfo list \<Rightarrow> nat \<Rightarrow> bool" where
  "ready h p \<longleftrightarrow> p < length h \<and> mi_mstatus (h ! p) = PREPARED"

text \<open>Every entry that became final has five commit proofs, and every entry that became
  prepared has four prepare proofs.\<close>

definition justified :: "MessageInfo list \<Rightarrow> MessageInfo list \<Rightarrow> bool" where
  "justified h h' \<longleftrightarrow>
     (\<forall>p. final h' p \<longrightarrow> final h p \<or> 5 \<le> length (mi_commitProofs (h' ! p))) \<and>
     (\<forall>p. ready h' p \<longrightarrow> ready h p \<or> 4 \<le> length (mi_prepareProofs (h' ! p)))"

lemma justified_refl [simp]: "justified h h"
  by (simp add: justified_def)

text \<open>Execution afterwards does not spoil it.\<close>

lemma justified_execd:
  assumes j: "justified h h'" and x: "execd h' h''"
  shows "justified h h''"
proof -
  have len: "length h'' = length h'" using x by (simp add: execd_def)
  have one: "h'' ! p = h' ! p \<or> mi_mstatus (h' ! p) = COMMITTED \<and>
      (\<exists>res. h'' ! p = (h' ! p)\<lparr>mi_mstatus := EXECUTED, mi_result := res\<rparr>)" for p
    using x by (simp add: execd_def)
  have "final h' p \<and> mi_commitProofs (h'' ! p) = mi_commitProofs (h' ! p)" if "final h'' p" for p
    using one [of p] that len by (auto simp: final_def)
  moreover have "ready h' p \<and> mi_prepareProofs (h'' ! p) = mi_prepareProofs (h' ! p)" if "ready h'' p" for p
    using one [of p] that len by (auto simp: ready_def)
  ultimately show ?thesis using j by (fastforce simp: justified_def)
qed

lemma justified_executePending:
  "executePending E s = Inr t \<Longrightarrow> justified h (heap s) \<Longrightarrow> justified h (heap t)"
  by (rule justified_execd [OF _ executePending_execd])

lemma nth_update_if: "(xs[i := x]) ! j = (if i = j \<and> j < length xs then x else xs ! j)"
  by (cases "i < length xs") (auto simp: nth_list_update list_update_beyond)

lemma justified_put:
  assumes "mi_mstatus e = COMMITTED \<or> mi_mstatus e = EXECUTED \<Longrightarrow>
             (mi_mstatus (h ! p) = COMMITTED \<or> mi_mstatus (h ! p) = EXECUTED) \<or>
             5 \<le> length (mi_commitProofs e)"
    and "mi_mstatus e = PREPARED \<Longrightarrow> mi_mstatus (h ! p) = PREPARED \<or> 4 \<le> length (mi_prepareProofs e)"
  shows "justified h (h[p := e])"
  using assms by (auto simp: justified_def final_def ready_def nth_update_if split: if_splits)

text \<open>A pre-prepared entry needs no justification.\<close>

lemma justified_put_fresh:
  "justified h h' \<Longrightarrow> mi_mstatus e = PRE_PREPARED \<Longrightarrow> justified h (h'[p := e])"
  by (auto simp: justified_def final_def ready_def nth_update_if split: if_splits)

lemma justified_alloc:
  assumes "mi_mstatus e \<noteq> COMMITTED" "mi_mstatus e \<noteq> EXECUTED" "mi_mstatus e \<noteq> PREPARED"
  shows "justified h (h @ [e])"
  using assms by (auto simp: justified_def final_def ready_def nth_append less_Suc_eq)

lemma justified_same: "h' = h \<Longrightarrow> justified h h'"
  by simp

section \<open>Every event justifies its changes\<close>

lemma same_heap:
  "forward d m s = Inr t \<Longrightarrow> heap t = heap s"
  "triggerViewChange E v s = Inr t \<Longrightarrow> heap t = heap s"
  "announce_view E v s = Inr t \<Longrightarrow> heap t = heap s"
  "make_stable c ci s = Inr t \<Longrightarrow> heap t = heap s"
  by (auto simp: forward_def emit_eq_sent start_timer_def triggerViewChange_def announce_view_def
      make_stable_def Let_def dest!: send_only)

lemma enter_view_heap: "enter_view E d s = Inr t \<Longrightarrow> heap t = heap s"
  unfolding enter_view_def send_new_view_ok_def Let_def
  by (drule each_sent) (auto dest: send_only)

lemma processNewView_heap: "processNewView E r s = Inr t \<Longrightarrow> heap t = heap s"
  using processNewView_cases [of E r s t] enter_view_heap by auto

lemma fire_heap:
  "fire_DigestTimer E d v n s = Inr t \<Longrightarrow> heap t = heap s"
  "fire_SeqTimer E q v n s = Inr t \<Longrightarrow> heap t = heap s"
  "fire_ViewTimer v n s = Inr t \<Longrightarrow> heap t = heap s"
  "fire_RetryTimer E nv s = Inr t \<Longrightarrow> heap t = heap s"
  by (auto simp: fire_DigestTimer_def fire_SeqTimer_def fire_ViewTimer_def fire_RetryTimer_def
      start_timer_def split: if_splits dest!: same_heap processNewView_heap)

lemma processCheckpoint_heap: "processCheckpoint E r s = Inr t \<Longrightarrow> heap t = heap s"
  unfolding processCheckpoint_def Let_def by (auto split: if_splits dest!: same_heap)

lemma processViewChange_heap: "processViewChange E r s = Inr t \<Longrightarrow> heap t = heap s"
  unfolding processViewChange_def Let_def
  by (auto split: if_splits simp: start_timer_def dest!: same_heap)

lemma GetDB_heap: "heap (snd (GetDB s)) = heap s"
  by (simp add: GetDB_def split: prod.split)

lemma propose_justified: "propose E m d s = Inr t \<Longrightarrow> justified (heap s) (heap t)"
  by (auto simp: propose_def Let_def proposed_entry_def intro!: justified_alloc dest!: send_only)

lemma repropose_justified: "repropose E m p (heap s ! p) s = Inr t \<Longrightarrow> justified (heap s) (heap t)"
  by (auto simp: repropose_def Let_def dest!: send_only intro!: justified_put)

lemma accept_prePrepare_justified:
  "accept_prePrepare E r n p s = Inr t \<Longrightarrow> justified h (heap s) \<Longrightarrow> justified h (heap t)"
  by (auto simp: accept_prePrepare_def Let_def start_timer_def split: if_splits
      dest!: send_only(1) intro!: justified_put_fresh)

lemma processTransfer_justified: "processTransfer E m s = Inr t \<Longrightarrow> justified (heap s) (heap t)"
  unfolding processTransfer_def Let_def
  by (auto split: if_splits dest!: find_entry_cases send_only(2) same_heap(1)
      intro: propose_justified repropose_justified)

lemma processPrePrepare_justified: "processPrePrepare E r s = Inr t \<Longrightarrow> justified (heap s) (heap t)"
  unfolding processPrePrepare_def Let_def
  by (auto split: if_splits option.splits elim!: accept_prePrepare_justified
      intro!: justified_alloc simp: new_MessageInfo_def)

lemma processPrePrepareOk_justified:
  "processPrePrepareOk E r s = Inr t \<Longrightarrow> pbft_f s = 2 \<Longrightarrow> justified (heap s) (heap t)"
  unfolding processPrePrepareOk_def Let_def
  by (auto split: if_splits simp: start_timer_def log_entry_Ok_iff intro!: justified_put)

lemma processPrepare_justified:
  "processPrepare E r s = Inr t \<Longrightarrow> pbft_f s = 2 \<Longrightarrow> justified (heap s) (heap t)"
  unfolding processPrepare_def Let_def
  by (auto split: if_splits option.splits dest!: send_only(1) intro!: justified_put)

lemma processPrepareOk_justified:
  "processPrepareOk E r s = Inr t \<Longrightarrow> pbft_f s = 2 \<Longrightarrow> justified (heap s) (heap t)"
  unfolding processPrepareOk_def Let_def
  by (auto split: if_splits simp: log_entry_Ok_iff dest!: send_only(3)
      elim!: justified_executePending intro!: justified_put)

lemma processCommit_justified:
  "processCommit E r s = Inr t \<Longrightarrow> pbft_f s = 2 \<Longrightarrow> justified (heap s) (heap t)"
  unfolding processCommit_def Let_def
  by (auto split: if_splits option.splits elim!: justified_executePending intro!: justified_put)

lemma fire_OptimisticTimer_justified:
  assumes "fire_OptimisticTimer E n s = Inr t" and "pbft_f s = 2"
  shows "justified (heap s) (heap t)"
proof -
  have six: "5 \<le> length (sm_put (serverId s) r m)" if "int (length m) = 6" for r and m :: "(int, Request) smap"
    using length_sm_put_ge [of m "serverId s" r] that by simp
  show ?thesis
    using assms six unfolding fire_OptimisticTimer_def Let_def
    by (auto split: if_splits simp: log_entry_Ok_iff dest!: send_only(3)
        elim!: justified_executePending intro!: justified_put)
qed

lemmas heaps_kept = processNewView_heap processCheckpoint_heap processViewChange_heap fire_heap

lemmas events_justified = processTransfer_justified processPrePrepare_justified
  processPrePrepareOk_justified processPrepare_justified processPrepareOk_justified
  processCommit_justified fire_OptimisticTimer_justified heaps_kept [THEN justified_same]

lemma handle_justified: "handle E ev s = Inr t \<Longrightarrow> pbft_f s = 2 \<Longrightarrow> justified (heap s) (heap t)"
proof (cases ev)
  case (Rpc p)
  assume "handle E ev s = Inr t" and "pbft_f s = 2"
  with Rpc show ?thesis by (cases p) (auto intro: events_justified)
next
  case (Fire x)
  assume "handle E ev s = Inr t" and "pbft_f s = 2"
  with Fire show ?thesis by (cases x) (auto intro: events_justified)
qed (auto simp: GetDB_heap)


section \<open>Sent messages are never withdrawn\<close>

lemma checkpoint_outbox: "checkpoint E s = Inr t \<Longrightarrow> \<exists>xs. outbox t = outbox s @ xs"
  by (auto simp: checkpoint_def Let_def dest!: send_only(7))

lemma execute_slot_outbox: "execute_slot E seq s = Inr (t, go) \<Longrightarrow> \<exists>xs. outbox t = outbox s @ xs"
  by (fastforce simp: execute_slot_def execute_entry_def Let_def dest!: send_only(2) checkpoint_outbox
      split: option.splits if_splits)

lemma execute_from_outbox: "execute_from E seq s = Inr t \<Longrightarrow> \<exists>xs. outbox t = outbox s @ xs"
  by (erule execute_from_keeps) (auto dest: execute_slot_outbox)

lemma executePending_outbox: "executePending E s = Inr t \<Longrightarrow> \<exists>xs. outbox t = outbox s @ xs"
  by (auto simp: executePending_def dest: execute_from_outbox)

end
