(* ===== verification/Server_Safety.thy ===== *)
theory Server_Safety
  imports Server_Quorum
begin

text \<open>
  The properties of a single server over a whole run: its invariant, what only ever advances, the
  meaning of execution for the accounts, and the votes that a prepared or committed entry needs.
\<close>

section \<open>The invariant and the evolution of a run\<close>

text \<open>
  C7: every state that a server reaches from its constructor, whatever messages and timers it handles,
  has the invariant \<open>srv_inv\<close>: the window is twenty slots wide and starts just above the stable
  checkpoint, every log entry sits in the slot of the sequence number it was agreed for, no entry lies
  beyond \<open>currentSequence\<close>, nothing above \<open>lastExecuted\<close> is executed, every entry's digest is the
  digest of its message and its message carries a client's signature.
\<close>

theorem reachable_invariant:
  assumes "server_reach E i s" and "0 \<le> i" and "i < 7"
  shows "srv_inv E s \<and> serverId s = i"
  using assms by (rule server_reach_inv)

theorem reachable_invariant_witness:
  "\<exists>s. server_reach sample_env 0 s \<and> lastExecuted s = 0 \<and> srv_inv sample_env s \<and> serverId s = 0"
proof (rule sample_reach)
  fix t assume "server_reach sample_env 0 t" and "lastExecuted t = 0"
  then show ?thesis using reachable_invariant [of sample_env 0 t] by auto
qed

lemma reach_keeps:
  assumes "server_reach E i s" and "0 \<le> i" and "i < 7" and "rtranclp (next_state E) s t"
  shows "evolves s t"
  using server_run_keeps [OF assms(4)] server_reach_inv [OF assms(1-3)] by (simp add: keeps_def)

lemma next_state_run: "server_step E s ev t \<Longrightarrow> rtranclp (next_state E) s t"
  by (rule r_into_rtranclp) (auto simp: next_state_def)

text \<open>
  C8: in the course of a run the view, the proposed and the executed sequence number and the window
  never go back, and a sequence number that has an entry keeps one for as long as it is in the
  window.
\<close>

theorem run_advances:
  assumes "server_reach E i s" and "0 \<le> i" and "i < 7" and "rtranclp (next_state E) s t"
  shows "currentView s \<le> currentView t \<and> currentSequence s \<le> currentSequence t \<and>
     lowWatermark s \<le> lowWatermark t \<and> lastExecuted s \<le> lastExecuted t \<and>
     (\<forall>n. entry_at s n \<noteq> None \<longrightarrow> lowWatermark t \<le> n \<longrightarrow> entry_at t n \<noteq> None)"
  using reach_keeps [OF assms] by (fastforce simp: evolves_def)

theorem run_advances_witness:
  "\<exists>s t. rtranclp (next_state sample_env) s t \<and> lastExecuted t = 0 \<and> lastExecuted s \<le> lastExecuted t"
proof (rule sample_reach)
  fix u t assume "server_reach sample_env 0 u" and "lastExecuted t = 0"
    and "server_step sample_env u
           (Rpc (P_Commit (certificate (proposal 1 0 request1) [1, 2, 3, 4, 5]))) t"
  then show ?thesis
    using run_advances [of sample_env 0 u t] next_state_run by fastforce
qed

text \<open>
  A server never has two requests for one sequence number in one view: if the entry of a
  sequence number has the same view at two moments of a run, it has the same digest.
\<close>

theorem one_request_per_view:
  assumes "server_reach E i s" and "0 \<le> i" and "i < 7" and "rtranclp (next_state E) s t"
    and "entry_at s n = Some e" and "entry_at t n = Some e'" and "entry_view e' = entry_view e"
  shows "entry_digest e' = entry_digest e"
proof -
  have "lowWatermark t \<le> n" using assms(6) by (auto simp: entry_at_def split: if_splits)
  with reach_keeps [OF assms(1-4)] assms(5,6) have "entry_le e e'" by (fastforce simp: evolves_def)
  with assms(7) show ?thesis by (simp add: entry_le_def)
qed

lemma sample_run_entries:
  "holds (processPrePrepare sample_env (proposal 1 0 request1) replica) (\<lambda>u.
     holds (processCommit sample_env (certificate (proposal 1 0 request1) [1, 2, 3, 4, 5]) u) (\<lambda>t.
       entry_at u 0 \<noteq> None \<and> map_option entry_view (entry_at u 0) = map_option entry_view (entry_at t 0)))"
  by code_simp

theorem one_request_per_view_witness:
  "\<exists>s t e e'. rtranclp (next_state sample_env) s t \<and> entry_at s 0 = Some e \<and> entry_at t 0 = Some e' \<and>
     mi_mstatus e = PRE_PREPARED \<and> entry_digest e' = entry_digest e"
proof (rule sample_reach)
  fix u t assume r: "server_reach sample_env 0 u" and st: "server_step sample_env u
           (Rpc (P_Commit (certificate (proposal 1 0 request1) [1, 2, 3, 4, 5]))) t"
    and u: "processPrePrepare sample_env (proposal 1 0 request1) replica = Inr u"
    and t: "processCommit sample_env (certificate (proposal 1 0 request1) [1, 2, 3, 4, 5]) u = Inr t"
  obtain e e' where e: "entry_at u 0 = Some e" "entry_at t 0 = Some e'" "entry_view e' = entry_view e"
    using sample_run_entries u t by (cases "entry_at t 0") (auto simp: holds_iff)
  have "holds (processPrePrepare sample_env (proposal 1 0 request1) replica)
      (\<lambda>u. map_option mi_mstatus (entry_at u 0) = Some PRE_PREPARED)" by code_simp
  then have "mi_mstatus e = PRE_PREPARED" using u e by (auto simp: holds_iff)
  then show ?thesis
    using one_request_per_view [OF r _ _ next_state_run [OF st] e] next_state_run [OF st] e by auto
qed

section \<open>Execution\<close>

text \<open>
  C9: \<open>executePending\<close> refines the ledger. It executes the committed requests from \<open>lastExecuted + 1\<close>
  on, in sequence order, up to the first entry that is neither committed nor executed; the balances
  become what the ledger has after those requests, each client gets the ledger's verdict on its
  request, in the same order, \<open>lastExecuted\<close> is the last of them, and exactly their entries become
  executed.
\<close>

theorem executePending_refines_ledger:
  assumes "executePending E s = Inr t" and "srv_inv E s"
  shows "let ms = messages_at s (to_execute s); (L, verdict) = run_ledger ms (ledger_of (balances s)) in
     ledger_of (balances t) = L \<and>
     client_replies (outbox t) = client_replies (outbox s) @ verdicts ms verdict \<and>
     lastExecuted t = (if to_execute s = [] then lastExecuted s else fst (last (to_execute s))) \<and>
     (\<forall>p. mi_mstatus (heap t ! p) =
        (if p \<in> snd ` set (to_execute s) then EXECUTED else mi_mstatus (heap s ! p)))"
  using executePending_spec [OF assms] by (simp add: executes_def Let_def)

text \<open>The sample for execution: a committed entry in the first slot of a fresh replica.\<close>

definition committed_entry :: "Message \<Rightarrow> int \<Rightarrow> MessageInfo" where
  "committed_entry m n =
     \<lparr>mi_m = m, mi_mstatus = COMMITTED, mi_result = False, mi_prePrepare = pp_r (proposal 1 n m),
      mi_prepareProofs = [], mi_commitProofs = [], mi_startTime = 0\<rparr>"

definition ready_replica :: srv where
  "ready_replica = replica\<lparr>currentSequence := 0, heap := [committed_entry request1 0],
     log := (log replica)[0 := Some 0]\<rparr>"

lemma committed_entry_sel [simp]:
  "mi_m (committed_entry m n) = m" "mi_mstatus (committed_entry m n) = COMMITTED"
  "entry_view (committed_entry m n) = 1" "entry_seq (committed_entry m n) = n"
  by (simp_all add: committed_entry_def entry_view_def entry_seq_def)

lemma committed_entry_ok: "verifySignature_Message sample_env m \<Longrightarrow> entry_ok sample_env (committed_entry m n)"
  by (simp add: entry_ok_def committed_entry_def)

lemma ready_replica_inv: "srv_inv sample_env ready_replica"
proof -
  have inv: "srv_inv sample_env replica" by (simp add: replica_def srv_inv_init)
  have f: "heap replica = []" "currentView replica = 1" "lowWatermark replica = 0"
      "currentSequence replica = -1" "highWatermark replica = 19"
    by (simp_all add: replica_def PbftServerImpl_def)
  have "srv_inv sample_env (replica\<lparr>currentSequence := 0, heap := heap replica @ [committed_entry request1 0],
      log := (log replica)[0 := Some (length (heap replica))]\<rparr>)"
    by (rule srv_inv_alloc [OF inv]) (simp_all add: f committed_entry_ok request1_def)
  then show ?thesis by (simp add: ready_replica_def f)
qed

theorem executePending_refines_ledger_witness:
  "\<exists>t. executePending sample_env ready_replica = Inr t \<and>
     ledger_of (balances t) ''B'' = ledger_of (balances ready_replica) ''B'' + 4"
proof -
  have h: "holds (executePending sample_env ready_replica) (\<lambda>t. True)" by code_simp
  then obtain t where t: "executePending sample_env ready_replica = Inr t" by (auto simp: holds_iff)
  have ms: "map ms_data (messages_at ready_replica (to_execute ready_replica)) = [pay ''A'' ''B'' 4]"
    by code_simp
  then obtain m where m: "messages_at ready_replica (to_execute ready_replica) = [m]"
    "ms_data m = pay ''A'' ''B'' 4"
    by auto
  have A: "ledger_of (balances ready_replica) ''A'' = 10" by code_simp
  have "ledger_of (balances t) = fst (run_ledger [m] (ledger_of (balances ready_replica)))"
    using executePending_refines_ledger [OF t ready_replica_inv]
    by (simp add: m(1) Let_def split: prod.splits del: run_ledger.simps)
  then show ?thesis
    using t by (simp add: m(2) A ledger_apply_def pay_def Let_def)
qed

text \<open>
  C10: when no balance and no amount is negative, the clients' ids have stubs and the sum of the balances
  fits an \<open>int\<close>, \<open>executePending\<close> always returns: no arithmetic overflows, no access leaves the log
  or the stub tables, the loop ends, and again no balance is negative.
\<close>

theorem executePending_returns:
  assumes "srv_inv E s" and "nonneg (balances s)" and "sm_total (balances s) \<le> int32_max"
    and "\<forall>e \<in> set (heap s). payable (mi_m e)" and "currentSequence s < int32_max"
  shows "\<exists>t. executePending E s = Inr t \<and> nonneg (balances t)"
proof -
  have "solvent s" using assms(2-5) by (simp add: solvent_def)
  from executePending_Ok [OF assms(1) this, of E] show ?thesis by (auto simp: solvent_def)
qed

theorem executePending_returns_witness:
  "\<exists>t. executePending sample_env ready_replica = Inr t \<and> nonneg (balances t)"
proof (rule executePending_returns [OF ready_replica_inv])
  show "nonneg (balances ready_replica)" and "sm_total (balances ready_replica) \<le> int32_max"
    by (simp_all add: ready_replica_def replica_def PbftServerImpl_def initial_balances_eq nonneg_def
        sm_total_def sm_vals_def int32_max_def)
qed (simp_all add: ready_replica_def payable_def request1_def pay_def int32_max_def)

text \<open>
  C12: money is conserved: in every state that a server reaches, whatever it received, the balances add
  up to the hundred units they started with.
\<close>

theorem money_conserved:
  assumes "server_reach E i s"
  shows "sm_total (balances s) = 100"
  using server_reach_money [OF assms] by simp

theorem money_conserved_witness:
  "\<exists>s. server_reach sample_env 0 s \<and> lastExecuted s = 0 \<and> sm_total (balances s) = 100"
proof (rule sample_reach)
  fix t assume "server_reach sample_env 0 t" and "lastExecuted t = 0"
  then show ?thesis using money_conserved [of sample_env 0 t] by auto
qed

section \<open>Quorums\<close>

text \<open>
  C14: whatever event a server handles, an entry that is committed or executed afterwards and was
  neither before has commit proofs of at least five different senders.
\<close>

theorem commit_needs_quorum:
  assumes "srv_inv E s" and "handle E ev s = Inr t" and "p < length (heap t)"
    and "mi_mstatus (heap t ! p) \<in> {COMMITTED, EXECUTED}"
    and "p < length (heap s) \<Longrightarrow> mi_mstatus (heap s ! p) \<notin> {COMMITTED, EXECUTED}"
  shows "5 \<le> card (sm_keys (mi_commitProofs (heap t ! p)))"
proof -
  have "srv_inv E t" using handle_keeps [OF assms(2)] assms(1) by (simp add: keeps_def)
  then have "sm_wf (mi_commitProofs (heap t ! p))"
    using srv_inv_entryD assms(3) by (simp add: entry_ok_def votes_wf_def)
  moreover have "pbft_f s = 2" using assms(1) by (simp add: srv_inv_def config_ok_def)
  ultimately show ?thesis
    using handle_justified [OF assms(2)] assms(3-5)
    by (auto simp: justified_def final_def sm_size_keys [symmetric])
qed

lemma sample_run_commits:
  "holds (processPrePrepare sample_env (proposal 1 0 request1) replica) (\<lambda>u.
     holds (processCommit sample_env (certificate (proposal 1 0 request1) [1, 2, 3, 4, 5]) u) (\<lambda>t.
       length (heap t) = 1 \<and> mi_mstatus (heap u ! 0) = PRE_PREPARED \<and> mi_mstatus (heap t ! 0) = EXECUTED))"
  by code_simp

theorem commit_needs_quorum_witness:
  "\<exists>s t. processCommit sample_env (certificate (proposal 1 0 request1) [1, 2, 3, 4, 5]) s = Inr t \<and>
     mi_mstatus (heap t ! 0) = EXECUTED \<and> 5 \<le> card (sm_keys (mi_commitProofs (heap t ! 0)))"
proof (rule sample_reach)
  fix u t assume r: "server_reach sample_env 0 u"
    and u: "processPrePrepare sample_env (proposal 1 0 request1) replica = Inr u"
    and t: "processCommit sample_env (certificate (proposal 1 0 request1) [1, 2, 3, 4, 5]) u = Inr t"
  have st: "length (heap t) = 1" "mi_mstatus (heap u ! 0) = PRE_PREPARED" "mi_mstatus (heap t ! 0) = EXECUTED"
    using sample_run_commits u t by (simp_all add: holds_iff)
  have h: "handle sample_env (Rpc (P_Commit (certificate (proposal 1 0 request1) [1, 2, 3, 4, 5]))) u = Inr t"
    using t by simp
  show ?thesis
    using commit_needs_quorum [OF _ h, of 0] server_reach_inv [OF r] st t by auto
qed

text \<open>
  C15: whatever event a server handles, an entry that is prepared afterwards and was not before has
  prepare proofs of at least four different senders.
\<close>

theorem prepare_needs_quorum:
  assumes "srv_inv E s" and "handle E ev s = Inr t" and "p < length (heap t)"
    and "mi_mstatus (heap t ! p) = PREPARED"
    and "p < length (heap s) \<Longrightarrow> mi_mstatus (heap s ! p) \<noteq> PREPARED"
  shows "4 \<le> card (sm_keys (mi_prepareProofs (heap t ! p)))"
proof -
  have "srv_inv E t" using handle_keeps [OF assms(2)] assms(1) by (simp add: keeps_def)
  then have "sm_wf (mi_prepareProofs (heap t ! p))"
    using srv_inv_entryD assms(3) by (simp add: entry_ok_def votes_wf_def)
  moreover have "pbft_f s = 2" using assms(1) by (simp add: srv_inv_def config_ok_def)
  ultimately show ?thesis
    using handle_justified [OF assms(2)] assms(3-5)
    by (auto simp: justified_def ready_def sm_size_keys [symmetric])
qed

lemma sample_run_prepares:
  "holds (processPrePrepare sample_env (proposal 1 0 request1) replica) (\<lambda>u.
     holds (processPrepare sample_env (certificate (proposal 1 0 request1) [2, 3, 4]) u) (\<lambda>t.
       length (heap t) = 1 \<and> mi_mstatus (heap u ! 0) = PRE_PREPARED \<and> mi_mstatus (heap t ! 0) = PREPARED))"
  by code_simp

theorem prepare_needs_quorum_witness:
  "\<exists>s t. processPrepare sample_env (certificate (proposal 1 0 request1) [2, 3, 4]) s = Inr t \<and>
     mi_mstatus (heap t ! 0) = PREPARED \<and> 4 \<le> card (sm_keys (mi_prepareProofs (heap t ! 0)))"
proof (rule sample_reach)
  fix u assume r: "server_reach sample_env 0 u"
    and u: "processPrePrepare sample_env (proposal 1 0 request1) replica = Inr u"
  obtain t where t: "processPrepare sample_env (certificate (proposal 1 0 request1) [2, 3, 4]) u = Inr t"
    and st: "length (heap t) = 1" "mi_mstatus (heap u ! 0) = PRE_PREPARED" "mi_mstatus (heap t ! 0) = PREPARED"
    using sample_run_prepares u by (auto simp: holds_iff)
  have h: "handle sample_env (Rpc (P_Prepare (certificate (proposal 1 0 request1) [2, 3, 4]))) u = Inr t"
    using t by simp
  show ?thesis
    using prepare_needs_quorum [OF _ h, of 0] server_reach_inv [OF r] st t by auto
qed

end
