(* ===== verification/Server_Behaviour.thy ===== *)
theory Server_Behaviour
  imports Server_Safety
begin

text \<open>
  What the handlers of the normal case do, case by case: proposals, votes, certificates, the optimistic
  timer, requests that were executed before, and the ways in which a message can make a handler
  fault.
\<close>

section \<open>Entries and slots\<close>

lemma entry_at_ptr:
  "entry_at s n = Some e \<longleftrightarrow> (\<exists>p. 0 \<le> n - lowWatermark s \<and> n - lowWatermark s < int (length (log s)) \<and>
     log s ! nat (n - lowWatermark s) = Some p \<and> e = heap s ! p)"
  by (auto simp: entry_at_def split: option.splits)

text \<open>A slot can be read exactly when its sequence number has an entry.\<close>

lemma log_entry_returns:
  assumes "srv_inv E s"
  shows "(\<exists>p e. log_entry s (n - lowWatermark s) = Inr (p, e)) \<longleftrightarrow> entry_at s n \<noteq> None"
proof -
  have "p < length (heap s)"
    if "0 \<le> n - lowWatermark s" "n - lowWatermark s < 20" "log s ! nat (n - lowWatermark s) = Some p" for p
    using srv_inv_slotD(1) [OF assms, of "nat (n - lowWatermark s)" p] that by simp
  moreover have "length (log s) = 20" using assms by (simp add: srv_inv_def window_ok_def)
  ultimately show ?thesis
    by (auto simp: log_entry_Ok_iff entry_at_def split: option.splits)
qed

section \<open>Proposals\<close>

text \<open>The state that acceptance leads to, timer and message aside.\<close>

lemma accept_prePrepare_effect:
  assumes "accept_prePrepare E r n p s = Inr t" and "getLeaderId s = sv_server_id (rq_sig_vec (pp_r r))"
    and "config_ok s" and "0 \<le> currentView s"
  shows "p < length (heap s) \<and>
     heap t = (heap s)[p := accepted_entry E r (own_prePrepareOk E (pp_r r) s) s (heap s ! p)] \<and>
     log t = log s \<and> lowWatermark t = lowWatermark s \<and>
     sm_find (digestToEntry t) (cx_digest (rq_data (pp_r r))) = Some p \<and>
     outbox t = outbox s @ (if isByzantine s then []
       else [ToServer (getLeaderId s) (P_PrePrepareOk (own_prePrepareOk E (pp_r r) s))]) \<and>
     futures t = futures s @ [SeqTimer n (currentView s + 1) (viewChangeTimeoutDelta s)]"
  using assms(1) getLeaderId_range [OF assms(3,4)] assms(2)
  unfolding accept_prePrepare_def Let_def
  by (auto simp: sendRequest_def start_timer_def emit_eq_sent split: if_splits)

text \<open>Acceptance, from a state that agrees with \<open>s\<close> on the window and the outbox.\<close>

definition agrees :: "srv \<Rightarrow> srv \<Rightarrow> bool" where
  "agrees s u \<longleftrightarrow> serverId u = serverId s \<and> isByzantine u = isByzantine s \<and> currentView u = currentView s \<and>
     clusterSize u = clusterSize s \<and> lowWatermark u = lowWatermark s \<and> outbox u = outbox s \<and> futures u = futures s \<and>
     viewChangeTimeoutDelta u = viewChangeTimeoutDelta s \<and> config_ok u = config_ok s \<and> length (log u) = length (log s)"

lemma agrees_proposal [simp]:
  "agrees s (note_proposal r s)" "agrees s (free_slot E i (note_proposal r s))"
  by (simp_all add: agrees_def note_proposal_def free_slot_def config_ok_def)

lemma accept_outcome:
  assumes acc: "accept_prePrepare E r n p u = Inr t" and v: "valid_proposal E r s" and u: "agrees s u"
    and conf: "config_ok s" "0 \<le> currentView s" and len: "length (log s) = 20"
    and n: "0 \<le> n - lowWatermark s" "n - lowWatermark s < 20" and at: "log u ! nat (n - lowWatermark s) = Some p"
  shows "\<exists>e ok. entry_at t n = Some e \<and> mi_m e = pp_m r \<and> mi_mstatus e = PRE_PREPARED \<and>
     mi_prePrepare e = pp_r r \<and> mi_prepareProofs e = [(serverId s, ok)] \<and> mi_commitProofs e = [] \<and>
     rq_data ok = rq_data (pp_r r) \<and>
     outbox t = outbox s @ (if isByzantine s then [] else [ToServer (getLeaderId s) (P_PrePrepareOk ok)]) \<and>
     futures t = futures s @ [SeqTimer n (currentView s + 1) (viewChangeTimeoutDelta s)]"
proof -
  let ?ok = "own_prePrepareOk E (pp_r r) u" and ?e = "accepted_entry E r (own_prePrepareOk E (pp_r r) u) u (heap u ! p)"
  note eff = accept_prePrepare_effect [OF acc]
  have lead: "getLeaderId u = sv_server_id (rq_sig_vec (pp_r r))" "getLeaderId u = getLeaderId s"
    using v u by (simp_all add: valid_proposal_def agrees_def getLeaderId_def)
  have "entry_at t n = Some ?e" using eff lead(1) conf u n len at by (simp add: entry_at_def agrees_def)
  moreover have "rq_data ?ok = rq_data (pp_r r)" by (simp add: own_prePrepareOk_def Let_def)
  ultimately show ?thesis using eff lead conf u by (intro exI [of _ ?e] exI [of _ ?ok]) (simp add: agrees_def)
qed

text \<open>
  C17: a proposal that fails a check of \<open>processPrePrepare\<close> changes nothing. A proposal that passes
  them all, for a slot that does not hold another request of this or a later view, becomes the
  slot's entry, pre-prepared, with the replica's own vote as its only proof, and the replica votes for it
  to the leader and starts the timer that watches its execution; for an occupied slot only
  \<open>currentSequence\<close> and \<open>awaitedDigests\<close> change.
\<close>

theorem prePrepare_outcome:
  assumes "srv_inv E s" and "processPrePrepare E r s = Inr t"
  defines "n \<equiv> cx_sequence_num (rq_data (pp_r r))" and "d \<equiv> cx_digest (rq_data (pp_r r))"
  shows "\<not> valid_proposal E r s \<and> t = s \<or>
     valid_proposal E r s \<and> (\<exists>e. entry_at s n = Some e \<and> conflicting (currentView s) d e) \<and>
       t = s\<lparr>awaitedDigests := awaitedDigests s - {d}, currentSequence := max n (currentSequence s)\<rparr> \<or>
     valid_proposal E r s \<and> (\<forall>e. entry_at s n = Some e \<longrightarrow> \<not> conflicting (currentView s) d e) \<and>
       (\<exists>e ok. entry_at t n = Some e \<and> mi_m e = pp_m r \<and> mi_mstatus e = PRE_PREPARED \<and>
          mi_prePrepare e = pp_r r \<and> mi_prepareProofs e = [(serverId s, ok)] \<and> mi_commitProofs e = [] \<and>
          rq_data ok = rq_data (pp_r r) \<and>
          outbox t = outbox s @ (if isByzantine s then [] else [ToServer (getLeaderId s) (P_PrePrepareOk ok)]) \<and>
          futures t = futures s @ [SeqTimer n (currentView s + 1) (viewChangeTimeoutDelta s)])"
proof -
  have conf: "config_ok s" "0 \<le> currentView s" and len: "length (log s) = 20"
    using assms(1) by (auto simp: srv_inv_def window_ok_def)
  note slot = valid_proposal_slot [OF assms(1), of r, folded n_def]
  from assms(2) show ?thesis
  proof (cases rule: processPrePrepare_cases)
    case (busy p)
    then show ?thesis using slot [OF busy(1)] len by (auto simp: entry_at_def note_proposal_def n_def d_def)
  next
    case fresh
    have at: "log (free_slot E (nat (n - lowWatermark s)) (note_proposal r s)) ! nat (n - lowWatermark s) =
        Some (length (heap s))"
      using len slot(1) [OF fresh(1)] by (simp add: free_slot_def note_proposal_def)
    from accept_outcome [OF fresh(3) [folded n_def] fresh(1) agrees_proposal(2) conf len slot(3,4) [OF fresh(1)] at]
      fresh(1,2) len show ?thesis
      by (auto simp: entry_at_def n_def)
  next
    case (again p)
    have at: "log (note_proposal r s) ! nat (n - lowWatermark s) = Some p"
      using again(3) by (simp add: note_proposal_def n_def)
    from accept_outcome [OF again(5) [folded n_def] again(1) agrees_proposal(1) conf len slot(3,4) [OF again(1)] at]
      again len show ?thesis
      by (auto simp: entry_at_def n_def d_def)
  qed simp
qed

lemma sample_proposal_valid:
  "valid_proposal sample_env (proposal 1 0 request1) replica \<and> entry_at replica 0 = None"
  by code_simp

lemma replica_inv: "srv_inv sample_env replica"
  by (simp add: replica_def srv_inv_init)

theorem prePrepare_outcome_witness:
  "\<exists>t e. processPrePrepare sample_env (proposal 1 0 request1) replica = Inr t \<and>
     entry_at t 0 = Some e \<and> mi_mstatus e = PRE_PREPARED \<and> mi_m e = request1"
proof (rule sample_reach)
  fix u assume u: "processPrePrepare sample_env (proposal 1 0 request1) replica = Inr u"
  show ?thesis
    using prePrepare_outcome [OF replica_inv u] sample_proposal_valid u by auto
qed

section \<open>Votes\<close>

text \<open>
  C18: when a leader in the normal state handles a vote for a proposal, the handler returns exactly
  when the vote's signature vector reaches to the leader's own position and the log has an entry for the
  vote's sequence number. Nothing checks either of the two, so any other vote is an access outside a
  vector or through a null pointer.
\<close>

theorem vote_returns_iff:
  assumes "srv_inv E s" and "srvState s = NORMAL_STATE" and "serverId s = getLeaderId s"
    and "in_int32 (cx_sequence_num (rq_data r) - lowWatermark s)"
  shows "(\<exists>t. processPrePrepareOk E r s = Inr t) \<longleftrightarrow>
     serverId s < int (length (sv_signatures (rq_sig_vec r))) \<and>
     entry_at s (cx_sequence_num (rq_data r)) \<noteq> None"
proof -
  have id: "0 \<le> serverId s" using assms(1) by (simp add: srv_inv_def config_ok_def)
  have sig: "(\<exists>b. verifySignature_Request E s r = Inr b) \<longleftrightarrow>
      serverId s < int (length (sv_signatures (rq_sig_vec r)))"
    using id by (auto simp: verifySignature_Request_def verifyMAC_def)
  have true: "verifySignature_Request E s r = Inr b \<Longrightarrow> b" for b
    by (auto simp: verifySignature_Request_def verifyMAC_def)
  let ?n = "cx_sequence_num (rq_data r)"
  have body: "(\<exists>t. processPrePrepareOk E r s = Inr t) \<longleftrightarrow>
      (\<exists>b. verifySignature_Request E s r = Inr b) \<and> (\<exists>p e. log_entry s (?n - lowWatermark s) = Inr (p, e))"
    using assms(2-4) true unfolding processPrePrepareOk_def Let_def
    by (auto simp: result_simps) (metis (no_types, lifting) case_prod_conv)
  show ?thesis unfolding body sig log_entry_returns [OF assms(1)] ..
qed

text \<open>A vote of server \<open>i\<close> for a proposal.\<close>

definition vote :: "PrePrepareRequest \<Rightarrow> int \<Rightarrow> Request" where
  "vote r i = \<lparr>rq_data = rq_data (pp_r r),
     rq_sig_vec = \<lparr>sv_signatures = replicate 7 '''', sv_server_id = i\<rparr>\<rparr>"

lemma leader_inv: "srv_inv sample_env leader"
  by (simp add: leader_def srv_inv_init)

theorem vote_returns_iff_witness:
  "\<not> (\<exists>t. processPrePrepareOk sample_env (vote (proposal 1 0 request1) 3) leader = Inr t)"
proof -
  have "srvState leader = NORMAL_STATE \<and> serverId leader = getLeaderId leader \<and> entry_at leader 0 = None \<and>
      lowWatermark leader = 0" by code_simp
  then show ?thesis
    using vote_returns_iff [OF leader_inv, of "vote (proposal 1 0 request1) 3"]
    by (simp add: vote_def)
qed

section \<open>Certificates\<close>

text \<open>The loop over a certificate that matches the proposal and whose vectors are long enough: every
  sender is counted.\<close>

lemma add_proofs_all:
  assumes "cx_view_num d = cx_view_num pp" and "cx_digest d = cx_digest pp" and "0 \<le> serverId s"
    and "\<forall>sv \<in> set svs. serverId s < int (length (sv_signatures sv))"
  shows "\<exists>m'. add_proofs E s d pp svs m = Inr m' \<and> sm_keys m' = sv_server_id ` set svs \<union> sm_keys m"
  using assms(4)
proof (induction svs arbitrary: m)
  case (Cons sv svs)
  have "\<exists>b. vec_get (sv_signatures sv) (serverId s) = Inr b" using Cons.prems assms(3) by simp
  then have step: "add_proofs E s d pp (sv # svs) m =
      add_proofs E s d pp svs (sm_put (sv_server_id sv) \<lparr>rq_data = d, rq_sig_vec = sv\<rparr> m)"
    using assms(1,2) by (auto simp: verifyMAC_def Let_def)
  show ?case unfolding step
    using Cons.IH [of "sm_put (sv_server_id sv) \<lparr>rq_data = d, rq_sig_vec = sv\<rparr> m"] Cons.prems by auto
qed simp

lemma executePending_final:
  assumes "executePending E s = Inr t" and "log s ! i = Some p" and "mi_mstatus (heap s ! p) = COMMITTED"
    and "p < length (heap s)"
  shows "log t ! i = Some p \<and> mi_mstatus (heap t ! p) \<in> {COMMITTED, EXECUTED}"
proof -
  have "heap t ! p = heap s ! p \<or> (\<exists>res. heap t ! p = (heap s ! p)\<lparr>mi_mstatus := EXECUTED, mi_result := res\<rparr>)"
    using executePending_execd [OF assms(1)] by (auto simp: execd_def)
  then show ?thesis
    using exec_frameD(10) [OF executePending_frame [OF assms(1)]] assms(2,3) by auto
qed

text \<open>
  C19: \<open>verifyMAC\<close> accepts everything, so a commit certificate is as good as the list of sender ids
  written in it: for an entry of the current view that is not yet committed, any five different
  ids, with whatever codes, by whatever process, commit the entry.
\<close>

theorem forged_certificate_commits:
  assumes "srv_inv E s" and "srvState s = NORMAL_STATE" and "\<not> isByzantine s"
    and "entry_at s n = Some e" and "mi_mstatus e \<in> {PRE_PREPARED, PREPARED}"
    and "entry_view e = currentView s"
    and "\<forall>sv \<in> set svs. serverId s < int (length (sv_signatures sv))"
    and "5 \<le> card (sv_server_id ` set svs)"
    and "processCommit E \<lparr>pf_data = rq_data (mi_prePrepare e), pf_sig_vecs = svs\<rparr> s = Inr t"
  shows "\<exists>e'. entry_at t n = Some e' \<and> mi_mstatus e' \<in> {COMMITTED, EXECUTED}"
proof -
  let ?d = "rq_data (mi_prePrepare e)" and ?i = "nat (n - lowWatermark s)"
  have len: "length (log s) = 20" and id: "0 \<le> serverId s" and f: "pbft_f s = 2"
    and high: "highWatermark s = lowWatermark s + 19"
    using assms(1) by (auto simp: srv_inv_def window_ok_def config_ok_def)
  obtain p where at: "0 \<le> n - lowWatermark s" "n - lowWatermark s < 20" "log s ! ?i = Some p" "e = heap s ! p"
    using assms(4) len by (auto simp: entry_at_ptr)
  note slot = srv_inv_slotD [OF assms(1) _ at(3)]
  have p: "p < length (heap s)" and seq: "cx_sequence_num ?d = n"
    using slot(1,2) at by (auto simp: entry_seq_def)
  obtain m where m: "add_proofs E s ?d ?d svs (mi_commitProofs e) = Inr m"
    and keys: "sm_keys m = sv_server_id ` set svs \<union> sm_keys (mi_commitProofs e)"
    using add_proofs_all [of ?d ?d s svs E "mi_commitProofs e"] id assms(7) by auto
  have "votes_wf (mi_commitProofs e)"
    using srv_inv_entryD [OF assms(1) p] at(4) by (simp add: entry_ok_def)
  then have "sm_wf m" by (rule votes_wfD [OF add_proofs_wf [OF m]])
  then have "5 \<le> length m"
    using assms(8) keys card_mono [of "sm_keys m" "sv_server_id ` set svs"] by (simp add: sm_size_keys)
  then obtain u where ex: "executePending E u = Inr t" and
    u: "log u = log s" "lowWatermark u = lowWatermark s" "heap u = (heap s)[p := e\<lparr>mi_commitProofs := m, mi_mstatus := COMMITTED\<rparr>]"
    using assms(2,3,5,6,9) at p m seq len high f
    unfolding processCommit_def Let_def entry_view_def
    by (auto simp: srvState_cases split: if_splits)
  have "log t ! ?i = Some p \<and> mi_mstatus (heap t ! p) \<in> {COMMITTED, EXECUTED}"
    by (rule executePending_final [OF ex]) (use u at p in simp_all)
  moreover note exec_frameD(8,10) [OF executePending_frame [OF ex]]
  ultimately show ?thesis using at u len by (simp add: entry_at_def)
qed

lemma sample_forged:
  "holds (processPrePrepare sample_env (proposal 1 0 request1) replica) (\<lambda>u.
     srvState u = NORMAL_STATE \<and> \<not> isByzantine u \<and> serverId u = 0 \<and> currentView u = 1 \<and>
     map_option mi_mstatus (entry_at u 0) = Some PRE_PREPARED \<and>
     map_option mi_prePrepare (entry_at u 0) = Some (pp_r (proposal 1 0 request1)) \<and>
     holds (processCommit sample_env (certificate (proposal 1 0 request1) [100, 101, 102, 103, 104]) u)
       (\<lambda>t. True))"
  by code_simp

theorem forged_certificate_commits_witness:
  "\<exists>u t e. processPrePrepare sample_env (proposal 1 0 request1) replica = Inr u \<and>
     processCommit sample_env (certificate (proposal 1 0 request1) [100, 101, 102, 103, 104]) u = Inr t \<and>
     entry_at t 0 = Some e \<and> mi_mstatus e \<in> {COMMITTED, EXECUTED}"
proof (rule sample_reach)
  fix u assume r: "server_reach sample_env 0 u"
    and u: "processPrePrepare sample_env (proposal 1 0 request1) replica = Inr u"
  define svs where "svs = pf_sig_vecs (certificate (proposal 1 0 request1) [100, 101, 102, 103, 104])"
  obtain e t where e: "entry_at u 0 = Some e" "mi_mstatus e = PRE_PREPARED"
      "mi_prePrepare e = pp_r (proposal 1 0 request1)"
    and s: "srvState u = NORMAL_STATE" "\<not> isByzantine u" "serverId u = 0" "currentView u = 1"
    and t: "processCommit sample_env (certificate (proposal 1 0 request1) [100, 101, 102, 103, 104]) u = Inr t"
    using sample_forged u by (auto simp: holds_iff)
  have c: "certificate (proposal 1 0 request1) [100, 101, 102, 103, 104] =
      \<lparr>pf_data = rq_data (mi_prePrepare e), pf_sig_vecs = svs\<rparr>"
    by (simp add: svs_def certificate_def e)
  have inv: "srv_inv sample_env u" using server_reach_inv [OF r] by simp
  have "\<exists>e'. entry_at t 0 = Some e' \<and> mi_mstatus e' \<in> {COMMITTED, EXECUTED}"
    by (rule forged_certificate_commits [OF inv s(1,2) e(1) _ _ _ _ t [unfolded c]])
      (simp_all add: e s entry_view_def svs_def certificate_def)
  then show ?thesis using u t by blast
qed

section \<open>The optimistic timer\<close>

lemma others_length:
  assumes "srv_inv E s"
  shows "length (others s) = 6"
proof -
  have "serverId s \<in> {0, 1, 2, 3, 4, 5, 6}" and c: "clusterSize s = 7"
    using assms by (auto simp: srv_inv_def config_ok_def)
  moreover have "[0..6] = [0, 1, 2, 3, 4, 5, 6::int]" by (simp add: upto.simps)
  ultimately show ?thesis unfolding others_def c by auto
qed

text \<open>
  C11: What the optimistic timer of a proposal does, when its closure runs to its end on a server in the normal
  state. If the entry holds the votes of exactly \<open>3f = 6\<close> replicas, the server commits it (and may execute
  it at once) and sends each of the six others a commit certificate of those votes and its own. Otherwise
  it keeps the entry's status, adds its own commit proof to the entry, and sends the six others a
  prepare certificate made of the votes it has, and nothing else.
\<close>

theorem optimistic_timer_outcome:
  assumes "srv_inv E s" and "srvState s = NORMAL_STATE" and "entry_at s n = Some e"
    and "fire_OptimisticTimer E n s = Inr t"
  defines "votes \<equiv> map rq_sig_vec (sm_vals (mi_prepareProofs e))"
  shows "length (others s) = 6 \<and> (\<exists>e'. entry_at t n = Some e' \<and>
     (if length (mi_prepareProofs e) = 6
      then mi_mstatus e' \<in> {COMMITTED, EXECUTED} \<and> lastCommitted t = n \<and>
        (\<exists>own. sv_server_id own = serverId s \<and> set (map (\<lambda>i. ToServer i (P_Commit
           \<lparr>pf_data = rq_data (mi_prePrepare e), pf_sig_vecs = votes @ [own]\<rparr>)) (others s)) \<subseteq> set (outbox t))
      else mi_mstatus e' = mi_mstatus e \<and> serverId s \<in> sm_keys (mi_commitProofs e') \<and>
        outbox t = outbox s @ map (\<lambda>i. ToServer i (P_Prepare
           \<lparr>pf_data = rq_data (mi_prePrepare e), pf_sig_vecs = votes\<rparr>)) (others s)))"
proof -
  let ?i = "nat (n - lowWatermark s)"
  have len: "length (log s) = 20" and f: "pbft_f s = 2" "clusterSize s = 7"
    using assms(1) by (auto simp: srv_inv_def window_ok_def config_ok_def)
  obtain p where at: "0 \<le> n - lowWatermark s" "n - lowWatermark s < 20" "log s ! ?i = Some p" "e = heap s ! p"
    using assms(3) len by (auto simp: entry_at_ptr)
  have p: "p < length (heap s)" using srv_inv_slotD(1) [OF assms(1) _ at(3)] at by simp
  let ?own = "own_commit_proof E e s"
  have own: "sv_server_id (rq_sig_vec ?own) = serverId s"
    by (simp add: own_commit_proof_def addMACSignature_def)
  have le: "log_entry s (n - lowWatermark s) = Inr (p, e)" using at p len by (simp add: log_entry_Ok_iff)
  have six: "length (others s) = 6" using others_length [OF assms(1)] .
  show ?thesis
  proof (cases "length (mi_prepareProofs e) = 6")
    case True
    let ?c = "\<lparr>pf_data = rq_data (mi_prePrepare e), pf_sig_vecs = votes @ [rq_sig_vec ?own]\<rparr>"
    let ?u = "(put_entry p (e\<lparr>mi_mstatus := COMMITTED,
        mi_commitProofs := sm_put (serverId s) ?own (mi_prepareProofs e)\<rparr>) s)\<lparr>lastCommitted := n\<rparr>"
    let ?v = "sent (map (\<lambda>i. ToServer i (P_Commit ?c)) (others ?u)) ?u"
    have send: "sendRequestToAll ?c COMMIT ?u = Inr ?v"
      by (rule sendRequestToAll_sent(2)) (simp add: f)
    have ex: "executePending E ?v = Inr t"
      using assms(2,4) le True f send unfolding fire_OptimisticTimer_def Let_def votes_def
      by (auto simp: srvState_cases)
    have fin: "log t ! ?i = Some p \<and> mi_mstatus (heap t ! p) \<in> {COMMITTED, EXECUTED}"
      by (rule executePending_final [OF ex]) (use at p in simp_all)
    have "others ?u = others s" by (simp add: others_def)
    moreover have "set (outbox ?v) \<subseteq> set (outbox t)"
      using executePending_outbox [OF ex] by (auto simp: sent_def)
    ultimately have out: "set (map (\<lambda>i. ToServer i (P_Commit ?c)) (others s)) \<subseteq> set (outbox t)"
      by auto
    note fr = exec_frameD(8,10,17) [OF executePending_frame [OF ex]]
    have "entry_at t n = Some (heap t ! p)" using fr fin at len by (simp add: entry_at_def)
    with fin out six own fr(3) True show ?thesis by auto
  next
    case False
    let ?c = "\<lparr>pf_data = rq_data (mi_prePrepare e), pf_sig_vecs = votes\<rparr>"
    let ?u = "put_entry p (e\<lparr>mi_commitProofs := sm_put (serverId s) ?own (mi_commitProofs e)\<rparr>) s"
    have "sendRequestToAll ?c PREPARE ?u =
        Inr (sent (map (\<lambda>i. ToServer i (P_Prepare ?c)) (others ?u)) ?u)"
      by (rule sendRequestToAll_sent(1)) (simp add: f)
    then have t: "t = sent (map (\<lambda>i. ToServer i (P_Prepare ?c)) (others ?u)) ?u"
      using assms(2,4) le False f unfolding fire_OptimisticTimer_def Let_def votes_def
      by (auto simp: srvState_cases)
    have "others ?u = others s" by (simp add: others_def)
    then show ?thesis using t six at p len False by (simp add: entry_at_def)
  qed
qed

text \<open>The leader that proposed the sample request and got the votes of the servers \<open>is\<close>.\<close>

definition voted_leader :: "int list \<Rightarrow> fault + srv" where
  "voted_leader is =
     ebind (processTransfer sample_env request1 leader)
       (each (\<lambda>i. processPrePrepareOk sample_env (vote (proposal 1 0 request1) i)) is)"

lemma voted_leader_inv:
  assumes "voted_leader is = Inr s"
  shows "srv_inv sample_env s"
proof -
  obtain u where u: "processTransfer sample_env request1 leader = Inr u"
    and v: "each (\<lambda>i. processPrePrepareOk sample_env (vote (proposal 1 0 request1) i)) is u = Inr s"
    using assms by (auto simp: voted_leader_def)
  have "srv_inv sample_env u" using processTransfer_keeps [OF u] leader_inv by (simp add: keeps_def)
  then show ?thesis
    by (rule each_invariant [OF v]) (auto dest!: processPrePrepareOk_keeps [where E' = sample_env] simp: keeps_def)
qed

lemma sample_voted:
  "holds (voted_leader [0, 2, 3, 4, 5, 6]) (\<lambda>s. srvState s = NORMAL_STATE \<and>
     map_option (\<lambda>e. length (mi_prepareProofs e)) (entry_at s 0) = Some 6 \<and>
     holds (fire_OptimisticTimer sample_env 0 s) (\<lambda>t. True))"
  by code_simp

theorem optimistic_timer_outcome_witness:
  "\<exists>s t e. voted_leader [0, 2, 3, 4, 5, 6] = Inr s \<and> fire_OptimisticTimer sample_env 0 s = Inr t \<and>
     entry_at t 0 = Some e \<and> mi_mstatus e \<in> {COMMITTED, EXECUTED}"
proof -
  obtain s t e where s: "voted_leader [0, 2, 3, 4, 5, 6] = Inr s" "srvState s = NORMAL_STATE"
      "entry_at s 0 = Some e" "length (mi_prepareProofs e) = 6"
    and t: "fire_OptimisticTimer sample_env 0 s = Inr t"
    using sample_voted by (auto simp: holds_iff)
  show ?thesis
    using optimistic_timer_outcome [OF voted_leader_inv [OF s(1)] s(2,3) t] s t by auto
qed

section \<open>Proposing\<close>

text \<open>
  C20: the leader never compares the sequence number it is about to use with the high watermark. While
  the window is used up (no newer checkpoint is stable), a fresh, correctly signed request makes it
  write to \<open>log[20]\<close>, one slot behind the end of the vector.
\<close>

theorem leader_overruns_window:
  assumes "srv_inv E s" and "srvState s = NORMAL_STATE" and "serverId s = getLeaderId s"
    and "verifySignature_Message E m" and "sm_find (digestToEntry s) (message_digest E m) = None"
    and "currentSequence s = highWatermark s" and "highWatermark s < int32_max"
  shows "processTransfer E m s = Inl Out_of_bounds"
proof -
  have w: "highWatermark s = lowWatermark s + 19" "length (log s) = 20" "0 \<le> lowWatermark s"
    using assms(1) by (auto simp: srv_inv_def window_ok_def)
  then have "propose E m (message_digest E m) s = Inl Out_of_bounds"
    using assms(6,7) by (simp add: propose_def iadd_def isub_def cint_def int32_max_def vec_set_def Let_def)
  then show ?thesis
    using assms(2-5) by (simp add: processTransfer_def find_entry_def Let_def)
qed

text \<open>A leader at the end of its window.\<close>

definition full_leader :: srv where
  "full_leader = leader\<lparr>currentSequence := 19\<rparr>"

theorem leader_overruns_window_witness:
  "processTransfer sample_env request1 full_leader = Inl Out_of_bounds"
proof (rule leader_overruns_window)
  show "srv_inv sample_env full_leader"
    using leader_inv by (auto simp: full_leader_def leader_def PbftServerImpl_def srv_inv_def inv_parts)
qed (simp_all add: full_leader_def leader_def PbftServerImpl_def getLeaderId_def smod_nonneg request1_def
      int32_max_def)

text \<open>
  A request that was executed is not executed again: the server answers the client with the stored
  result and changes nothing else. That holds for the leader and for every other replica.
\<close>

theorem executed_request_answered:
  assumes "srvState s = NORMAL_STATE" and "verifySignature_Message E m"
    and "sm_find (digestToEntry s) (message_digest E m) = Some p" and "p < length (heap s)"
    and "mi_mstatus (heap s ! p) = EXECUTED"
    and "0 \<le> sg_server_id (ms_signature m)" and "sg_server_id (ms_signature m) < 10"
  shows "\<exists>reply. processTransfer E m s = Inr (sent [ToClient (sg_server_id (ms_signature m)) reply] s) \<and>
     rd_tdata (rs_data reply) = ms_data m \<and> rd_ack (rs_data reply) = mi_result (heap s ! p) \<and>
     rd_view_num (rs_data reply) = currentView s"
proof -
  let ?c = "sg_server_id (ms_signature m)" and ?e = "heap s ! p"
  have f: "find_entry s (message_digest E m) = Inr (Some (p, ?e))"
    using assms(3,4) by (simp add: find_entry_def deref_def)
  have "clientStub ?c = Inr ?c" using assms(6,7) by simp
  then obtain reply where r: "notifyClient E ?c m (mi_result ?e) s = Inr (sent [ToClient ?c reply] s)"
    "rd_tdata (rs_data reply) = ms_data m" "rd_ack (rs_data reply) = mi_result ?e"
    "rd_view_num (rs_data reply) = currentView s"
    unfolding notifyClient_def Let_def emit_eq_sent by fastforce
  have "processTransfer E m s = notifyClient E ?c m (mi_result ?e) s"
    unfolding processTransfer_def Let_def f using assms(1,2,5) by simp
  with r show ?thesis by metis
qed

lemma sample_executed:
  "holds (processPrePrepare sample_env (proposal 1 0 request1) replica) (\<lambda>u.
     holds (processCommit sample_env (certificate (proposal 1 0 request1) [1, 2, 3, 4, 5]) u) (\<lambda>t.
       srvState t = NORMAL_STATE \<and> sm_find (digestToEntry t) (message_digest sample_env request1) = Some 0 \<and>
       length (heap t) = 1 \<and> mi_mstatus (heap t ! 0) = EXECUTED \<and> mi_result (heap t ! 0)))"
  by code_simp

theorem executed_request_answered_witness:
  "\<exists>t reply. lastExecuted t = 0 \<and>
     processTransfer sample_env request1 t = Inr (sent [ToClient 0 reply] t) \<and> rd_ack (rs_data reply)"
proof (rule sample_reach)
  fix u t assume u: "processPrePrepare sample_env (proposal 1 0 request1) replica = Inr u"
    and t: "processCommit sample_env (certificate (proposal 1 0 request1) [1, 2, 3, 4, 5]) u = Inr t"
    and e: "lastExecuted t = 0"
  have f: "srvState t = NORMAL_STATE" "sm_find (digestToEntry t) (message_digest sample_env request1) = Some 0"
      "0 < length (heap t)" "mi_mstatus (heap t ! 0) = EXECUTED" "mi_result (heap t ! 0)"
    using sample_executed u t by (simp_all add: holds_iff)
  have c: "sg_server_id (ms_signature request1) = 0" "verifySignature_Message sample_env request1"
    by (simp_all add: request1_def)
  obtain reply where "processTransfer sample_env request1 t = Inr (sent [ToClient 0 reply] t)"
      "rd_ack (rs_data reply) = mi_result (heap t ! 0)"
    using executed_request_answered [OF f(1) c(2) f(2,3,4), unfolded c(1)] by auto
  with e f(5) show ?thesis by blast
qed

section \<open>Gaps, aliases and re-proposals\<close>

text \<open>
  C21: \<open>executePending\<close> does not stop at a sequence number whose proposal has not arrived. When the next
  number has no entry and the one after it is committed, the server executes the latter and moves
  \<open>lastExecuted\<close> past the gap, where no later call looks again.
\<close>

theorem gap_is_skipped:
  assumes "srv_inv E s" and "executePending E' s = Inr t" and "entry_at s (lastExecuted s + 1) = None"
    and "entry_at s (lastExecuted s + 2) = Some e" and "mi_mstatus e = COMMITTED"
  shows "lastExecuted s + 2 \<le> lastExecuted t \<and>
     (\<forall>(n, p) \<in> set (to_execute t). lastExecuted s + 1 < n)"
proof -
  let ?n = "lastExecuted s + 2" and ?i = "nat (lastExecuted s + 2 - lowWatermark s)"
  have w: "length (log s) = 20" "lowWatermark s \<le> lastExecuted s + 1" "lastExecuted s \<le> currentSequence s"
    using assms(1) by (auto simp: srv_inv_def window_ok_def)
  obtain p where p: "?n - lowWatermark s < 20" "log s ! ?i = Some p" "e = heap s ! p"
    using assms(4) w by (auto simp: entry_at_ptr)
  have in_seq: "?n \<le> currentSequence s" using srv_inv_slotD(3) [OF assms(1) _ p(2)] p w by auto
  have gap: "slot_ptr s (lastExecuted s + 1) = None"
    using assms(3) w p by (auto simp: entry_at_def slot_ptr_def split: option.splits)
  have com: "slot_ptr s ?n = Some p" using p(2) by (simp add: slot_ptr_def)
  have "[lastExecuted s + 1..currentSequence s] = (lastExecuted s + 1) # ?n # [?n + 1..currentSequence s]"
    using in_seq w by (simp add: upto_rec1)
  then have "(?n, p) \<in> set (to_execute s)"
    using gap com assms(5) p(3) by (simp add: to_execute_def)
  then have "p \<in> snd ` set (to_execute s)" by force
  then have ex: "mi_mstatus (heap t ! p) = EXECUTED"
    using executePending_spec [OF assms(2,1)] by (simp add: executes_def Let_def split: prod.splits)
  have inv: "srv_inv E t" using executePending_inv [OF assms(2,1)] by simp
  note fr = exec_frameD(8,10) [OF executePending_frame [OF assms(2)]]
  have "lastExecuted s + 2 \<le> lastExecuted t"
    using srv_inv_slotD(4) [OF inv, of ?i p] p fr w ex by simp
  moreover have "lastExecuted t < n" if "(n, q) \<in> set (to_execute t)" for n q
    using pending_slots that by (fastforce simp: to_execute_def)
  ultimately show ?thesis by fastforce
qed

text \<open>A replica that has the second proposal, committed, and not the first.\<close>

definition gap_replica :: srv where
  "gap_replica = replica\<lparr>currentSequence := 1, heap := [committed_entry request1 1],
     log := (log replica)[1 := Some 0]\<rparr>"

lemma gap_replica_inv: "srv_inv sample_env gap_replica"
proof -
  have f: "heap replica = []" "currentView replica = 1" "lowWatermark replica = 0"
      "currentSequence replica = -1" "highWatermark replica = 19"
    by (simp_all add: replica_def PbftServerImpl_def)
  have "srv_inv sample_env (replica\<lparr>currentSequence := 1, heap := heap replica @ [committed_entry request1 1],
      log := (log replica)[1 := Some (length (heap replica))]\<rparr>)"
    by (rule srv_inv_alloc [OF replica_inv]) (simp_all add: f committed_entry_ok request1_def)
  then show ?thesis by (simp add: gap_replica_def f)
qed

lemma sample_gap:
  "entry_at gap_replica (lastExecuted gap_replica + 1) = None \<and>
   map_option mi_mstatus (entry_at gap_replica (lastExecuted gap_replica + 2)) = Some COMMITTED \<and>
   lastExecuted gap_replica = -1 \<and> holds (executePending sample_env gap_replica) (\<lambda>t. True)"
  by code_simp

theorem gap_is_skipped_witness:
  "\<exists>t. executePending sample_env gap_replica = Inr t \<and> entry_at gap_replica 0 = None \<and> 1 \<le> lastExecuted t"
proof -
  obtain t e where t: "executePending sample_env gap_replica = Inr t"
    and e: "entry_at gap_replica (lastExecuted gap_replica + 2) = Some e" "mi_mstatus e = COMMITTED"
    and g: "entry_at gap_replica (lastExecuted gap_replica + 1) = None" "lastExecuted gap_replica = -1"
    using sample_gap by (auto simp: holds_iff)
  show ?thesis using gap_is_skipped [OF gap_replica_inv t g(1) e] t g by auto
qed

text \<open>
  C22: a re-proposal can stall. \<open>repropose\<close> clears an entry's proofs but not its status, and votes only
  count towards the quorum while the status is \<open>PRE_PREPARED\<close>. So when the entry got further than that in
  an earlier view, no number of votes makes the leader start the optimistic timer for it.
\<close>

theorem reproposal_stalls:
  assumes "repropose E m p (heap s ! p) s = Inr u" and "p < length (heap s)"
    and "mi_mstatus (heap s ! p) \<noteq> PRE_PREPARED" and "log u ! nat (n - lowWatermark u) = Some p"
    and "\<forall>r \<in> set votes. cx_sequence_num (rq_data r) = n"
    and "each (processPrePrepareOk E') votes u = Inr t"
  shows "mi_mstatus (heap t ! p) = mi_mstatus (heap s ! p) \<and> futures t = futures s"
proof -
  have u: "mi_mstatus (heap u ! p) = mi_mstatus (heap s ! p)" "futures u = futures s" "p < length (heap u)"
    using assms(1,2) by (auto simp: repropose_def Let_def dest!: send_only)
  define P where "P = (\<lambda>v::srv. mi_mstatus (heap v ! p) = mi_mstatus (heap s ! p) \<and> futures v = futures s \<and>
     p < length (heap v) \<and> log v = log u \<and> lowWatermark v = lowWatermark u)"
  have "P t"
  proof (rule each_invariant [OF assms(6)])
    show "P u" using u by (simp add: P_def)
  next
    fix r v v' assume r: "r \<in> set votes" and st: "processPrePrepareOk E' r v = Inr v'" and v: "P v"
    then have "log v ! nat (cx_sequence_num (rq_data r) - lowWatermark v) = Some p"
      using assms(4,5) by (simp add: P_def)
    then show "P v'"
      using st v assms(3) unfolding processPrePrepareOk_def Let_def P_def
      by (auto simp: log_entry_Ok_iff split: if_splits)
  qed
  then show ?thesis by (simp add: P_def)
qed

text \<open>Server 1, leader of view 8, with an entry that it prepared as a replica of view 1.\<close>

definition returning_leader :: srv where
  "returning_leader = leader\<lparr>currentView := 8, currentSequence := 0,
     heap := [(committed_entry request1 0)\<lparr>mi_mstatus := PREPARED\<rparr>], log := (log leader)[0 := Some 0]\<rparr>"

lemma sample_repropose:
  "holds (repropose sample_env request1 0 (heap returning_leader ! 0) returning_leader) (\<lambda>u.
     length (heap returning_leader) = 1 \<and> mi_mstatus (heap returning_leader ! 0) = PREPARED \<and>
     futures returning_leader = [] \<and> lowWatermark u = 0 \<and> log u ! 0 = Some 0 \<and>
     holds (each (processPrePrepareOk sample_env) (map (vote (proposal 8 0 request1)) [0, 2, 3, 4, 5, 6]) u)
       (\<lambda>t. length (mi_prepareProofs (heap t ! 0)) = 6))"
  by code_simp

theorem reproposal_stalls_witness:
  "\<exists>u t. repropose sample_env request1 0 (heap returning_leader ! 0) returning_leader = Inr u \<and>
     each (processPrePrepareOk sample_env) (map (vote (proposal 8 0 request1)) [0, 2, 3, 4, 5, 6]) u = Inr t \<and>
     length (mi_prepareProofs (heap t ! 0)) = 6 \<and> futures t = []"
proof -
  obtain u t where u: "repropose sample_env request1 0 (heap returning_leader ! 0) returning_leader = Inr u"
    and f: "length (heap returning_leader) = 1" "mi_mstatus (heap returning_leader ! 0) = PREPARED"
      "futures returning_leader = []" "lowWatermark u = 0" "log u ! 0 = Some 0"
    and t: "each (processPrePrepareOk sample_env) (map (vote (proposal 8 0 request1)) [0, 2, 3, 4, 5, 6]) u = Inr t"
      "length (mi_prepareProofs (heap t ! 0)) = 6"
    using sample_repropose unfolding holds_iff by blast
  have "futures t = futures returning_leader"
    using reproposal_stalls [OF u _ _ _ _ t(1), of 0] f by (simp add: vote_def)
  with u t f(3) show ?thesis by auto
qed

text \<open>
  A digest may lead to another request's entry. When a proposal of a later view replaces the request
  of a slot, the pointer under the old request's digest stays, so looking the old request up
  finds the new request's entry, and later its verdict.
\<close>

theorem stale_digest_aliases:
  assumes "srv_inv E s" and "processPrePrepare E r s = Inr t" and "valid_proposal E r s"
    and "n = cx_sequence_num (rq_data (pp_r r))" and "slot_ptr s n = Some p"
    and "entry_view (heap s ! p) < currentView s"
    and "sm_find (digestToEntry s) d = Some p" and "d \<noteq> cx_digest (rq_data (pp_r r))"
  shows "find_entry t d = Inr (Some (p, heap t ! p)) \<and> mi_m (heap t ! p) = pp_m r \<and>
     entry_digest (heap t ! p) \<noteq> d"
proof -
  let ?i = "nat (n - lowWatermark s)"
  let ?s1 = "s\<lparr>awaitedDigests := awaitedDigests s - {cx_digest (rq_data (pp_r r))},
      currentSequence := max n (currentSequence s)\<rparr>"
  have conf: "config_ok s" "0 \<le> currentView s" and len: "length (log s) = 20"
    and n: "0 \<le> n - lowWatermark s" "n - lowWatermark s < 20"
    using assms(1,3,4) by (auto simp: srv_inv_def window_ok_def valid_proposal_def)
  have lead: "getLeaderId ?s1 = sv_server_id (rq_sig_vec (pp_r r))"
    using assms(3) by (simp add: valid_proposal_def getLeaderId_def)
  have "\<not> conflicting (currentView s) (cx_digest (rq_data (pp_r r))) (heap s ! p)"
    using assms(6) by (simp add: conflicting_def entry_view_def)
  then have acc: "accept_prePrepare E r n p ?s1 = Inr t"
    using assms(2-5) unfolding processPrePrepare_def Let_def valid_proposal_def slot_ptr_def
    by (auto simp: srvState_cases split: if_splits)
  have eff: "p < length (heap ?s1) \<and>
     heap t = (heap ?s1)[p := accepted_entry E r (own_prePrepareOk E (pp_r r) ?s1) ?s1 (heap ?s1 ! p)]"
    using accept_prePrepare_effect [OF acc lead] conf by (simp add: config_ok_def)
  have "digestToEntry t = sm_put (cx_digest (rq_data (pp_r r))) p (digestToEntry s)"
    using acc unfolding accept_prePrepare_def Let_def
    by (auto simp: start_timer_def split: if_splits dest!: send_only(1))
  with eff assms(7,8) show ?thesis
    by (auto simp: find_entry_def deref_def entry_digest_def)
qed

definition request2 :: Message where "request2 = signed_by 2 (pay ''C'' ''D'' 9)"

lemma sample_alias:
  "holds (processPrePrepare sample_env (proposal 1 0 request1) replica) (\<lambda>u.
     slot_ptr (u\<lparr>currentView := 2\<rparr>) 0 = Some 0 \<and> entry_view (heap u ! 0) = 1 \<and> currentView u = 1 \<and>
     sm_find (digestToEntry u) (message_digest sample_env request1) = Some 0 \<and>
     valid_proposal sample_env (proposal 2 0 request2) (u\<lparr>currentView := 2\<rparr>) \<and>
     message_digest sample_env request1 \<noteq> message_digest sample_env request2 \<and>
     holds (processPrePrepare sample_env (proposal 2 0 request2) (u\<lparr>currentView := 2\<rparr>)) (\<lambda>t. True))"
  by code_simp

theorem stale_digest_aliases_witness:
  "\<exists>u t e. processPrePrepare sample_env (proposal 1 0 request1) replica = Inr u \<and>
     processPrePrepare sample_env (proposal 2 0 request2) (u\<lparr>currentView := 2\<rparr>) = Inr t \<and>
     find_entry t (message_digest sample_env request1) = Inr (Some (0, e)) \<and> mi_m e = request2"
proof (rule sample_reach)
  fix u assume r: "server_reach sample_env 0 u"
    and u: "processPrePrepare sample_env (proposal 1 0 request1) replica = Inr u"
  let ?v = "u\<lparr>currentView := 2\<rparr>"
  obtain t where a: "slot_ptr ?v 0 = Some 0" "entry_view (heap u ! 0) = 1" "currentView u = 1"
      "sm_find (digestToEntry u) (message_digest sample_env request1) = Some 0"
      "valid_proposal sample_env (proposal 2 0 request2) ?v"
      "message_digest sample_env request1 \<noteq> message_digest sample_env request2"
    and t: "processPrePrepare sample_env (proposal 2 0 request2) ?v = Inr t"
    using holdsD [OF sample_alias u] unfolding holds_iff by blast
  have inv: "srv_inv sample_env ?v"
    using server_reach_inv [OF r] keeps_currentView [of u 2 sample_env] a(3) by (simp add: keeps_def)
  have "find_entry t (message_digest sample_env request1) = Inr (Some (0, heap t ! 0)) \<and>
      mi_m (heap t ! 0) = request2"
    using stale_digest_aliases [OF inv t a(5) _ a(1), of "message_digest sample_env request1"] a(2,4,6)
    by simp
  with u t show ?thesis by blast
qed

end
