(* ===== verification/Server_Change.thy ===== *)
theory Server_Change
  imports Server_Behaviour
begin

text \<open>
  Checkpoints and view changes: what makes a checkpoint stable, which messages a replica accepts in a
  view change, when it joins or leads one, and which requests the new leader carries over.
\<close>

section \<open>Stable checkpoints\<close>

text \<open>The proofs a server keeps for a checkpoint: signed, of that sequence number, one per signer.\<close>

definition proofs_for :: "env \<Rightarrow> int \<Rightarrow> (int, CheckpointReq) smap \<Rightarrow> bool" where
  "proofs_for E c m \<longleftrightarrow> sm_wf m \<and> (\<forall>(i, r) \<in> set m. verifySignature_CheckpointReq E r \<and>
     cd_c_seq_num (cr_data r) = c \<and> sg_server_id (cr_signature r) = i)"

definition stable_ok :: "env \<Rightarrow> srv \<Rightarrow> bool" where
  "stable_ok E s \<longleftrightarrow> pbft_f s = 2 \<and>
     (\<forall>(c, ci) \<in> set (checkpoints s). proofs_for E c (ci_checkpointProofs ci)) \<and>
     (lastStableCheckpointSeqNum s \<noteq> -1 \<longrightarrow> 5 \<le> length (lastStableCheckpointProofs s) \<and>
        proofs_for E (lastStableCheckpointSeqNum s) (lastStableCheckpointProofs s))"

definition keeps_stable :: "env \<Rightarrow> srv \<Rightarrow> srv \<Rightarrow> bool" where
  "keeps_stable E s t \<longleftrightarrow> (stable_ok E s \<longrightarrow> stable_ok E t)"

text \<open>What a step that leaves checkpoints alone does not change.\<close>

definition cp_view :: "srv \<Rightarrow> int \<times> (int \<times> CheckpointInfo) list \<times> int \<times> (int, CheckpointReq) smap" where
  "cp_view s = (pbft_f s, checkpoints s, lastStableCheckpointSeqNum s, lastStableCheckpointProofs s)"

lemma stable_ok_same: "cp_view t = cp_view s \<Longrightarrow> stable_ok E t = stable_ok E s"
  by (simp add: cp_view_def stable_ok_def)

lemma keeps_stable_same: "cp_view t = cp_view s \<Longrightarrow> keeps_stable E s t"
  unfolding keeps_stable_def using stable_ok_same [of t s E] by blast

lemma keeps_stable_trans: "keeps_stable E s t \<Longrightarrow> keeps_stable E t u \<Longrightarrow> keeps_stable E s u"
  by (simp add: keeps_stable_def)

lemma cp_view_simps [simp]:
  "cp_view (sent xs s) = cp_view s" "cp_view (start_timer x s) = cp_view s"
  "cp_view (put_entry p e s) = cp_view s" "cp_view (s\<lparr>heap := h\<rparr>) = cp_view s"
  "cp_view (s\<lparr>lastCommitted := n\<rparr>) = cp_view s" "cp_view (s\<lparr>currentView := n\<rparr>) = cp_view s"
  "cp_view (s\<lparr>srvState := st\<rparr>) = cp_view s" "cp_view (s\<lparr>lastProposedView := n\<rparr>) = cp_view s"
  "cp_view (s\<lparr>awaitedDigests := a\<rparr>) = cp_view s" "cp_view (s\<lparr>currentSequence := n\<rparr>) = cp_view s"
  "cp_view (s\<lparr>log := l\<rparr>) = cp_view s" "cp_view (s\<lparr>digestToEntry := d\<rparr>) = cp_view s"
  "cp_view (s\<lparr>viewChangeMessages := m\<rparr>) = cp_view s" "cp_view (s\<lparr>balances := b\<rparr>) = cp_view s"
  "cp_view (s\<lparr>selfTriggeredViewChangeMessages := m\<rparr>) = cp_view s"
  "cp_view (s\<lparr>lastExecuted := n\<rparr>) = cp_view s" "cp_view (s\<lparr>totalTimeTaken := n\<rparr>) = cp_view s"
  "cp_view (s\<lparr>lastCheckpoint := n\<rparr>) = cp_view s"
  by (simp_all add: cp_view_def start_timer_def)

lemma keeps_stable_sent [simp]: "keeps_stable E s (sent xs t) = keeps_stable E s t"
  unfolding keeps_stable_def using stable_ok_same [OF cp_view_simps(1), of E xs t] by blast

lemma checkpoint_stable:
  assumes "checkpoint E' s = Inr t"
  shows "keeps_stable E s t"
proof -
  define old where "old = (case sm_find (checkpoints s) (lastExecuted s) of
      None \<Rightarrow> new_CheckpointInfo | Some c \<Rightarrow> c)"
  obtain st d req s2 where send: "sendCheckpointToAll E' req
      (s\<lparr>checkpoints := sm_put (lastExecuted s) (old\<lparr>ci_state := st, ci_digest := d\<rparr>) (checkpoints s)\<rparr>) = Inr s2"
    and t: "t = s2\<lparr>lastCheckpoint := lastExecuted s2\<rparr>"
    using assms unfolding checkpoint_def Let_def old_def [symmetric]
    by (elim ebind_OkE) (rule that, assumption, simp)
  have "proofs_for E (lastExecuted s) (ci_checkpointProofs old)" if "stable_ok E s"
    using that by (auto simp: old_def stable_ok_def new_CheckpointInfo_def proofs_for_def
        dest!: map_of_SomeD split: option.split)
  then show ?thesis
    using send_only(7) [OF send]
    by (auto simp: keeps_stable_def t stable_ok_def dest!: sm_put_mem)
qed

lemma execute_entry_stable:
  assumes "execute_entry E' seq p e s = Inr t"
  shows "keeps_stable E s t"
proof -
  obtain b res s2 s3 e' tt where n: "notifyClient E' (sg_server_id (ms_signature (mi_m e))) (mi_m e) res
        (put_entry p e' (s\<lparr>balances := b, lastExecuted := seq, totalTimeTaken := tt\<rparr>)) = Inr s2"
    and c: "s3 = s2 \<or> checkpoint E' s2 = Inr s3" and t: "t = s3\<lparr>lastExecuted := seq\<rparr>"
    using assms by (fastforce simp: execute_entry_def Let_def split: if_splits)
  have "keeps_stable E s s2" using send_only(2) [OF n] by (auto intro!: keeps_stable_same)
  moreover have "keeps_stable E s2 s3" using c checkpoint_stable by (auto intro: keeps_stable_same)
  moreover have "keeps_stable E s3 t" by (rule keeps_stable_same) (simp add: t)
  ultimately show ?thesis using keeps_stable_trans by blast
qed

lemma execute_slot_stable: "execute_slot E' seq s = Inr (t, go) \<Longrightarrow> keeps_stable E s t"
  by (auto simp: execute_slot_def keeps_stable_same dest: execute_entry_stable split: option.splits if_splits)

lemma execute_from_stable: "execute_from E' seq s = Inr t \<Longrightarrow> keeps_stable E s t"
  by (erule execute_from_keeps) (auto intro: keeps_stable_same keeps_stable_trans execute_slot_stable)

lemma executePending_stable:
  "executePending E' s = Inr t \<Longrightarrow> cp_view s = cp_view u \<Longrightarrow> keeps_stable E u t"
  by (rule keeps_stable_trans [OF keeps_stable_same, of s])
    (auto simp: executePending_def dest: execute_from_stable)

section \<open>The other handlers\<close>

lemma helpers_cp_view:
  "forward d m s = Inr t \<Longrightarrow> cp_view t = cp_view s"
  "propose E g dd s = Inr t \<Longrightarrow> cp_view t = cp_view s"
  "repropose E g p e s = Inr t \<Longrightarrow> cp_view t = cp_view s"
  "accept_prePrepare E r n q s = Inr t \<Longrightarrow> cp_view t = cp_view s"
  "triggerViewChange E v s = Inr t \<Longrightarrow> cp_view t = cp_view s"
  "announce_view E v s = Inr t \<Longrightarrow> cp_view t = cp_view s"
  by (auto simp: forward_def propose_def repropose_def accept_prePrepare_def triggerViewChange_def
      announce_view_def emit_eq_sent Let_def split: if_splits dest!: send_only)

lemma enter_view_cp_view: "enter_view E d s = Inr t \<Longrightarrow> cp_view t = cp_view s"
  unfolding enter_view_def send_new_view_ok_def Let_def
  by (drule each_sent) (auto dest: send_only)

lemma handlers_cp_view:
  "processTransfer E m s = Inr t \<Longrightarrow> cp_view t = cp_view s"
  "processPrePrepare E pp s = Inr t \<Longrightarrow> cp_view t = cp_view s"
  "processPrePrepareOk E r s = Inr t \<Longrightarrow> cp_view t = cp_view s"
  "processPrepare E pf s = Inr t \<Longrightarrow> cp_view t = cp_view s"
  "processViewChange E vc s = Inr t \<Longrightarrow> cp_view t = cp_view s"
  "processNewView E nv s = Inr t \<Longrightarrow> cp_view t = cp_view s"
proof -
  show "processTransfer E m s = Inr t \<Longrightarrow> cp_view t = cp_view s"
    unfolding processTransfer_def Let_def
    by (auto split: if_splits option.splits dest!: send_only(2) dest: helpers_cp_view)
  show "processPrePrepare E pp s = Inr t \<Longrightarrow> cp_view t = cp_view s"
    unfolding processPrePrepare_def Let_def
    by (auto split: if_splits option.splits dest!: helpers_cp_view)
  show "processPrePrepareOk E r s = Inr t \<Longrightarrow> cp_view t = cp_view s"
    unfolding processPrePrepareOk_def Let_def by (auto split: if_splits)
  show "processPrepare E pf s = Inr t \<Longrightarrow> cp_view t = cp_view s"
    unfolding processPrepare_def Let_def by (auto split: if_splits option.splits dest!: send_only(1))
  show "processViewChange E vc s = Inr t \<Longrightarrow> cp_view t = cp_view s"
    unfolding processViewChange_def Let_def by (auto split: if_splits dest!: helpers_cp_view)
  show "processNewView E nv s = Inr t \<Longrightarrow> cp_view t = cp_view s"
    using processNewView_cases [of E nv s t] enter_view_cp_view by auto
qed

lemma timers_cp_view:
  "fire_DigestTimer E d v n s = Inr t \<Longrightarrow> cp_view t = cp_view s"
  "fire_SeqTimer E q v n s = Inr t \<Longrightarrow> cp_view t = cp_view s"
  "fire_ViewTimer v n s = Inr t \<Longrightarrow> cp_view t = cp_view s"
  "fire_RetryTimer E nv s = Inr t \<Longrightarrow> cp_view t = cp_view s"
  by (auto simp: fire_DigestTimer_def fire_SeqTimer_def fire_ViewTimer_def fire_RetryTimer_def
      split: if_splits dest!: helpers_cp_view handlers_cp_view)

lemma executing_stable:
  "processPrepareOk E' r s = Inr t \<Longrightarrow> keeps_stable E s t"
  "processCommit E' pf s = Inr t \<Longrightarrow> keeps_stable E s t"
  "fire_OptimisticTimer E' n s = Inr t \<Longrightarrow> keeps_stable E s t"
proof -
  show "processPrepareOk E' r s = Inr t \<Longrightarrow> keeps_stable E s t"
    unfolding processPrepareOk_def Let_def
    by (auto simp: keeps_stable_same split: if_splits dest!: send_only(3) elim!: executePending_stable)
  show "processCommit E' pf s = Inr t \<Longrightarrow> keeps_stable E s t"
    unfolding processCommit_def Let_def
    by (auto simp: keeps_stable_same split: if_splits option.splits elim!: executePending_stable)
  show "fire_OptimisticTimer E' n s = Inr t \<Longrightarrow> keeps_stable E s t"
    unfolding fire_OptimisticTimer_def Let_def
    by (auto simp: keeps_stable_same split: if_splits dest!: send_only(3) elim!: executePending_stable)
qed

lemma processCheckpoint_stable:
  assumes "processCheckpoint E r s = Inr t"
  shows "keeps_stable E s t"
  unfolding keeps_stable_def
proof
  assume ok: "stable_ok E s"
  define c where "c = cd_c_seq_num (cr_data r)"
  define ci0 where "ci0 = (case sm_find (checkpoints s) c of None \<Rightarrow> new_CheckpointInfo | Some ci \<Rightarrow> ci)"
  define ci where "ci = ci0\<lparr>ci_checkpointProofs :=
      sm_put (sg_server_id (cr_signature r)) r (ci_checkpointProofs ci0)\<rparr>"
  define s1 where "s1 = s\<lparr>checkpoints := sm_put c ci (checkpoints s)\<rparr>"
  have cases: "t = s \<or> verifySignature_CheckpointReq E r \<and>
      (t = s1 \<or> 2 * pbft_f s1 + 1 \<le> int (length (ci_checkpointProofs ci)) \<and> make_stable c ci s1 = Inr t)"
    using assms unfolding processCheckpoint_def Let_def c_def ci0_def ci_def s1_def
    by (auto split: if_splits)
  have "proofs_for E c (ci_checkpointProofs ci0)"
    using ok by (auto simp: ci0_def stable_ok_def new_CheckpointInfo_def proofs_for_def
        dest!: map_of_SomeD split: option.split)
  then have new: "proofs_for E c (ci_checkpointProofs ci)" if "verifySignature_CheckpointReq E r"
    using that by (auto simp: ci_def proofs_for_def c_def dest!: sm_put_mem)
  have s1: "stable_ok E s1" if "verifySignature_CheckpointReq E r"
    using ok new [OF that] by (auto simp: s1_def stable_ok_def dest!: sm_put_mem)
  have "stable_ok E t" if v: "verifySignature_CheckpointReq E r"
    and q: "2 * pbft_f s1 + 1 \<le> int (length (ci_checkpointProofs ci))" and m: "make_stable c ci s1 = Inr t"
  proof -
    have "checkpoints t = sm_erase c (checkpoints s1)" "pbft_f t = pbft_f s1"
        "lastStableCheckpointSeqNum t = c" "lastStableCheckpointProofs t = ci_checkpointProofs ci"
      using make_stable_cases [OF m] by auto
    then show ?thesis
      using s1 [OF v] new [OF v] q set_sm_erase [of c "checkpoints s1"] by (auto simp: stable_ok_def)
  qed
  with cases ok s1 show "stable_ok E t" by blast
qed

lemma handle_stable: "handle E ev s = Inr t \<Longrightarrow> keeps_stable E s t"
proof (cases ev)
  case (Rpc p)
  assume "handle E ev s = Inr t"
  with Rpc show ?thesis
    by (cases p) (auto intro: keeps_stable_same handlers_cp_view executing_stable processCheckpoint_stable)
next
  case (Fire x)
  assume "handle E ev s = Inr t"
  with Fire show ?thesis
    by (cases x) (auto intro: keeps_stable_same timers_cp_view executing_stable)
next
  case Query_DB
  assume "handle E ev s = Inr t"
  with Query_DB show ?thesis
    by (auto simp: GetDB_def intro: keeps_stable_same split: prod.splits)
qed

lemma verifySignature_CheckpointReq_at [simp]:
  "verifySignature_CheckpointReq (at_time E t j) r = verifySignature_CheckpointReq E r"
  by (simp add: verifySignature_CheckpointReq_def at_time_def verifyECDSA_def split: option.split)

lemma stable_ok_at [simp]: "stable_ok (at_time E t j) s = stable_ok E s"
  by (simp add: stable_ok_def proofs_for_def)

lemma server_reach_stable: "server_reach E i s \<Longrightarrow> stable_ok E s"
proof (induction rule: server_reach.induct)
  case (start name byz lc lcp)
  then show ?case by (simp add: stable_ok_def PbftServerImpl_def)
next
  case (step s ev s')
  then obtain t j where "handle (at_time E t j) ev s = Inr s'" using server_step_handle by blast
  from handle_stable [OF this] step.IH show ?case by (simp add: keeps_stable_def)
qed

text \<open>
  C23: whenever a server has a stable checkpoint, it holds checkpoint messages for exactly that
  sequence number from at least five different signers, each with a signature that verifies under
  the signer's key; the server has executed that far, and its window starts right above it.
\<close>

theorem stable_checkpoint_proven:
  assumes "server_reach E i s" and "0 \<le> i" and "i < 7" and "lastStableCheckpointSeqNum s \<noteq> -1"
  shows "5 \<le> card (sm_keys (lastStableCheckpointProofs s)) \<and>
     (\<forall>(j, r) \<in> set (lastStableCheckpointProofs s). sg_server_id (cr_signature r) = j \<and>
        cd_c_seq_num (cr_data r) = lastStableCheckpointSeqNum s \<and> verifySignature_CheckpointReq E r) \<and>
     lastStableCheckpointSeqNum s \<le> lastExecuted s \<and>
     lowWatermark s = lastStableCheckpointSeqNum s + 1"
  using server_reach_stable [OF assms(1)] server_reach_inv [OF assms(1-3)] assms(4)
  by (auto simp: stable_ok_def proofs_for_def sm_size_keys [symmetric] srv_inv_def window_ok_def)

text \<open>A checkpoint message of server \<open>i\<close> for sequence number \<open>c\<close> and state digest \<open>d\<close>.\<close>

definition checkpoint_of :: "int \<Rightarrow> int \<Rightarrow> string \<Rightarrow> CheckpointReq" where
  "checkpoint_of i c d =
     (let data = \<lparr>cd_c_seq_num = c, cd_c_digest = d\<rparr>
      in \<lparr>cr_data = data, cr_signature = \<lparr>sg_sig = signECDSA sample_env (ser_cd sample_env data) (serverPrECDSAKeyPath i),
            sg_server_id = i\<rparr>\<rparr>)"

lemma checkpoint_of_sel [simp]:
  "cd_c_seq_num (cr_data (checkpoint_of i c d)) = c" "cd_c_digest (cr_data (checkpoint_of i c d)) = d"
  "sg_server_id (cr_signature (checkpoint_of i c d)) = i"
  by (simp_all add: checkpoint_of_def Let_def)

lemma checkpoint_of_valid [simp]: "verifySignature_CheckpointReq sample_env (checkpoint_of i c d)"
  using verify_sign [OF sample_key_pair]
  by (simp add: verifySignature_CheckpointReq_def checkpoint_of_def Let_def)

text \<open>The replica of the sample run, after checkpoint messages of five others for what it executed.\<close>

lemma sample_stable:
  "holds (processPrePrepare sample_env (proposal 1 0 request1) replica) (\<lambda>u.
     holds (processCommit sample_env (certificate (proposal 1 0 request1) [1, 2, 3, 4, 5]) u) (\<lambda>t.
       holds (processCheckpoint sample_env (checkpoint_of 2 0 '''') t) (\<lambda>t2.
       holds (processCheckpoint sample_env (checkpoint_of 3 0 '''') t2) (\<lambda>t3.
       holds (processCheckpoint sample_env (checkpoint_of 4 0 '''') t3) (\<lambda>t4.
       holds (processCheckpoint sample_env (checkpoint_of 5 0 '''') t4) (\<lambda>t5.
       holds (processCheckpoint sample_env (checkpoint_of 6 0 '''') t5)
         (\<lambda>t6. lastStableCheckpointSeqNum t6 = 0)))))))"
  by code_simp

lemma checkpoint_step:
  "server_reach sample_env 0 s \<Longrightarrow> processCheckpoint sample_env r s = Inr t \<Longrightarrow> server_reach sample_env 0 t"
  by (erule server_reach.step, rule server_step.receive [where t = 0 and j = False and p = "P_Checkpoint r"]) simp

theorem stable_checkpoint_proven_witness:
  "\<exists>s. server_reach sample_env 0 s \<and> lastStableCheckpointSeqNum s = 0 \<and>
     5 \<le> card (sm_keys (lastStableCheckpointProofs s)) \<and> lowWatermark s = 1"
proof (rule sample_reach)
  fix u t assume r: "server_reach sample_env 0 t"
    and u: "processPrePrepare sample_env (proposal 1 0 request1) replica = Inr u"
    and t: "processCommit sample_env (certificate (proposal 1 0 request1) [1, 2, 3, 4, 5]) u = Inr t"
  obtain t2 t3 t4 t5 t6 where
    "processCheckpoint sample_env (checkpoint_of 2 0 '''') t = Inr t2"
    "processCheckpoint sample_env (checkpoint_of 3 0 '''') t2 = Inr t3"
    "processCheckpoint sample_env (checkpoint_of 4 0 '''') t3 = Inr t4"
    "processCheckpoint sample_env (checkpoint_of 5 0 '''') t4 = Inr t5"
    "processCheckpoint sample_env (checkpoint_of 6 0 '''') t5 = Inr t6" "lastStableCheckpointSeqNum t6 = 0"
    using holdsD [OF holdsD [OF sample_stable u] t] unfolding holds_iff by blast
  then have "server_reach sample_env 0 t6" "lastStableCheckpointSeqNum t6 = 0"
    using r checkpoint_step by blast+
  then show ?thesis using stable_checkpoint_proven [of sample_env 0 t6] by auto
qed

text \<open>
  A checkpoint message that arrives before the server's own checkpoint makes an entry whose digest
  is empty, and from then on every message with a different, that is, a real digest is dropped. So
  of the messages that arrive early only the first counts, and it counts whatever its digest is.
\<close>

theorem early_checkpoints_dropped:
  assumes "verifySignature_CheckpointReq E r1" and "cd_c_seq_num (cr_data r1) = c"
    and "lastStableCheckpointSeqNum s < c" and "lastExecuted s < c" and "sm_find (checkpoints s) c = None"
    and "cd_c_seq_num (cr_data r2) = c" and "cd_c_digest (cr_data r2) \<noteq> ''''"
  shows "\<exists>u. processCheckpoint E r1 s = Inr u \<and> processCheckpoint E r2 u = Inr u \<and>
     map_option ci_checkpointProofs (sm_find (checkpoints u) c) = Some [(sg_server_id (cr_signature r1), r1)]"
proof -
  let ?ci = "\<lparr>ci_state = [], ci_digest = '''', ci_checkpointProofs = [(sg_server_id (cr_signature r1), r1)]\<rparr>"
  let ?u = "s\<lparr>checkpoints := sm_put c ?ci (checkpoints s)\<rparr>"
  have "processCheckpoint E r1 s = Inr ?u"
    using assms(1-5) by (simp add: processCheckpoint_def Let_def new_CheckpointInfo_def)
  moreover have "processCheckpoint E r2 ?u = Inr ?u"
    using assms(3,6,7) by (simp add: processCheckpoint_def Let_def)
  moreover have "map_option ci_checkpointProofs (sm_find (checkpoints ?u) c) =
      Some [(sg_server_id (cr_signature r1), r1)]"
    by simp
  ultimately show ?thesis by blast
qed

theorem early_checkpoints_dropped_witness:
  "\<exists>u. processCheckpoint sample_env (checkpoint_of 2 9 ''ab'') replica = Inr u \<and>
     processCheckpoint sample_env (checkpoint_of 3 9 ''ab'') u = Inr u"
  using early_checkpoints_dropped [of sample_env "checkpoint_of 2 9 ''ab''" 9 replica "checkpoint_of 3 9 ''ab''"]
  by (auto simp: replica_def PbftServerImpl_def)

section \<open>Joining and leading a view change\<close>

definition stored_for :: "srv \<Rightarrow> int \<Rightarrow> int" where
  "stored_for s v = (case sm_find (viewChangeMessages s) v of None \<Rightarrow> 0 | Some m \<Rightarrow> int (length m))"

lemma stored_for_sent [simp]: "stored_for (sent xs s) v = stored_for s v"
  by (simp add: stored_for_def)

lemma stored_for_fields [simp]:
  "stored_for (s\<lparr>futures := fs\<rparr>) v = stored_for s v"
  "stored_for (start_timer x s) v = stored_for s v"
  "stored_for (s\<lparr>srvState := st\<rparr>) v = stored_for s v"
  "stored_for (s\<lparr>lastProposedView := n\<rparr>) v = stored_for s v"
  "stored_for (s\<lparr>selfTriggeredViewChangeMessages := m\<rparr>) v = stored_for s v"
  by (simp_all add: stored_for_def start_timer_def)

lemma processViewChange_valid:
  assumes "verifyViewChange E s r = Inr True" and "vd_view_num (vc_data r) = v" and "currentView s < v"
    and "s1 = s\<lparr>viewChangeMessages := sm_put2 v (sg_server_id (vc_signature r)) r (viewChangeMessages s)\<rparr>"
  shows "processViewChange E r s =
     (if v smod clusterSize s \<noteq> serverId s \<and> stored_for s1 v = pbft_f s + 1 \<and> srvState s \<noteq> VIEW_CHANGE_STATE
      then ebind (triggerViewChange E v s1) (\<lambda>s2. Ok (start_timer (ViewTimer v 0) s2))
      else if \<not> isByzantine s \<and> v smod clusterSize s = serverId s \<and> stored_for s1 v = 2 * pbft_f s
      then announce_view E v s1 else Ok s1)"
  using assms(1-3) unfolding assms(4) processViewChange_def Let_def stored_for_def
  by (simp cong: if_cong split del: if_split ebind_split)

text \<open>
  C24: a replica in the normal state that accepts a view-change message for a later view it will not
  lead joins the view change if and only if it now holds messages for that view from exactly
  \<open>f + 1 = 3\<close> senders; joining means that it stops taking part in the normal case, proposes the same
  view and sends its own view-change message to the six others.
\<close>

theorem view_change_joined:
  assumes "srv_inv E s" and "processViewChange E r s = Inr t" and "verifyViewChange E s r = Inr True"
    and "vd_view_num (vc_data r) = v" and "currentView s < v" and "v smod 7 \<noteq> serverId s"
    and "srvState s = NORMAL_STATE"
  shows "(srvState t = VIEW_CHANGE_STATE \<longleftrightarrow> stored_for t v = 3) \<and> currentView t = currentView s \<and>
     (stored_for t v = 3 \<longrightarrow> lastProposedView t = v \<and>
        (\<exists>own. vd_view_num (vc_data own) = v \<and> sg_server_id (vc_signature own) = serverId s \<and>
           outbox t = outbox s @ map (\<lambda>i. ToServer i (P_ViewChange own)) (others s)))"
proof -
  have f: "pbft_f s = 2" "clusterSize s = 7" using assms(1) by (auto simp: srv_inv_def config_ok_def)
  define s1 where "s1 = s\<lparr>viewChangeMessages :=
      sm_put2 v (sg_server_id (vc_signature r)) r (viewChangeMessages s)\<rparr>"
  have "processViewChange E r s = (if stored_for s1 v = 3 then ebind (triggerViewChange E v s1) (\<lambda>s2.
        Ok (start_timer (ViewTimer v 0) s2)) else Ok s1)"
    using assms(6,7) f by (simp add: processViewChange_valid [OF assms(3-5) s1_def] split del: ebind_split)
  then have step: "(if stored_for s1 v = 3 then ebind (triggerViewChange E v s1) (\<lambda>s2.
        Ok (start_timer (ViewTimer v 0) s2)) else Ok s1) = Inr t"
    using assms(2) by simp
  have s1: "srvState s1 = NORMAL_STATE" "currentView s1 = currentView s" "serverId s1 = serverId s"
      "outbox s1 = outbox s" "others s1 = others s" "clusterSize s1 = 7"
    using assms(7) f by (simp_all add: s1_def others_def)
  show ?thesis
  proof (cases "stored_for s1 v = 3")
    case False
    with step s1 show ?thesis by auto
  next
    case True
    then obtain s2 where trig: "triggerViewChange E v s1 = Inr s2" and t: "t = start_timer (ViewTimer v 0) s2"
      using step by auto
    obtain req where comp: "composeViewChangeRequest v (s1\<lparr>srvState := VIEW_CHANGE_STATE\<rparr>) = Inr req"
      and send: "sendViewChangeToAll E req (s1\<lparr>srvState := VIEW_CHANGE_STATE, lastProposedView := v,
          selfTriggeredViewChangeMessages := sm_put2 v (serverId s) req (selfTriggeredViewChangeMessages s1)\<rparr>) = Inr s2"
      using trig s1(3) unfolding triggerViewChange_def Let_def by auto
    define u where "u = s1\<lparr>srvState := VIEW_CHANGE_STATE, lastProposedView := v,
          selfTriggeredViewChangeMessages := sm_put2 v (serverId s) req (selfTriggeredViewChangeMessages s1)\<rparr>"
    define own where "own = req\<lparr>vc_signature := addECDSASignature E u (ser_vd E (vc_data req))\<rparr>"
    have u: "serverId u = serverId s" "clusterSize u = 7" "others u = others s" "outbox u = outbox s"
        "currentView u = currentView s" "lastProposedView u = v" "srvState u = VIEW_CHANGE_STATE"
        "stored_for u v = 3"
      using s1 True by (simp_all add: u_def others_def)
    have "s2 = sent (map (\<lambda>i. ToServer i (P_ViewChange own)) (others u)) u"
      using send u(2) by (simp add: sendViewChangeToAll_def to_others_payload own_def u_def [symmetric] Let_def)
    moreover have "vd_view_num (vc_data own) = v"
      using comp by (auto simp: composeViewChangeRequest_def own_def)
    moreover have "sg_server_id (vc_signature own) = serverId s"
      by (simp add: own_def addECDSASignature_def u)
    ultimately show ?thesis using u by (auto simp: t start_timer_def)
  qed
qed

text \<open>View-change messages for the sample: of server \<open>i\<close>, for view \<open>v\<close>, with nothing prepared.\<close>

definition view_change_of :: "int \<Rightarrow> int \<Rightarrow> ViewChangeReq" where
  "view_change_of i v =
     (let data = \<lparr>vd_view_num = v, vd_last_checkpoint = \<lparr>cd_c_seq_num = -1, cd_c_digest = ''''\<rparr>,
                  vd_cproofs = [], vd_pproofs = []\<rparr>
      in \<lparr>vc_data = data,
          vc_signature = \<lparr>sg_sig = signECDSA sample_env (ser_vd sample_env data) (serverPrECDSAKeyPath i),
                          sg_server_id = i\<rparr>\<rparr>)"

lemma view_change_of_view [simp]: "vd_view_num (vc_data (view_change_of i v)) = v"
  by (simp add: view_change_of_def Let_def)

lemma view_change_of_valid [simp]: "verifyViewChange sample_env s (view_change_of i v) = Inr True"
  using verify_sign [OF sample_key_pair]
  by (simp add: verifyViewChange_def view_change_of_def verifySignature_ViewChangeReq_def Let_def)

text \<open>A replica with an empty log has nothing to prove.\<close>

lemma collect_pproofs_empty:
  "\<forall>i \<in> set is. 0 \<le> i \<and> i < int (length (log s)) \<and> log s ! nat i = None \<Longrightarrow> collect_pproofs s is = Inr []"
  by (induction "is") (auto simp: vec_get_def)

lemma compose_empty:
  assumes "lastStableCheckpointSeqNum s = -1" and "lowWatermark s = 0" and "pbft_k s = 20"
    and "log s = replicate 20 None"
  shows "\<exists>r. composeViewChangeRequest v s = Inr r"
proof -
  have "collect_pproofs s [0..19] = Inr []"
    by (rule collect_pproofs_empty) (simp add: assms(4) nth_replicate nat_less_iff)
  then show ?thesis using assms(1-3) by (simp add: composeViewChangeRequest_def isub_def iadd_def cint_def)
qed

lemma trigger_empty:
  assumes "lastStableCheckpointSeqNum s = -1" and "lowWatermark s = 0" and "pbft_k s = 20"
    and "log s = replicate 20 None" and "clusterSize s = 7"
  shows "\<exists>t. triggerViewChange E v s = Inr t"
proof -
  obtain r where "composeViewChangeRequest v (s\<lparr>srvState := VIEW_CHANGE_STATE\<rparr>) = Inr r"
    using compose_empty [of "s\<lparr>srvState := VIEW_CHANGE_STATE\<rparr>" v] assms by auto
  moreover have "\<exists>t. sendViewChangeToAll E r u = Inr t" if "clusterSize u = 7" for u
    using sendToAll_Ok(2) [OF that] by blast
  ultimately show ?thesis using assms(5) by (simp add: triggerViewChange_def Let_def)
qed

text \<open>The replica with two view-change messages for view 2.\<close>

definition asked_replica :: srv where
  "asked_replica = replica\<lparr>viewChangeMessages := [(2, [(3, view_change_of 3 2), (4, view_change_of 4 2)])]\<rparr>"

lemma replica_fields [simp]:
  "lastStableCheckpointSeqNum replica = -1" "lowWatermark replica = 0" "pbft_k replica = 20"
  "log replica = replicate 20 None" "clusterSize replica = 7" "serverId replica = 0"
  "currentView replica = 1" "srvState replica = NORMAL_STATE" "pbft_f replica = 2"
  "viewChangeMessages replica = []" "isByzantine replica = False"
  by (simp_all add: replica_def PbftServerImpl_def)

lemma view_change_of_signer [simp]: "sg_server_id (vc_signature (view_change_of i v)) = i"
  by (simp add: view_change_of_def Let_def)

lemma sample_asked: "each (\<lambda>i. processViewChange sample_env (view_change_of i 2)) [3, 4] replica = Inr asked_replica"
proof -
  let ?s3 = "replica\<lparr>viewChangeMessages := [(2, [(3, view_change_of 3 2)])]\<rparr>"
  have "processViewChange sample_env (view_change_of 3 2) replica = Inr ?s3"
    by (subst processViewChange_valid [OF view_change_of_valid refl _ refl])
      (simp_all add: smod_nonneg stored_for_def sm_put2_def)
  moreover have "processViewChange sample_env (view_change_of 4 2) ?s3 = Inr asked_replica"
    by (subst processViewChange_valid [OF view_change_of_valid refl _ refl])
      (simp_all add: smod_nonneg stored_for_def sm_put2_def asked_replica_def)
  ultimately show ?thesis by simp
qed

lemma sample_join: "\<exists>t. processViewChange sample_env (view_change_of 5 2) asked_replica = Inr t"
proof -
  let ?s1 = "replica\<lparr>viewChangeMessages :=
      [(2, [(3, view_change_of 3 2), (4, view_change_of 4 2), (5, view_change_of 5 2)])]\<rparr>"
  obtain t where "triggerViewChange sample_env 2 ?s1 = Inr t"
    using trigger_empty [of ?s1 sample_env 2] by auto
  then show ?thesis
    by (subst processViewChange_valid [OF view_change_of_valid refl _ refl])
      (simp_all add: smod_nonneg stored_for_def sm_put2_def asked_replica_def)
qed

lemma processViewChange_inv:
  "srv_inv E s \<Longrightarrow> processViewChange E r s = Inr t \<Longrightarrow> srv_inv E t"
  using processViewChange_keeps [of E r s t E] by (simp add: keeps_def)

theorem view_change_joined_witness:
  "\<exists>t. processViewChange sample_env (view_change_of 5 2) asked_replica = Inr t \<and>
     srvState asked_replica = NORMAL_STATE \<and> (srvState t = VIEW_CHANGE_STATE \<longleftrightarrow> stored_for t 2 = 3)"
proof -
  obtain t where t: "processViewChange sample_env (view_change_of 5 2) asked_replica = Inr t"
    using sample_join by blast
  have inv: "srv_inv sample_env asked_replica"
    by (rule each_invariant [OF sample_asked, where P = "srv_inv sample_env"])
      (auto intro: replica_inv processViewChange_inv)
  have "srvState t = VIEW_CHANGE_STATE \<longleftrightarrow> stored_for t 2 = 3"
    using view_change_joined [OF inv t view_change_of_valid, of 2] by (simp add: smod_nonneg asked_replica_def)
  then show ?thesis using t by (auto simp: asked_replica_def)
qed

text \<open>
  The timer a replica starts when it joins a view change never does anything. It is armed for
  the view that \<open>triggerViewChange\<close> has just recorded in \<open>lastProposedView\<close>, and for such a view the
  closure returns at once, so a new leader that stays silent is not suspected by a replica that joined.
\<close>

theorem join_timer_is_void:
  assumes "triggerViewChange E v s = Inr t"
  shows "fire_ViewTimer v timeoutSeconds t = Inr t"
proof -
  have "srvState t = VIEW_CHANGE_STATE \<and> lastProposedView t = v"
    using assms by (auto simp: triggerViewChange_def Let_def dest!: send_only(5))
  then show ?thesis by (simp add: fire_ViewTimer_def)
qed

theorem join_timer_is_void_witness:
  "\<exists>t. triggerViewChange sample_env 2 replica = Inr t \<and> fire_ViewTimer 2 0 t = Inr t"
  using trigger_empty [of replica sample_env 2] join_timer_is_void [of sample_env 2 replica _ 0] by auto

section \<open>Checking and answering a new view\<close>

text \<open>
  C25: the checkpoint certificate in a view-change message is counted with repetitions. One properly signed
  checkpoint message, five times over, passes as the \<open>2f + 1\<close> proofs of a stable checkpoint.
\<close>

theorem repeated_checkpoint_proof_accepted:
  assumes "pbft_f s = 2" and "verifySignature_CheckpointReq E c"
    and "vd_last_checkpoint (vc_data r) = cr_data c" and "vd_cproofs (vc_data r) = replicate 5 c"
    and "vd_pproofs (vc_data r) = []" and "verifySignature_ViewChangeReq E r"
  shows "verifyViewChange E s r = Inr True"
  using assms by (simp add: verifyViewChange_def valid_cproof_def Let_def)

text \<open>Server 3 alone claims that checkpoint 999 is stable.\<close>

definition bold_view_change :: ViewChangeReq where
  "bold_view_change =
     (let data = \<lparr>vd_view_num = 2, vd_last_checkpoint = cr_data (checkpoint_of 3 999 ''ff''),
                  vd_cproofs = replicate 5 (checkpoint_of 3 999 ''ff''), vd_pproofs = []\<rparr>
      in \<lparr>vc_data = data,
          vc_signature = \<lparr>sg_sig = signECDSA sample_env (ser_vd sample_env data) (serverPrECDSAKeyPath 3),
                          sg_server_id = 3\<rparr>\<rparr>)"

theorem repeated_checkpoint_proof_accepted_witness:
  "verifyViewChange sample_env replica bold_view_change = Inr True"
  by (rule repeated_checkpoint_proof_accepted [where c = "checkpoint_of 3 999 ''ff''"])
    (simp_all add: bold_view_change_def Let_def verifySignature_ViewChangeReq_def
      verify_sign [OF sample_key_pair])

section \<open>The requests of the new view\<close>

definition proof_seq :: "PrepareProof \<Rightarrow> int" where
  "proof_seq p = cx_sequence_num (rq_data (pr_pre_prepare p))"

definition proof_view :: "PrepareProof \<Rightarrow> int" where
  "proof_view p = cx_view_num (rq_data (pr_pre_prepare p))"

text \<open>A proof counts when it lies above the stable checkpoint and has \<open>2f\<close> valid prepares.\<close>

definition eligible :: "env \<Rightarrow> srv \<Rightarrow> int \<Rightarrow> PrepareProof \<Rightarrow> bool" where
  "eligible E s maxStable p \<longleftrightarrow> maxStable < proof_seq p \<and>
     (\<exists>k. count_valid (valid_prepare E s (pr_pre_prepare p)) (pr_prepares p) = Inr k \<and> 2 * pbft_f s \<le> k)"

definition mega_spec ::
  "env \<Rightarrow> srv \<Rightarrow> int \<Rightarrow> PrepareProof list \<Rightarrow> int \<Rightarrow> (int, Request) smap \<Rightarrow> bool" where
  "mega_spec E s ms ps mx m \<longleftrightarrow> 0 \<le> mx \<and>
     (\<forall>p \<in> set ps. ms < proof_seq p \<longrightarrow> proof_seq p \<le> mx) \<and>
     (mx = 0 \<or> (\<exists>p \<in> set ps. ms < proof_seq p \<and> proof_seq p = mx)) \<and>
     (\<forall>n r. sm_find m n = Some r \<longrightarrow> (\<exists>p \<in> set ps. eligible E s ms p \<and> pr_pre_prepare p = r \<and> proof_seq p = n)) \<and>
     (\<forall>p \<in> set ps. eligible E s ms p \<longrightarrow>
        (\<exists>r. sm_find m (proof_seq p) = Some r \<and> proof_view p \<le> cx_view_num (rq_data r)))"

lemma mega_spec_Nil: "mega_spec E s ms [] 0 []"
  by (simp add: mega_spec_def)

lemma mega_step_cases:
  assumes "mega_step E ms p (s, mx, m) = Inr (s', mx', m')"
  shows "s' = s \<and>
     (proof_seq p \<le> ms \<and> mx' = mx \<and> m' = m \<or>
      ms < proof_seq p \<and> mx' = max mx (proof_seq p) \<and>
      (if eligible E s ms p \<and> (\<forall>r. sm_find m (proof_seq p) = Some r \<longrightarrow> cx_view_num (rq_data r) < proof_view p)
       then m' = sm_put (proof_seq p) (pr_pre_prepare p) m else m' = m))"
  using assms unfolding mega_step_def Let_def proof_seq_def [symmetric] proof_view_def [symmetric]
  by (auto simp: eligible_def split: if_splits option.splits)

lemma mega_spec_step:
  assumes "mega_spec E s ms ps mx m" and "mega_step E ms p (s, mx, m) = Inr (s', mx', m')"
  shows "s' = s \<and> mega_spec E s ms (ps @ [p]) mx' m'"
proof -
  have c: "s' = s" "proof_seq p \<le> ms \<and> mx' = mx \<and> m' = m \<or>
      ms < proof_seq p \<and> mx' = max mx (proof_seq p) \<and>
      (if eligible E s ms p \<and> (\<forall>r. sm_find m (proof_seq p) = Some r \<longrightarrow> cx_view_num (rq_data r) < proof_view p)
       then m' = sm_put (proof_seq p) (pr_pre_prepare p) m else m' = m)"
    using mega_step_cases [OF assms(2)] by auto
  show ?thesis
  proof (cases "proof_seq p \<le> ms")
    case True
    then have "\<not> eligible E s ms p" "mx' = mx" "m' = m" using c(2) by (auto simp: eligible_def)
    with assms(1) True c(1) show ?thesis by (fastforce simp: mega_spec_def)
  next
    case False
    then have mx: "mx' = max mx (proof_seq p)" using c(2) by auto
    have old: "\<And>n r. sm_find m n = Some r \<Longrightarrow> \<exists>p \<in> set ps. eligible E s ms p \<and> pr_pre_prepare p = r \<and> proof_seq p = n"
      "\<And>q. q \<in> set ps \<Longrightarrow> eligible E s ms q \<Longrightarrow>
        \<exists>r. sm_find m (proof_seq q) = Some r \<and> proof_view q \<le> cx_view_num (rq_data r)"
      "\<And>q. q \<in> set ps \<Longrightarrow> ms < proof_seq q \<Longrightarrow> proof_seq q \<le> mx" "0 \<le> mx"
      "mx = 0 \<or> (\<exists>p \<in> set ps. ms < proof_seq p \<and> proof_seq p = mx)"
      using assms(1) by (auto simp: mega_spec_def)
    let ?better = "eligible E s ms p \<and>
        (\<forall>r. sm_find m (proof_seq p) = Some r \<longrightarrow> cx_view_num (rq_data r) < proof_view p)"
    have m': "m' = (if ?better then sm_put (proof_seq p) (pr_pre_prepare p) m else m)"
      using c(2) False by (auto split: if_splits)
    have top: "0 \<le> mx'" "\<forall>q \<in> set (ps @ [p]). ms < proof_seq q \<longrightarrow> proof_seq q \<le> mx'"
        "mx' = 0 \<or> (\<exists>q \<in> set (ps @ [p]). ms < proof_seq q \<and> proof_seq q = mx')"
    proof -
      show "0 \<le> mx'" using old(4) by (simp add: mx)
      show "\<forall>q \<in> set (ps @ [p]). ms < proof_seq q \<longrightarrow> proof_seq q \<le> mx'"
        using old(3) by (auto simp: mx le_max_iff_disj)
      show "mx' = 0 \<or> (\<exists>q \<in> set (ps @ [p]). ms < proof_seq q \<and> proof_seq q = mx')"
        using old(5) False by (auto simp: mx max_def)
    qed
    have src: "\<exists>q \<in> set (ps @ [p]). eligible E s ms q \<and> pr_pre_prepare q = r \<and> proof_seq q = n"
      if "sm_find m' n = Some r" for n r
      using that old(1) by (auto simp: m' split: if_splits)
    have dst: "\<exists>r. sm_find m' (proof_seq q) = Some r \<and> proof_view q \<le> cx_view_num (rq_data r)"
      if q: "q \<in> set (ps @ [p])" "eligible E s ms q" for q
    proof (cases "proof_seq q = proof_seq p \<and> ?better")
      case True
      then have "proof_view q \<le> proof_view p" using q old(2) by (cases "q = p") force+
      with True show ?thesis by (simp add: m' proof_view_def)
    next
      case other: False
      show ?thesis
      proof (cases "q \<in> set ps")
        case True
        with old(2) q(2) other show ?thesis by (auto simp: m')
      next
        case False
        with q other show ?thesis by (auto simp: m' not_less)
      qed
    qed
    show ?thesis unfolding mega_spec_def using c(1) top src dst by blast
  qed
qed

lemma mega_spec_all:
  "each (mega_step E ms) ps (s, 0, []) = Inr (s', mx, m) \<Longrightarrow> s' = s \<and> mega_spec E s ms ps mx m"
proof (induction ps arbitrary: s' mx m rule: rev_induct)
  case Nil
  then show ?case by (simp add: mega_spec_Nil)
next
  case (snoc p ps)
  from snoc.prems obtain acc where acc: "each (mega_step E ms) ps (s, 0, []) = Inr acc"
    and st: "mega_step E ms p acc = Inr (s', mx, m)"
    by (auto simp: each_append)
  obtain s1 mx1 m1 where a: "acc = (s1, mx1, m1)" by (cases acc)
  with snoc.IH acc have "s1 = s" "mega_spec E s ms ps mx1 m1" by auto
  with mega_spec_step [of E s ms ps mx1 m1 p s' mx m] st a show ?case by simp
qed

lemma max_checkpoint_spec:
  "max_checkpoint vs (a, cp, sv) = (ms, cp', sv') \<Longrightarrow>
     a \<le> ms \<and> (\<forall>v \<in> set vs. cd_c_seq_num (vd_last_checkpoint (vc_data v)) \<le> ms) \<and>
     (ms = a \<or> (\<exists>v \<in> set vs. cd_c_seq_num (vd_last_checkpoint (vc_data v)) = ms))"
proof (induction vs arbitrary: a cp sv)
  case (Cons v vs)
  show ?case
  proof (cases "a < cd_c_seq_num (vd_last_checkpoint (vc_data v))")
    case True
    then show ?thesis using Cons.prems Cons.IH by (fastforce simp: Let_def)
  next
    case False
    then show ?thesis using Cons.prems Cons.IH by (fastforce simp: Let_def)
  qed
qed auto

text \<open>The request that the new view gets for sequence number \<open>n\<close>.\<close>

definition chosen :: "env \<Rightarrow> srv \<Rightarrow> int \<Rightarrow> PrepareProof list \<Rightarrow> int \<Rightarrow> Request \<Rightarrow> bool" where
  "chosen E s ms ps n r \<longleftrightarrow>
     (let good = {p \<in> set ps. eligible E s ms p \<and> proof_seq p = n}
      in if good = {} then r = nop_request E s
         else \<exists>p \<in> good. r = pr_pre_prepare p \<and> (\<forall>q \<in> good. proof_view q \<le> proof_view p))"

lemma mega_chosen:
  assumes "mega_spec E s ms ps mx mega"
  shows "chosen E s ms ps n (case sm_find mega n of Some r \<Rightarrow> r | None \<Rightarrow> nop_request E s)"
proof (cases "sm_find mega n")
  case None
  then have "\<not> (\<exists>p \<in> set ps. eligible E s ms p \<and> proof_seq p = n)"
    using assms by (auto simp: mega_spec_def)
  with None show ?thesis by (auto simp: chosen_def Let_def)
next
  case (Some r)
  then obtain p where p: "p \<in> set ps" "eligible E s ms p" "pr_pre_prepare p = r" "proof_seq p = n"
    using assms unfolding mega_spec_def by blast
  have "proof_view q \<le> proof_view p" if "q \<in> set ps" "eligible E s ms q" "proof_seq q = n" for q
    using assms that Some p(3) unfolding mega_spec_def proof_view_def by fastforce
  with p Some show ?thesis by (auto simp: chosen_def Let_def)
qed

text \<open>
  C26: what \<open>computeBigO\<close> makes of the view-change messages. Let \<open>ms\<close> be the largest stable checkpoint they
  name (at least 0) and \<open>mx\<close> the largest sequence number above it that any prepare proof names. The
  result has one request for each sequence number from \<open>ms + 1\<close> to \<open>mx - 1\<close>, in order: the proposal of
  a sufficiently supported proof whose view no other such proof exceeds, or, where there is none,
  the filler. So the request prepared at \<open>mx\<close> itself is not carried over.
\<close>

theorem computeBigO_choice:
  assumes "computeBigO E vs s = Inr (rs, cp, sv)"
  shows "\<exists>ms mx. 0 \<le> ms \<and> (\<forall>v \<in> set vs. cd_c_seq_num (vd_last_checkpoint (vc_data v)) \<le> ms) \<and>
     (ms = 0 \<or> (\<exists>v \<in> set vs. cd_c_seq_num (vd_last_checkpoint (vc_data v)) = ms)) \<and>
     (\<forall>p \<in> set (all_pproofs vs). ms < proof_seq p \<longrightarrow> proof_seq p \<le> mx) \<and>
     (mx = 0 \<or> (\<exists>p \<in> set (all_pproofs vs). ms < proof_seq p \<and> proof_seq p = mx)) \<and>
     length rs = nat (mx - 1 - ms) \<and>
     (\<forall>i < length rs. chosen E s ms (all_pproofs vs) (ms + 1 + int i) (rs ! i))"
proof -
  obtain v0 ms cpx svx where v0: "vec_get vs 0 = Inr v0"
    and mc: "max_checkpoint vs (0, vd_last_checkpoint (vc_data v0), None) = (ms, cpx, svx)"
    using assms by (cases "max_checkpoint vs (0, vd_last_checkpoint (vc_data (vs ! 0)), None)")
      (auto simp: computeBigO_def)
  obtain s' mx mega where ev: "each (mega_step E ms) (all_pproofs vs) (s, 0, []) = Inr (s', mx, mega)"
    and rs: "rs = map (\<lambda>i. case sm_find mega i of Some r \<Rightarrow> r | None \<Rightarrow> nop_request E s) [ms + 1..mx - 1]"
    using assms mc v0 by (auto simp: computeBigO_def)
  have spec: "mega_spec E s ms (all_pproofs vs) mx mega" using mega_spec_all [OF ev] by simp
  have "chosen E s ms (all_pproofs vs) (ms + 1 + int i) (rs ! i)" if "i < length rs" for i
    using mega_chosen [OF spec] that by (simp add: rs nth_upto)
  moreover have "length rs = nat (mx - 1 - ms)" by (simp add: rs)
  ultimately show ?thesis
    using max_checkpoint_spec [OF mc] spec unfolding mega_spec_def by blast
qed

text \<open>A proof of a proposal that servers 2 to 5 voted for, and a message that carries two of them.\<close>

definition supported :: "PrePrepareRequest \<Rightarrow> PrepareProof" where
  "supported r = \<lparr>pr_pre_prepare = pp_r r, pr_prepares = map (vote r) [2, 3, 4, 5]\<rparr>"

definition carrying :: "PrepareProof list \<Rightarrow> ViewChangeReq" where
  "carrying ps = (view_change_of 3 2)\<lparr>vc_data := (vc_data (view_change_of 3 2))\<lparr>vd_pproofs := ps\<rparr>\<rparr>"

lemma supported_sel [simp]:
  "pr_pre_prepare (supported r) = pp_r r"
  "serverId s = 0 \<Longrightarrow> count_valid (valid_prepare E s (pp_r r)) (pr_prepares (supported r)) = Inr 4"
  by (simp_all add: supported_def valid_prepare_def vote_def verifySignature_Request_def verifyMAC_def)

lemma sample_bigO:
  "\<exists>cp sv. computeBigO sample_env [carrying [supported (proposal 1 1 request1), supported (proposal 1 2 request2)]] replica
     = Inr ([pp_r (proposal 1 1 request1)], cp, sv)"
proof -
  let ?ps = "[supported (proposal 1 1 request1), supported (proposal 1 2 request2)]"
  have c: "cd_c_seq_num (vd_last_checkpoint (vc_data (carrying ?ps))) = -1" "all_pproofs [carrying ?ps] = ?ps"
    by (simp_all add: carrying_def view_change_of_def Let_def all_pproofs_def)
  have "each (mega_step sample_env 0) ?ps (replica, 0, []) =
      Inr (replica, 2, [(1, pp_r (proposal 1 1 request1)), (2, pp_r (proposal 1 2 request2))])"
    by (simp add: mega_step_def Let_def)
  then show ?thesis
    by (simp add: computeBigO_def vec_get_def c Let_def iadd_def cint_def)
qed

theorem computeBigO_choice_witness:
  "\<exists>ms mx. 0 \<le> ms \<and> nat (mx - 1 - ms) = 1 \<and>
     chosen sample_env replica ms [supported (proposal 1 1 request1), supported (proposal 1 2 request2)] (ms + 1)
       (pp_r (proposal 1 1 request1))"
proof -
  let ?ps = "[supported (proposal 1 1 request1), supported (proposal 1 2 request2)]"
  have c: "all_pproofs [carrying ?ps] = ?ps"
    by (simp add: carrying_def view_change_of_def Let_def all_pproofs_def)
  obtain cp sv where "computeBigO sample_env [carrying ?ps] replica = Inr ([pp_r (proposal 1 1 request1)], cp, sv)"
    using sample_bigO by blast
  then obtain ms mx where f: "0 \<le> ms" "length [pp_r (proposal 1 1 request1)] = nat (mx - 1 - ms)"
    "\<forall>i < length [pp_r (proposal 1 1 request1)]. chosen sample_env replica ms ?ps (ms + 1 + int i)
       ([pp_r (proposal 1 1 request1)] ! i)"
    using computeBigO_choice [of sample_env "[carrying ?ps]" replica, unfolded c] by blast
  have "chosen sample_env replica ms ?ps (ms + 1) (pp_r (proposal 1 1 request1))"
    using f(3) [rule_format, of 0] by simp
  with f(1,2) show ?thesis by (metis One_nat_def length_Cons list.size(3))
qed

section \<open>Entering a new view\<close>

lemma check_bigO_same:
  "check_bigO rs qs i = Inr True \<Longrightarrow> 0 \<le> i \<Longrightarrow> k < length rs \<Longrightarrow> nat i + k < length qs \<and>
     cx_view_num (rq_data (rs ! k)) = cx_view_num (rq_data (qs ! (nat i + k))) \<and>
     cx_sequence_num (rq_data (rs ! k)) = cx_sequence_num (rq_data (qs ! (nat i + k))) \<and>
     cx_digest (rq_data (rs ! k)) = cx_digest (rq_data (qs ! (nat i + k)))"
proof (induction rs arbitrary: i k)
  case (Cons r rs)
  have h: "0 \<le> i" "i < int (length qs)" "check_bigO rs qs (i + 1) = Inr True"
      "cx_view_num (rq_data r) = cx_view_num (rq_data (qs ! nat i))"
      "cx_sequence_num (rq_data r) = cx_sequence_num (rq_data (qs ! nat i))"
      "cx_digest (rq_data r) = cx_digest (rq_data (qs ! nat i))"
    using Cons.prems(1) by (auto split: if_splits)
  show ?case
  proof (cases k)
    case 0
    with h show ?thesis by (simp add: nat_less_iff)
  next
    case (Suc j)
    have "nat (i + 1) + j = nat i + k" using h(1) Suc by simp
    with Cons.IH [OF h(3), of j] Cons.prems(2,3) Suc show ?thesis by simp
  qed
qed simp

lemma enter_view_votes:
  assumes "each (send_new_view_ok E) qs u = Inr t"
  shows "\<exists>oks. t = sent (map (\<lambda>r. ToServer (getLeaderId u) (P_PrePrepareOk r)) oks) u \<and>
     map rq_data oks = map rq_data qs"
  using assms
proof (induction qs arbitrary: u)
  case Nil
  then show ?case by (intro exI [of _ "[]"]) simp
next
  case (Cons q qs)
  then obtain u1 where st: "send_new_view_ok E q u = Inr u1" and rest: "each (send_new_view_ok E) qs u1 = Inr t"
    by auto
  then obtain r where u1: "u1 = sent [ToServer (getLeaderId u) (P_PrePrepareOk r)] u" "rq_data r = rq_data q"
    by (auto simp: send_new_view_ok_def sendRequest_def emit_eq_sent Let_def)
  obtain oks where "t = sent (map (\<lambda>r. ToServer (getLeaderId u1) (P_PrePrepareOk r)) oks) u1"
      "map rq_data oks = map rq_data qs"
    using Cons.IH [OF rest] by blast
  with u1 show ?case by (intro exI [of _ "r # oks"]) simp
qed

text \<open>
  C27: a new-view message changes a replica only when it is signed by its sender, names a later view,
  carries at least \<open>2f + 1 = 5\<close> view-change messages that verify (repetitions count), and starts with
  the requests that the replica computes from them. Then the replica enters the view and sends the new
  leader a vote for every request of the message, also for those after the computed ones; its log and
  its entries stay as they are.
\<close>

theorem new_view_entered:
  assumes "srv_inv E s" and "processNewView E r s = Inr t" and "t \<noteq> s"
  defines "d \<equiv> nv_data r"
  shows "verifySignature_NewViewReq E r \<and> currentView s < nd_view_num d \<and>
     (\<exists>k. count_valid (verifyViewChange E s) (nd_vproofs d) = Inr k \<and> 5 \<le> k) \<and>
     (\<exists>bigO cp sv. computeBigO E (nd_vproofs d) s = Inr (bigO, cp, sv) \<and>
        length bigO \<le> length (nd_pre_prepares d) \<and>
        (\<forall>k < length bigO. rq_data (bigO ! k) = rq_data (nd_pre_prepares d ! k))) \<and>
     currentView t = nd_view_num d \<and> srvState t = NORMAL_STATE \<and> log t = log s \<and> heap t = heap s \<and>
     (\<exists>oks. outbox t = outbox s @ map (\<lambda>q. ToServer (getLeaderId t) (P_PrePrepareOk q)) oks \<and>
        map rq_data oks = map rq_data (nd_pre_prepares d))"
proof -
  have f: "pbft_f s = 2" using assms(1) by (simp add: srv_inv_def config_ok_def)
  obtain k bigO cp sv where v: "verifySignature_NewViewReq E r" "currentView s < nd_view_num d"
    and k: "count_valid (verifyViewChange E s) (nd_vproofs d) = Inr k" "5 \<le> k"
    and big: "computeBigO E (nd_vproofs d) s = Inr (bigO, cp, sv)"
    and chk: "check_bigO bigO (nd_pre_prepares d) 0 = Inr True" and ent: "enter_view E d s = Inr t"
    using assms(2,3) f unfolding processNewView_def Let_def d_def by (auto split: if_splits)
  have same: "i < length (nd_pre_prepares d) \<and> rq_data (bigO ! i) = rq_data (nd_pre_prepares d ! i)"
    if "i < length bigO" for i
    using check_bigO_same [OF chk _ that] by simp
  then have "length bigO \<le> length (nd_pre_prepares d)"
    by (metis less_irrefl not_less)
  define u where "u = s\<lparr>srvState := NORMAL_STATE, currentView := nd_view_num d,
      viewChangeMessages := fold (\<lambda>v. sm_put2 (nd_view_num d) (sg_server_id (vc_signature v)) v) (nd_vproofs d)
          (sm_put (nd_view_num d) [] (viewChangeMessages s))\<rparr>"
  have u: "currentView u = nd_view_num d" "srvState u = NORMAL_STATE" "log u = log s" "heap u = heap s"
      "outbox u = outbox s"
    by (simp_all add: u_def)
  obtain oks where t: "t = sent (map (\<lambda>q. ToServer (getLeaderId u) (P_PrePrepareOk q)) oks) u"
    and oks: "map rq_data oks = map rq_data (nd_pre_prepares d)"
    using enter_view_votes [OF ent [unfolded enter_view_def, folded u_def]] by blast
  have "currentView t = nd_view_num d \<and> srvState t = NORMAL_STATE \<and> log t = log s \<and> heap t = heap s \<and>
      outbox t = outbox s @ map (\<lambda>q. ToServer (getLeaderId t) (P_PrePrepareOk q)) oks"
    by (simp add: t u)
  with \<open>length bigO \<le> length (nd_pre_prepares d)\<close> show ?thesis
    using v k big same oks by blast
qed

text \<open>A new view with five view-change messages that carry nothing.\<close>

definition plain_new_view :: NewViewReq where
  "plain_new_view =
     (let data = \<lparr>nd_view_num = 2, nd_vproofs = map (\<lambda>i. view_change_of i 2) [2, 3, 4, 5, 6], nd_pre_prepares = []\<rparr>
      in \<lparr>nv_data = data, nv_signature = \<lparr>sg_sig = signECDSA sample_env (ser_nd sample_env data) (serverPrECDSAKeyPath 2),
            sg_server_id = 2\<rparr>\<rparr>)"

lemma sample_new_view: "\<exists>t. processNewView sample_env plain_new_view replica = Inr t \<and> currentView t = 2"
proof -
  have v: "verifySignature_NewViewReq sample_env plain_new_view"
    by (simp add: plain_new_view_def verifySignature_NewViewReq_def Let_def verify_sign [OF sample_key_pair])
  have d: "nd_view_num (nv_data plain_new_view) = 2" "nd_pre_prepares (nv_data plain_new_view) = []"
      "nd_vproofs (nv_data plain_new_view) = map (\<lambda>i. view_change_of i 2) [2, 3, 4, 5, 6]"
    by (simp_all add: plain_new_view_def Let_def)
  have cp: "cd_c_seq_num (vd_last_checkpoint (vc_data (view_change_of i 2))) = -1"
      "vd_pproofs (vc_data (view_change_of i 2)) = []" for i
    by (simp_all add: view_change_of_def Let_def)
  have big: "\<exists>c x. computeBigO sample_env (map (\<lambda>i. view_change_of i 2) [2, 3, 4, 5, 6]) replica = Inr ([], c, x)"
    by (simp add: computeBigO_def all_pproofs_def cp Let_def vec_get_def iadd_def cint_def)
  then show ?thesis
    using v by (auto simp: processNewView_def enter_view_def d Let_def)
qed

theorem new_view_entered_witness:
  "\<exists>t. processNewView sample_env plain_new_view replica = Inr t \<and> currentView t = 2 \<and>
     (\<exists>k. count_valid (verifyViewChange sample_env replica) (nd_vproofs (nv_data plain_new_view)) = Inr k \<and> 5 \<le> k)"
proof -
  obtain t where t: "processNewView sample_env plain_new_view replica = Inr t" "currentView t = 2"
    using sample_new_view by blast
  then have "t \<noteq> replica" by auto
  with new_view_entered [OF replica_inv t(1)] t show ?thesis by auto
qed

text \<open>
  C28: the filler of a new view is poison for the leader. Its sequence number is -1, so the vote that
  a replica sends for it makes the leader of the new view read in front of its log.
\<close>

theorem filler_vote_faults:
  assumes "srv_inv E s" and "srvState s = NORMAL_STATE" and "serverId s = getLeaderId s"
    and "rq_data r = rq_data (nop_request E' u)"
  shows "\<exists>e. processPrePrepareOk E r s = Inl e"
proof -
  have seq: "cx_sequence_num (rq_data r) = -1" using assms(4) by (simp add: nop_request_def Let_def)
  have low: "0 \<le> lowWatermark s" "highWatermark s \<le> int32_max" "highWatermark s = lowWatermark s + 19"
    using assms(1) by (auto simp: srv_inv_def window_ok_def)
  have "\<not> (\<exists>p e. log_entry s (-1 - lowWatermark s) = Inr (p, e))"
    using low by (auto simp: log_entry_Ok_iff)
  moreover have "isub (-1) (lowWatermark s) = Inr (-1 - lowWatermark s)"
    using low by (simp add: int32_max_def)
  ultimately have "\<not> (\<exists>t. processPrePrepareOk E r s = Inr t)"
    using assms(2,3) unfolding processPrePrepareOk_def Let_def seq
    by (auto simp: verifySignature_Request_def verifyMAC_def)
  then show ?thesis by (cases "processPrePrepareOk E r s") auto
qed

theorem filler_vote_faults_witness:
  "\<exists>e. processPrePrepareOk sample_env (nop_request sample_env replica) leader = Inl e"
  by (rule filler_vote_faults [OF leader_inv, where E' = sample_env and u = replica])
    (simp_all add: leader_def PbftServerImpl_def getLeaderId_def smod_nonneg)

end
