(* ===== verification/Server_Reads.thy ===== *)
theory Server_Reads
  imports Server_Change
begin

text \<open>
  What the driver is told (\<open>GetLog\<close>, \<open>GetStatus\<close>, \<open>GetDB\<close>), and that the signatures a server makes
  are the ones the others accept.
\<close>

section \<open>The log and the status of a sequence number\<close>

lemma log_lines_window:
  assumes "srv_inv E s" and "\<forall>n \<in> set ns. lowWatermark s \<le> n \<and> n \<le> highWatermark s"
  shows "log_lines s ns = Inr (map (\<lambda>n. case entry_at s n of None \<Rightarrow> blank_line | Some e \<Rightarrow> log_line e) ns)"
  using assms(2)
proof (induction ns)
  case (Cons n ns)
  have w: "highWatermark s = lowWatermark s + 19" "length (log s) = 20"
    using assms(1) by (auto simp: srv_inv_def window_ok_def)
  let ?i = "n - lowWatermark s"
  have i: "0 \<le> ?i" "?i < 20" "nat ?i < 20" using Cons.prems w by auto
  then have get: "isub n (lowWatermark s) = Inr ?i" "vec_get (log s) ?i = Inr (log s ! nat ?i)"
    using w by simp_all
  show ?case
  proof (cases "log s ! nat ?i")
    case None
    then have "entry_at s n = None" using i w by (simp add: entry_at_def)
    with None get Cons show ?thesis by simp
  next
    case (Some p)
    have "p < length (heap s)" using srv_inv_slotD(1) [OF assms(1) i(3) Some] .
    moreover have "entry_at s n = Some (heap s ! p)" using Some i w by (simp add: entry_at_def)
    ultimately show ?thesis using Some get Cons by (simp add: deref_def)
  qed
qed simp

text \<open>
  \<open>GetLog\<close> always returns, with one line for every sequence number from the low watermark to the
  last proposed one: the request, its votes and its result where there is an entry, a blank line where
  there is none.
\<close>

theorem GetLog_complete:
  assumes "srv_inv E s"
  shows "\<exists>g. GetLog s = Inr g \<and> gl_last_executed g = lastExecuted s \<and>
     gl_entries g = map (\<lambda>n. case entry_at s n of None \<Rightarrow> blank_line | Some e \<Rightarrow> log_line e)
       [lowWatermark s..currentSequence s] \<and>
     int (length (gl_entries g)) = currentSequence s - lowWatermark s + 1"
proof -
  have w: "currentSequence s \<le> highWatermark s" "lowWatermark s \<le> currentSequence s + 1"
    using assms by (auto simp: srv_inv_def window_ok_def)
  then have "log_lines s [lowWatermark s..currentSequence s] =
      Inr (map (\<lambda>n. case entry_at s n of None \<Rightarrow> blank_line | Some e \<Rightarrow> log_line e)
        [lowWatermark s..currentSequence s])"
    by (intro log_lines_window [OF assms]) auto
  with w show ?thesis by (simp add: GetLog_def)
qed

theorem GetLog_complete_witness:
  "\<exists>g. GetLog gap_replica = Inr g \<and> int (length (gl_entries g)) = 2"
proof -
  have "currentSequence gap_replica = 1" "lowWatermark gap_replica = 0"
    by (simp_all add: gap_replica_def)
  with GetLog_complete [OF gap_replica_inv] show ?thesis by auto
qed

text \<open>
  \<open>GetStatus\<close> answers \<open>E\<close> for everything up to \<open>lastExecuted\<close>, the status of the entry inside the
  window, and \<open>NS\<close> outside it or for an empty slot, except for the sequence number right behind the window:
  the bound check lets the index \<open>k\<close> through, and the log has no such slot.
\<close>

theorem GetStatus_outcome:
  assumes "srv_inv E s" and "in_int32 (n - lowWatermark s)"
  shows "GetStatus n s =
     (if n \<le> lastExecuted s then Ok ''E''
      else if n = highWatermark s + 1 then Fault Out_of_bounds
      else Ok (case entry_at s n of None \<Rightarrow> ''NS'' | Some e \<Rightarrow> status_letter (mi_mstatus e)))"
proof -
  let ?i = "n - lowWatermark s"
  have w: "highWatermark s = lowWatermark s + 19" "length (log s) = 20" "pbft_k s = 20"
      "lowWatermark s \<le> lastExecuted s + 1"
    using assms(1) by (auto simp: srv_inv_def window_ok_def config_ok_def)
  have sub: "isub n (lowWatermark s) = Inr ?i" using assms(2) by simp
  consider "n \<le> lastExecuted s" | "lastExecuted s < n" "n \<le> highWatermark s"
    | "lastExecuted s < n" "n = highWatermark s + 1" | "lastExecuted s < n" "highWatermark s + 1 < n"
    by linarith
  then show ?thesis
  proof cases
    case 1
    then show ?thesis by (simp add: GetStatus_def sub)
  next
    case 2
    then have i: "0 \<le> ?i" "?i < 20" "nat ?i < 20" using w by auto
    then have get: "vec_get (log s) ?i = Inr (log s ! nat ?i)" using w by simp
    show ?thesis
    proof (cases "log s ! nat ?i")
      case None
      then have "entry_at s n = None" using i w by (simp add: entry_at_def)
      then show ?thesis using 2 i w None get by (simp add: GetStatus_def sub)
    next
      case (Some p)
      have "p < length (heap s)" using srv_inv_slotD(1) [OF assms(1) i(3) Some] .
      moreover have "entry_at s n = Some (heap s ! p)" using Some i w by (simp add: entry_at_def)
      ultimately show ?thesis using 2 i w Some get by (simp add: GetStatus_def sub deref_def)
    qed
  next
    case 3
    then have "vec_get (log s) ?i = Inl Out_of_bounds" using w by simp
    then show ?thesis using 3 w by (simp add: GetStatus_def sub)
  next
    case 4
    then have "entry_at s n = None" using w by (simp add: entry_at_def)
    then show ?thesis using 4 w by (simp add: GetStatus_def sub)
  qed
qed

theorem GetStatus_outcome_witness:
  "GetStatus 20 replica = Fault Out_of_bounds \<and> GetStatus 0 replica = Ok ''NS''"
proof -
  have "highWatermark replica = 19" "lastExecuted replica = -1" "entry_at replica 0 = None"
    by (simp_all add: replica_def PbftServerImpl_def entry_at_def)
  with GetStatus_outcome [OF replica_inv, of 20] GetStatus_outcome [OF replica_inv, of 0]
  show ?thesis by simp
qed

section \<open>Signatures\<close>

text \<open>
  If server \<open>i\<close>'s two key files hold a key pair, every message that the server signs and sends verifies at
  whoever receives it: checkpoint, view-change and new-view messages, as the \<open>sendXToAll\<close> functions sign them.
\<close>

theorem own_messages_verify:
  assumes "key_pair E (serverPrECDSAKeyPath (serverId s)) (serverPbECDSAKeyPath (serverId s))"
    and "clusterSize s = 7"
  shows "\<exists>c' v' n'. cr_data c' = cr_data c \<and> vc_data v' = vc_data v \<and> nv_data n' = nv_data n \<and>
     verifySignature_CheckpointReq E c' \<and> verifySignature_ViewChangeReq E v' \<and> verifySignature_NewViewReq E n' \<and>
     sendCheckpointToAll E c s = Inr (sent (map (\<lambda>i. ToServer i (P_Checkpoint c')) (others s)) s) \<and>
     sendViewChangeToAll E v s = Inr (sent (map (\<lambda>i. ToServer i (P_ViewChange v')) (others s)) s) \<and>
     sendNewViewToAll E n s = Inr (sent (map (\<lambda>i. ToServer i (P_NewView n')) (others s)) s)"
proof -
  define c' where "c' = c\<lparr>cr_signature := addECDSASignature E s (ser_cd E (cr_data c))\<rparr>"
  define v' where "v' = v\<lparr>vc_signature := addECDSASignature E s (ser_vd E (vc_data v))\<rparr>"
  define n' where "n' = n\<lparr>nv_signature := addECDSASignature E s (ser_nd E (nv_data n))\<rparr>"
  have d: "cr_data c' = cr_data c" "vc_data v' = vc_data v" "nv_data n' = nv_data n"
    by (simp_all add: c'_def v'_def n'_def)
  have "verifySignature_CheckpointReq E c'" "verifySignature_ViewChangeReq E v'" "verifySignature_NewViewReq E n'"
    using verify_sign [OF assms(1)]
    by (simp_all add: c'_def v'_def n'_def addECDSASignature_def verifySignature_CheckpointReq_def
        verifySignature_ViewChangeReq_def verifySignature_NewViewReq_def)
  moreover have
    "sendCheckpointToAll E c s = Inr (sent (map (\<lambda>i. ToServer i (P_Checkpoint c')) (others s)) s)"
    "sendViewChangeToAll E v s = Inr (sent (map (\<lambda>i. ToServer i (P_ViewChange v')) (others s)) s)"
    "sendNewViewToAll E n s = Inr (sent (map (\<lambda>i. ToServer i (P_NewView n')) (others s)) s)"
    using assms(2) by (simp_all add: sendCheckpointToAll_def sendViewChangeToAll_def sendNewViewToAll_def
        to_others_payload c'_def v'_def n'_def Let_def)
  ultimately show ?thesis using d by blast
qed

theorem own_messages_verify_witness:
  "\<exists>c'. verifySignature_CheckpointReq sample_env c' \<and>
     sendCheckpointToAll sample_env (checkpoint_of 0 9 ''ab'') replica =
       Inr (sent (map (\<lambda>i. ToServer i (P_Checkpoint c')) (others replica)) replica)"
  using own_messages_verify [OF sample_key_pair, of replica "checkpoint_of 0 9 ''ab''" bold_view_change plain_new_view]
  by auto

end
