(* ===== verification/Server_Proposals.thy ===== *)
theory Server_Proposals
  imports Server_Reads
begin

text \<open>
  What a server has proposed. Its outbox never loses a message, so it records every proposal the server
  ever made; the invariant here says that a leader never makes two proposals for one sequence number
  in one view.
\<close>

section \<open>Messages that are not proposals\<close>

definition no_proposal :: "outcall list \<Rightarrow> bool" where
  "no_proposal xs \<longleftrightarrow> (\<forall>i q. ToServer i (P_PrePrepare q) \<notin> set xs)"

lemma no_proposal_simps [simp]:
  "no_proposal []" "no_proposal (xs @ ys) \<longleftrightarrow> no_proposal xs \<and> no_proposal ys"
  "no_proposal [ToClient i r]"
  "no_proposal [ToServer i p] \<longleftrightarrow> (\<forall>q. p \<noteq> P_PrePrepare q)"
  by (auto simp: no_proposal_def)

text \<open>A step that only sends, and sends no proposal.\<close>

definition says :: "srv \<Rightarrow> srv \<Rightarrow> bool" where
  "says s t \<longleftrightarrow> (\<exists>xs. t = sent xs s \<and> no_proposal xs)"

lemma says_refl [simp]: "says s s"
  unfolding says_def by (rule exI [of _ "[]"]) simp

lemma says_trans: "says s t \<Longrightarrow> says t u \<Longrightarrow> says s u"
  by (auto simp: says_def)

lemma says_emit: "(\<forall>i q. x \<noteq> ToServer i (P_PrePrepare q)) \<Longrightarrow> says s (emit x s)"
  unfolding says_def emit_eq_sent by (intro exI conjI, rule refl) (auto simp: no_proposal_def)

lemma each_says:
  assumes "each f is s = Inr s'" and "\<And>i t t'. f i t = Inr t' \<Longrightarrow> says t t'"
  shows "says s s'"
  by (rule each_invariant [OF assms(1), where P = "says s"]) (auto intro: says_trans assms(2))

lemma to_others_says:
  assumes "to_others send s = Inr s'" and "\<And>i t t'. send i t = Inr t' \<Longrightarrow> says t t'"
  shows "says s s'"
  using assms(1) unfolding to_others_def
  by (rule each_says) (auto split: if_splits intro: assms(2))

lemma send_payload_says: "send_payload p i t = Inr t' \<Longrightarrow> (\<forall>q. p \<noteq> P_PrePrepare q) \<Longrightarrow> says t t'"
  by (auto simp: send_payload_def intro!: says_emit)

lemma sends_say:
  "sendRequest r i ty s = Inr t \<Longrightarrow> says s t"
  "notifyClient E c m res s = Inr t \<Longrightarrow> says s t"
  "sendRequest_proof pf i ty s = Inr t \<Longrightarrow> says s t"
  by (auto simp: sendRequest_def notifyClient_def sendRequest_proof_def Let_def
      intro!: says_emit split: if_splits)

lemma broadcasts_say:
  "sendRequestToAll pf ty s = Inr t \<Longrightarrow> says s t"
  "sendViewChangeToAll E v s = Inr t \<Longrightarrow> says s t"
  "sendNewViewToAll E n s = Inr t \<Longrightarrow> says s t"
  "sendCheckpointToAll E c s = Inr t \<Longrightarrow> says s t"
  by (auto simp: sendRequestToAll_def sendViewChangeToAll_def sendNewViewToAll_def
      sendCheckpointToAll_def Let_def elim!: to_others_says intro: sends_say send_payload_says)

section \<open>Quiet steps\<close>

text \<open>A step that neither proposes nor accepts: entries keep their proposals, the window stays.\<close>

definition quiet :: "srv \<Rightarrow> srv \<Rightarrow> bool" where
  "quiet s t \<longleftrightarrow> serverId t = serverId s \<and> clusterSize t = clusterSize s \<and>
     currentView s \<le> currentView t \<and> digestToEntry t = digestToEntry s \<and>
     currentSequence s \<le> currentSequence t \<and> lowWatermark t = lowWatermark s \<and> log t = log s \<and>
     map mi_prePrepare (heap t) = map mi_prePrepare (heap s) \<and>
     (\<exists>xs. outbox t = outbox s @ xs \<and> no_proposal xs)"

lemma quiet_refl [simp]: "quiet s s"
  by (auto simp: quiet_def intro: exI [of _ "[]"])

lemma quiet_trans: "quiet s t \<Longrightarrow> quiet t u \<Longrightarrow> quiet s u"
  by (auto simp: quiet_def)

lemma quiet_says: "says t u \<Longrightarrow> quiet s t \<Longrightarrow> quiet s u"
  by (auto simp: quiet_def says_def)

lemma quiet_of_says: "says s t \<Longrightarrow> quiet s t"
  by (rule quiet_says [OF _ quiet_refl])

lemma quiet_fields [simp]:
  "quiet s (start_timer x t) = quiet s t" "quiet s (t\<lparr>futures := fs\<rparr>) = quiet s t"
  "quiet s (t\<lparr>lastCommitted := n\<rparr>) = quiet s t" "quiet s (t\<lparr>lastProposedView := n\<rparr>) = quiet s t"
  "quiet s (t\<lparr>srvState := st\<rparr>) = quiet s t" "quiet s (t\<lparr>awaitedDigests := a\<rparr>) = quiet s t"
  "quiet s (t\<lparr>selfTriggeredViewChangeMessages := m\<rparr>) = quiet s t"
  "quiet s (t\<lparr>viewChangeMessages := m'\<rparr>) = quiet s t" "quiet s (t\<lparr>balances := b\<rparr>) = quiet s t"
  "quiet s (t\<lparr>checkpoints := c\<rparr>) = quiet s t" "quiet s (t\<lparr>lastCheckpoint := n\<rparr>) = quiet s t"
  "quiet s (t\<lparr>lastExecuted := n\<rparr>) = quiet s t" "quiet s (t\<lparr>totalTimeTaken := tt\<rparr>) = quiet s t"
  by (simp_all add: quiet_def start_timer_def)

lemma quiet_put_entry:
  "mi_prePrepare e = mi_prePrepare (heap s ! p) \<Longrightarrow> quiet s (put_entry p e s)"
  unfolding quiet_def
  by (cases "p < length (heap s)") (auto simp: map_update list_update_same_conv list_update_beyond intro: exI [of _ "[]"])

lemma quiet_put_entry_in:
  "mi_prePrepare e = mi_prePrepare (heap s ! p) \<Longrightarrow> quiet u s \<Longrightarrow> quiet u (put_entry p e s)"
  by (rule quiet_trans [OF _ quiet_put_entry])

lemma quiet_checkpoint: "checkpoint E s = Inr t \<Longrightarrow> quiet s t"
  by (auto simp: checkpoint_def Let_def dest!: broadcasts_say(4) elim!: quiet_says)

lemma quiet_execute_entry: "execute_entry E seq p (heap s ! p) s = Inr t \<Longrightarrow> quiet s t"
  unfolding execute_entry_def Let_def
  by (auto split: if_splits dest!: sends_say(2) quiet_checkpoint
      elim!: quiet_trans [rotated] quiet_says intro!: quiet_put_entry_in)

lemma quiet_execute_slot: "execute_slot E seq s = Inr (t, go) \<Longrightarrow> quiet s t"
  by (auto simp: execute_slot_def dest: quiet_execute_entry split: option.splits if_splits)

lemma quiet_execute_from: "execute_from E seq s = Inr t \<Longrightarrow> quiet s t"
  by (erule execute_from_keeps) (auto intro: quiet_trans quiet_execute_slot)

lemma quiet_executePending: "executePending E s = Inr t \<Longrightarrow> quiet u s \<Longrightarrow> quiet u t"
  by (auto simp: executePending_def dest!: quiet_execute_from elim: quiet_trans)

section \<open>The handlers that are quiet\<close>

lemma quiet_handlers:
  "processPrePrepareOk E r s = Inr t \<Longrightarrow> quiet s t"
  "processPrepare E pf s = Inr t \<Longrightarrow> quiet s t"
  "processPrepareOk E r s = Inr t \<Longrightarrow> quiet s t"
  "processCommit E pf s = Inr t \<Longrightarrow> quiet s t"
  "fire_OptimisticTimer E n s = Inr t \<Longrightarrow> quiet s t"
proof -
  show "processPrePrepareOk E r s = Inr t \<Longrightarrow> quiet s t"
    unfolding processPrePrepareOk_def Let_def
    by (auto simp: log_entry_Ok_iff split: if_splits intro!: quiet_put_entry)
  show "processPrepare E pf s = Inr t \<Longrightarrow> quiet s t"
    unfolding processPrepare_def Let_def
    by (auto split: if_splits option.splits dest!: sends_say(1) elim!: quiet_says intro!: quiet_put_entry)
  show "processPrepareOk E r s = Inr t \<Longrightarrow> quiet s t"
    unfolding processPrepareOk_def Let_def
    by (auto simp: log_entry_Ok_iff split: if_splits dest!: broadcasts_say(1)
        elim!: quiet_says quiet_executePending intro!: quiet_put_entry)
  show "processCommit E pf s = Inr t \<Longrightarrow> quiet s t"
    unfolding processCommit_def Let_def
    by (auto split: if_splits option.splits elim!: quiet_executePending intro!: quiet_put_entry)
  show "fire_OptimisticTimer E n s = Inr t \<Longrightarrow> quiet s t"
    unfolding fire_OptimisticTimer_def Let_def
    by (auto simp: log_entry_Ok_iff split: if_splits dest!: broadcasts_say(1)
        elim!: quiet_says quiet_executePending intro!: quiet_put_entry)
qed

lemma quiet_triggerViewChange: "triggerViewChange E v s = Inr t \<Longrightarrow> quiet u s \<Longrightarrow> quiet u t"
  by (auto simp: triggerViewChange_def Let_def dest!: broadcasts_say(2) elim!: quiet_says)

lemma quiet_currentView: "currentView s \<le> v \<Longrightarrow> quiet s (s\<lparr>currentView := v\<rparr>)"
  by (auto simp: quiet_def intro: exI [of _ "[]"])

lemma quiet_announce:
  assumes "announce_view E v s = Inr t" and "currentView s < v"
  shows "quiet s t"
proof -
  obtain nd m where send: "sendNewViewToAll E nd
      (s\<lparr>viewChangeMessages := m, srvState := NORMAL_STATE, currentView := v\<rparr>) = Inr t"
    using assms(1) by (auto simp: announce_view_def Let_def)
  have "quiet s (s\<lparr>viewChangeMessages := m, srvState := NORMAL_STATE, currentView := v\<rparr>)"
    using assms(2) by (auto simp: quiet_def intro: exI [of _ "[]"])
  then show ?thesis by (rule quiet_says [OF broadcasts_say(3) [OF send]])
qed

lemma quiet_enter_view:
  assumes "enter_view E d s = Inr t" and "currentView s < nd_view_num d"
  shows "quiet s t"
proof -
  define u where "u = s\<lparr>srvState := NORMAL_STATE, currentView := nd_view_num d,
      viewChangeMessages := fold (\<lambda>v. sm_put2 (nd_view_num d) (sg_server_id (vc_signature v)) v) (nd_vproofs d)
          (sm_put (nd_view_num d) [] (viewChangeMessages s))\<rparr>"
  have "each (send_new_view_ok E) (nd_pre_prepares d) u = Inr t"
    using assms(1) by (simp add: enter_view_def u_def)
  then have "says u t" by (rule each_says) (auto simp: send_new_view_ok_def Let_def intro: sends_say)
  moreover have "quiet s u" using assms(2) by (auto simp: quiet_def u_def intro: exI [of _ "[]"])
  ultimately show ?thesis by (rule quiet_says)
qed

lemma quiet_processNewView: "processNewView E r s = Inr t \<Longrightarrow> quiet s t"
  using processNewView_cases [of E r s t] quiet_enter_view by auto

lemma quiet_processViewChange:
  assumes "processViewChange E r s = Inr t"
  shows "quiet s t"
proof -
  define v where "v = vd_view_num (vc_data r)"
  define s1 where "s1 = s\<lparr>viewChangeMessages := sm_put2 v (sg_server_id (vc_signature r)) r (viewChangeMessages s)\<rparr>"
  have q: "quiet s s1" by (simp add: s1_def)
  have "t = s \<or> currentView s < v \<and> (t = s1 \<or> announce_view E v s1 = Inr t \<or>
      (\<exists>u. triggerViewChange E v s1 = Inr u \<and> t = start_timer (ViewTimer v 0) u))"
    using assms unfolding processViewChange_def Let_def s1_def v_def by (auto split: if_splits)
  moreover have "currentView s1 = currentView s" by (simp add: s1_def)
  ultimately consider "t = s" | "t = s1" | "announce_view E v s1 = Inr t" "currentView s1 < v"
    | u where "triggerViewChange E v s1 = Inr u" "t = start_timer (ViewTimer v 0) u"
    by auto
  then show ?thesis
  proof cases
    case 3
    show ?thesis by (rule quiet_trans [OF q quiet_announce [OF 3]])
  next
    case 4
    with quiet_triggerViewChange [OF 4(1) q] show ?thesis by simp
  qed (use q in simp_all)
qed

lemma quiet_timers:
  "fire_DigestTimer E d v n s = Inr t \<Longrightarrow> quiet s t"
  "fire_SeqTimer E q v n s = Inr t \<Longrightarrow> quiet s t"
  "fire_ViewTimer v n s = Inr t \<Longrightarrow> quiet s t"
  "fire_RetryTimer E nv s = Inr t \<Longrightarrow> quiet s t"
  by (auto simp: fire_DigestTimer_def fire_SeqTimer_def fire_ViewTimer_def fire_RetryTimer_def
      split: if_splits elim!: quiet_triggerViewChange intro: quiet_processNewView)

lemma quiet_forward: "forward d m s = Inr t \<Longrightarrow> quiet s t"
  by (auto simp: forward_def Let_def intro!: quiet_says [OF says_emit])


section \<open>One proposal per view and sequence number\<close>

definition proposed_by :: "srv \<Rightarrow> Request \<Rightarrow> bool" where
  "proposed_by s r \<longleftrightarrow> (\<exists>i q. ToServer i (P_PrePrepare q) \<in> set (outbox s) \<and> pp_r q = r)"

definition req_view :: "Request \<Rightarrow> int" where "req_view r = cx_view_num (rq_data r)"
definition req_seq :: "Request \<Rightarrow> int" where "req_seq r = cx_sequence_num (rq_data r)"
definition req_digest :: "Request \<Rightarrow> string" where "req_digest r = cx_digest (rq_data r)"

lemma entry_req: "entry_view e = req_view (mi_prePrepare e)" "entry_seq e = req_seq (mi_prePrepare e)"
  "entry_digest e = req_digest (mi_prePrepare e)"
  by (simp_all add: entry_view_def entry_seq_def entry_digest_def req_view_def req_seq_def req_digest_def)

text \<open>What an entry says about an earlier proposal for its sequence number: the proposal is older, or
  it is of the same view and has the same digest.\<close>

definition covers :: "Request \<Rightarrow> Request \<Rightarrow> bool" where
  "covers r q \<longleftrightarrow> req_seq r = req_seq q \<and>
     (req_view q < req_view r \<or> req_view q = req_view r \<and> req_digest q = req_digest r)"

text \<open>The proposals made for one view and sequence number are for one digest.\<close>

definition one_digest :: "srv \<Rightarrow> bool" where
  "one_digest s \<longleftrightarrow> (\<forall>r q. proposed_by s r \<longrightarrow> proposed_by s q \<longrightarrow> req_view r = req_view q \<longrightarrow>
     req_seq r = req_seq q \<longrightarrow> req_digest r = req_digest q)"

text \<open>No two entries have the same sequence number; an entry whose number is still in the window sits
  in its slot; and every proposal made is covered by an entry and was made as the leader of its view.\<close>

definition prop_inv :: "srv \<Rightarrow> bool" where
  "prop_inv s \<longleftrightarrow> distinct (map (\<lambda>e. req_seq (mi_prePrepare e)) (heap s)) \<and>
     (\<forall>p < length (heap s). req_seq (mi_prePrepare (heap s ! p)) \<le> currentSequence s \<and>
        (lowWatermark s \<le> req_seq (mi_prePrepare (heap s ! p)) \<longrightarrow>
           log s ! nat (req_seq (mi_prePrepare (heap s ! p)) - lowWatermark s) = Some p)) \<and>
     (\<forall>r. proposed_by s r \<longrightarrow> req_view r smod clusterSize s = serverId s \<and>
        sv_server_id (rq_sig_vec r) = serverId s \<and> (\<exists>e \<in> set (heap s). covers (mi_prePrepare e) r)) \<and>
     one_digest s"

text \<open>The last part survives when one more proposal is made.\<close>

lemma one_digestD: "one_digest s \<Longrightarrow> proposed_by s r \<Longrightarrow> proposed_by s q \<Longrightarrow>
    req_view r = req_view q \<Longrightarrow> req_seq r = req_seq q \<Longrightarrow> req_digest r = req_digest q"
  unfolding one_digest_def by blast

lemma one_digest_same: "(\<And>r. proposed_by t r \<longleftrightarrow> proposed_by s r) \<Longrightarrow> one_digest t = one_digest s"
  by (simp add: one_digest_def)

lemma one_digest_insert:
  assumes old: "one_digest s"
    and step: "\<And>r. proposed_by t r \<Longrightarrow> proposed_by s r \<or> r = x"
    and new: "\<And>q. proposed_by s q \<Longrightarrow> req_view q = req_view x \<Longrightarrow> req_seq q = req_seq x \<Longrightarrow>
      req_digest q = req_digest x"
  shows "one_digest t"
  unfolding one_digest_def
proof (intro allI impI)
  fix r q assume rq: "proposed_by t r" "proposed_by t q" "req_view r = req_view q" "req_seq r = req_seq q"
  show "req_digest r = req_digest q"
    using step [OF rq(1)] step [OF rq(2)]
  proof (elim disjE)
    assume "proposed_by s r" "q = x"
    then show ?thesis using new [of r] rq(3,4) by simp
  next
    assume "r = x" "proposed_by s q"
    then show ?thesis using new [of q] rq(3,4) by simp
  next
    assume "proposed_by s r" "proposed_by s q"
    then show ?thesis by (rule one_digestD [OF old _ _ rq(3,4)])
  qed simp
qed

lemma covering_entry:
  assumes "distinct (map (\<lambda>e. req_seq (mi_prePrepare e)) h)" and "p < length h"
    and "\<exists>e \<in> set h. covers (mi_prePrepare e) q" and "req_seq q = req_seq (mi_prePrepare (h ! p))"
  shows "covers (mi_prePrepare (h ! p)) q"
proof -
  obtain j where j: "j < length h" "covers (mi_prePrepare (h ! j)) q"
    using assms(3) by (auto simp: in_set_conv_nth)
  then have "req_seq (mi_prePrepare (h ! j)) = req_seq (mi_prePrepare (h ! p))"
    using assms(4) by (simp add: covers_def)
  then have "j = p" using assms(1,2) j(1) by (simp add: distinct_conv_nth) metis
  with j show ?thesis by simp
qed

lemma prop_inv_init: "prop_inv (PbftServerImpl i name byz lc lcp)"
  by (simp add: prop_inv_def one_digest_def proposed_by_def PbftServerImpl_def)

lemma proposed_by_append:
  "outbox t = outbox s @ xs \<Longrightarrow> no_proposal xs \<Longrightarrow> proposed_by t r \<longleftrightarrow> proposed_by s r"
  by (auto simp: proposed_by_def no_proposal_def)

lemma quiet_entries:
  assumes "quiet s t"
  shows "length (heap t) = length (heap s)" "p < length (heap s) \<Longrightarrow> mi_prePrepare (heap t ! p) = mi_prePrepare (heap s ! p)"
    "mi_prePrepare ` set (heap t) = mi_prePrepare ` set (heap s)"
proof -
  have m: "map mi_prePrepare (heap t) = map mi_prePrepare (heap s)" using assms by (simp add: quiet_def)
  show len: "length (heap t) = length (heap s)" using arg_cong [OF m, of length] by simp
  show "p < length (heap s) \<Longrightarrow> mi_prePrepare (heap t ! p) = mi_prePrepare (heap s ! p)"
    using arg_cong [OF m, of "\<lambda>xs. xs ! p"] len by simp
  show "mi_prePrepare ` set (heap t) = mi_prePrepare ` set (heap s)"
    using arg_cong [OF m, of set] by simp
qed

lemma covered_image: "(\<exists>e \<in> set h. covers (mi_prePrepare e) r) \<longleftrightarrow> (\<exists>q \<in> mi_prePrepare ` set h. covers q r)"
  by auto

lemma prop_inv_quiet:
  assumes "quiet s t" and "prop_inv s"
  shows "prop_inv t"
proof -
  obtain xs where out: "outbox t = outbox s @ xs" "no_proposal xs" using assms(1) by (auto simp: quiet_def)
  have m: "map mi_prePrepare (heap t) = map mi_prePrepare (heap s)" using assms(1) by (simp add: quiet_def)
  have "map (\<lambda>e. req_seq (mi_prePrepare e)) (heap t) = map (\<lambda>e. req_seq (mi_prePrepare e)) (heap s)"
    using arg_cong [OF m, of "map req_seq"] by (simp add: comp_def)
  with assms(2) quiet_entries [OF assms(1)] proposed_by_append [OF out] one_digest_same [OF proposed_by_append [OF out]]
    assms(1) show ?thesis
    unfolding prop_inv_def covered_image by (auto simp: quiet_def intro: order_trans)
qed

text \<open>The kept proposals and the possible origins of an entry after a step.\<close>

definition origin :: "srv \<Rightarrow> srv \<Rightarrow> event \<Rightarrow> MessageInfo \<Rightarrow> bool" where
  "origin s t ev e \<longleftrightarrow> mi_prePrepare e \<in> mi_prePrepare ` set (heap s) \<or> proposed_by t (mi_prePrepare e) \<or>
     (\<exists>r. ev = Rpc (P_PrePrepare r) \<and> pp_r r = mi_prePrepare e \<and>
        sv_server_id (rq_sig_vec (pp_r r)) = req_view (pp_r r) smod clusterSize s)"

definition proposes_well :: "event \<Rightarrow> srv \<Rightarrow> srv \<Rightarrow> bool" where
  "proposes_well ev s t \<longleftrightarrow> prop_inv t \<and> set (outbox s) \<subseteq> set (outbox t) \<and> (\<forall>e \<in> set (heap t). origin s t ev e)"

lemma proposes_well_quiet:
  assumes "quiet s t" and "prop_inv s"
  shows "proposes_well ev s t"
proof -
  have "set (outbox s) \<subseteq> set (outbox t)" using assms(1) by (auto simp: quiet_def)
  then show ?thesis
    using prop_inv_quiet [OF assms] quiet_entries(3) [OF assms(1)]
    unfolding proposes_well_def origin_def by blast
qed


section \<open>Steps that change an entry's proposal\<close>

text \<open>Putting proposal \<open>r\<close> at pointer \<open>p\<close>: a fresh entry, or one that \<open>r\<close> covers.\<close>

lemma prop_inv_alloc:
  assumes inv: "prop_inv s" and new: "\<forall>e \<in> set (heap s). req_seq (mi_prePrepare e) \<noteq> n"
    and e: "req_seq (mi_prePrepare e) = n"
    and i: "nat (n - lowWatermark s) < length (log s)"
    and free: "log s ! nat (n - lowWatermark s) = None"
    and t: "lowWatermark t = lowWatermark s" "clusterSize t = clusterSize s" "serverId t = serverId s"
      "log t = (log s)[nat (n - lowWatermark s) := Some (length (heap s))]" "heap t = heap s @ [e]"
      "currentSequence s \<le> currentSequence t" "n \<le> currentSequence t"
    and props: "\<And>r. proposed_by t r \<Longrightarrow> proposed_by s r \<or> r = mi_prePrepare e \<and>
      req_view r smod clusterSize s = serverId s \<and> sv_server_id (rq_sig_vec r) = serverId s"
  shows "prop_inv t"
  unfolding prop_inv_def
proof (intro conjI allI impI)
  show "distinct (map (\<lambda>e. req_seq (mi_prePrepare e)) (heap t))"
    using inv new e by (auto simp: t prop_inv_def)
next
  fix p assume p: "p < length (heap t)"
  let ?q = "req_seq (mi_prePrepare (heap t ! p))"
  show "?q \<le> currentSequence t"
    using p inv e t(6,7) by (fastforce simp: t(5) nth_append prop_inv_def less_Suc_eq)
  assume low: "lowWatermark t \<le> ?q"
  show "log t ! nat (?q - lowWatermark t) = Some p"
  proof (cases "p = length (heap s)")
    case True
    then show ?thesis using e i by (simp add: t)
  next
    case False
    then have "p < length (heap s)" using p by (simp add: t)
    then have "log s ! nat (?q - lowWatermark s) = Some p"
      using inv low by (simp add: prop_inv_def t nth_append)
    with free show ?thesis by (cases "nat (?q - lowWatermark s) = nat (n - lowWatermark s)") (simp_all add: t)
  qed
next
  fix r assume "proposed_by t r"
  from props [OF this] inv show "req_view r smod clusterSize t = serverId t"
    and "sv_server_id (rq_sig_vec r) = serverId t" and "\<exists>e \<in> set (heap t). covers (mi_prePrepare e) r"
    by (auto simp: t prop_inv_def covers_def)
next
  show "one_digest t"
  proof (rule one_digest_insert [where s = s and x = "mi_prePrepare e"])
    show "one_digest s" using inv by (simp add: prop_inv_def)
    show "req_digest q = req_digest (mi_prePrepare e)"
      if "proposed_by s q" "req_seq q = req_seq (mi_prePrepare e)" for q
      using that inv new e by (fastforce simp: prop_inv_def covers_def)
  qed (use props in blast)
qed

lemma prop_inv_replace:
  assumes inv: "prop_inv s" and p: "p < length (heap s)"
    and seq: "req_seq (mi_prePrepare e) = req_seq (mi_prePrepare (heap s ! p))"
    and cov: "covers (mi_prePrepare e) (mi_prePrepare (heap s ! p))"
    and t: "lowWatermark t = lowWatermark s" "clusterSize t = clusterSize s" "serverId t = serverId s"
      "log t = log s" "heap t = (heap s)[p := e]" "currentSequence s \<le> currentSequence t"
    and props: "\<And>r. proposed_by t r \<Longrightarrow> proposed_by s r \<or> r = mi_prePrepare e \<and>
      req_view r smod clusterSize s = serverId s \<and> sv_server_id (rq_sig_vec r) = serverId s"
  shows "prop_inv t"
  unfolding prop_inv_def
proof (intro conjI allI impI)
  have "map (\<lambda>e. req_seq (mi_prePrepare e)) (heap t) = map (\<lambda>e. req_seq (mi_prePrepare e)) (heap s)"
    using seq p by (simp add: t map_update list_update_same_conv)
  then show "distinct (map (\<lambda>e. req_seq (mi_prePrepare e)) (heap t))" using inv by (simp add: prop_inv_def)
next
  fix q assume q: "q < length (heap t)"
  have same: "req_seq (mi_prePrepare (heap t ! q)) = req_seq (mi_prePrepare (heap s ! q))"
    using seq p q by (cases "q = p") (simp_all add: t)
  show "req_seq (mi_prePrepare (heap t ! q)) \<le> currentSequence t"
    using same inv q t(6) by (fastforce simp: t(5) prop_inv_def)
  show "lowWatermark t \<le> req_seq (mi_prePrepare (heap t ! q)) \<Longrightarrow>
      log t ! nat (req_seq (mi_prePrepare (heap t ! q)) - lowWatermark t) = Some q"
    unfolding same using inv q by (simp add: t prop_inv_def)
next
  fix r assume r: "proposed_by t r"
  show "req_view r smod clusterSize t = serverId t" and "sv_server_id (rq_sig_vec r) = serverId t"
    using props [OF r] inv by (auto simp: t prop_inv_def)
  show "\<exists>e \<in> set (heap t). covers (mi_prePrepare e) r"
  proof (cases "r = mi_prePrepare e")
    case True
    have "e \<in> set (heap t)" using p by (simp add: t set_update_memI)
    then show ?thesis using True by (auto simp: covers_def)
  next
    case False
    then have "proposed_by s r" using props [OF r] by simp
    then obtain x where "x \<in> set (heap s)" "covers (mi_prePrepare x) r"
      using inv by (auto simp: prop_inv_def)
    then obtain j where j: "j < length (heap s)" "covers (mi_prePrepare (heap s ! j)) r"
      by (auto simp: in_set_conv_nth)
    have "covers (mi_prePrepare (heap t ! j)) r"
      using j cov p by (cases "j = p") (auto simp: t covers_def)
    then show ?thesis using j by (auto simp: t(5) intro!: bexI [of _ "heap t ! j"])
  qed
next
  show "one_digest t"
  proof (rule one_digest_insert [where s = s and x = "mi_prePrepare e"])
    show "one_digest s" using inv by (simp add: prop_inv_def)
    show "req_digest q = req_digest (mi_prePrepare e)"
      if q: "proposed_by s q" "req_view q = req_view (mi_prePrepare e)" "req_seq q = req_seq (mi_prePrepare e)" for q
    proof -
      have "covers (mi_prePrepare (heap s ! p)) q"
        by (rule covering_entry [OF _ p]) (use inv q(1,3) seq in \<open>simp_all add: prop_inv_def\<close>)
      with cov q(2) show ?thesis unfolding covers_def by (elim conjE disjE) simp_all
    qed
  qed (use props in blast)
qed

text \<open>The messages of a broadcast proposal.\<close>

lemma sendPrePrepareToAll_sent:
  assumes "sendPrePrepareToAll q s = Inr t" and "clusterSize s = 7"
  shows "t = sent (map (\<lambda>i. ToServer i (P_PrePrepare q)) (others s)) s"
  using assms by (simp add: sendPrePrepareToAll_def to_others_payload)

lemma others_nonempty: "clusterSize s = 7 \<Longrightarrow> \<exists>i. i \<in> set (others s)"
  by (rule exI [of _ "if serverId s = 0 then 1 else 0"]) (simp add: others_def)

lemma proposed_by_broadcast:
  assumes "outbox t = outbox s @ map (\<lambda>i. ToServer i (P_PrePrepare q)) is"
  shows "proposed_by t r \<longleftrightarrow> proposed_by s r \<or> is \<noteq> [] \<and> r = pp_r q"
  using assms by (cases "is") (auto simp: proposed_by_def)

lemma propose_well:
  assumes "propose E m d s = Inr t" and inv: "prop_inv s" and srv: "srv_inv E' s"
    and lead: "serverId s = getLeaderId s"
  shows "proposes_well ev s t"
proof -
  define n where "n = currentSequence s + 1"
  define r where "r = new_proposal E d (s\<lparr>currentSequence := n\<rparr>)"
  define u where "u = s\<lparr>currentSequence := n, heap := heap s @ [proposed_entry E m r],
     log := (log s)[nat (n - lowWatermark s) := Some (length (heap s))],
     digestToEntry := sm_put d (length (heap s)) (digestToEntry s)\<rparr>"
  have i: "0 \<le> n - lowWatermark s" "n - lowWatermark s < int (length (log s))"
    and send: "sendPrePrepareToAll \<lparr>pp_r = r, pp_m = m\<rparr> u = Inr t"
    using propose_cases [OF assms(1)] by (auto simp: n_def r_def u_def)
  have c: "clusterSize s = 7" "length (log s) = 20" using srv by (auto simp: srv_inv_def config_ok_def window_ok_def)
  have t: "t = sent (map (\<lambda>i. ToServer i (P_PrePrepare \<lparr>pp_r = r, pp_m = m\<rparr>)) (others u)) u"
    by (rule sendPrePrepareToAll_sent [OF send]) (simp add: u_def c)
  have r: "req_seq r = n" "req_view r = currentView s" "sv_server_id (rq_sig_vec r) = serverId s"
    by (simp_all add: r_def req_seq_def req_view_def) (simp add: new_proposal_def addMACSignature_def Let_def)
  have props: "proposed_by t q \<longleftrightarrow> proposed_by s q \<or> others u \<noteq> [] \<and> q = r" for q
    using proposed_by_broadcast [of t s "\<lparr>pp_r = r, pp_m = m\<rparr>" "others u" q] by (simp add: t u_def)
  have "prop_inv t"
  proof (rule prop_inv_alloc [OF inv, where n = n and e = "proposed_entry E m r"])
    show "\<forall>e \<in> set (heap s). req_seq (mi_prePrepare e) \<noteq> n"
      using inv by (fastforce simp: prop_inv_def n_def in_set_conv_nth)
    show "log s ! nat (n - lowWatermark s) = None"
      by (rule slot_beyond_free [OF srv]) (use i c in \<open>auto simp: n_def\<close>)
    show "nat (n - lowWatermark s) < length (log s)" using i by simp
    show "proposed_by s q \<or> q = mi_prePrepare (proposed_entry E m r) \<and>
        req_view q smod clusterSize s = serverId s \<and> sv_server_id (rq_sig_vec q) = serverId s"
      if "proposed_by t q" for q
      using that lead r by (auto simp: props getLeaderId_def)
  qed (simp_all add: r t u_def n_def)
  moreover have "proposed_by t r"
    using others_nonempty [of u] c by (auto simp: props u_def)
  ultimately show ?thesis
    by (auto simp: proposes_well_def origin_def t u_def)
qed

lemma repropose_well:
  assumes "repropose E m p (heap s ! p) s = Inr t" and p: "p < length (heap s)" and inv: "prop_inv s"
    and srv: "srv_inv E' s" and lead: "serverId s = getLeaderId s"
  shows "proposes_well ev s t"
proof -
  define e where "e = heap s ! p"
  define r where "r = \<lparr>rq_data = (rq_data (mi_prePrepare e))\<lparr>cx_view_num := currentView s\<rparr>,
      rq_sig_vec = addMACSignature E s
        (ser_ctx E ((rq_data (mi_prePrepare e))\<lparr>cx_view_num := currentView s\<rparr>)) (rq_sig_vec (mi_prePrepare e))\<rparr>"
  define e' where "e' = e\<lparr>mi_prepareProofs := [], mi_commitProofs := [], mi_prePrepare := r\<rparr>"
  define u where "u = put_entry p e' s"
  have send: "sendPrePrepareToAll \<lparr>pp_r = r, pp_m = m\<rparr> u = Inr t"
    using assms(1) by (simp add: repropose_def Let_def e_def r_def e'_def u_def)
  have c: "clusterSize s = 7" using srv by (auto simp: srv_inv_def config_ok_def)
  have t: "t = sent (map (\<lambda>i. ToServer i (P_PrePrepare \<lparr>pp_r = r, pp_m = m\<rparr>)) (others u)) u"
    by (rule sendPrePrepareToAll_sent [OF send]) (simp add: u_def c)
  have view: "req_view (mi_prePrepare e) \<le> currentView s"
    using srv_inv_entryD [OF srv p] by (simp add: e_def entry_req)
  have r: "req_seq r = req_seq (mi_prePrepare e)" "req_view r = currentView s"
      "req_digest r = req_digest (mi_prePrepare e)" "sv_server_id (rq_sig_vec r) = serverId s"
    by (simp_all add: r_def req_seq_def req_view_def req_digest_def addMACSignature_def)
  have props: "proposed_by t q \<longleftrightarrow> proposed_by s q \<or> others u \<noteq> [] \<and> q = r" for q
    using proposed_by_broadcast [of t s "\<lparr>pp_r = r, pp_m = m\<rparr>" "others u" q] by (simp add: t u_def)
  have "prop_inv t"
  proof (rule prop_inv_replace [OF inv p, where e = e'])
    show "covers (mi_prePrepare e') (mi_prePrepare (heap s ! p))"
      using view r by (auto simp: covers_def e'_def e_def)
    show "proposed_by s q \<or> q = mi_prePrepare e' \<and>
        req_view q smod clusterSize s = serverId s \<and> sv_server_id (rq_sig_vec q) = serverId s"
      if "proposed_by t q" for q
      using that lead r by (auto simp: props getLeaderId_def e'_def)
  qed (simp_all add: r t u_def e'_def e_def)
  moreover have "proposed_by t r"
    using others_nonempty [of u] c by (auto simp: props u_def)
  moreover have "mi_prePrepare x = r \<or> x \<in> set (heap s)" if "x \<in> set (heap t)" for x
    using that by (auto simp: t u_def e'_def dest!: set_update_subset_insert [THEN subsetD])
  ultimately show ?thesis
    by (fastforce simp: proposes_well_def origin_def t u_def)
qed

text \<open>Acceptance: the fields that matter here.\<close>

lemma accept_prePrepare_result:
  assumes "accept_prePrepare E req n p s = Inr t"
  shows "p < length (heap s) \<and> (\<exists>e. mi_prePrepare e = pp_r req \<and> heap t = (heap s)[p := e]) \<and>
     lowWatermark t = lowWatermark s \<and> clusterSize t = clusterSize s \<and> serverId t = serverId s \<and>
     log t = log s \<and> currentSequence t = currentSequence s \<and>
     (\<exists>xs. outbox t = outbox s @ xs \<and> no_proposal xs)"
proof -
  let ?e = "accepted_entry E req (own_prePrepareOk E (pp_r req) s) s (heap s ! p)"
  define u where "u = (put_entry p ?e s)\<lparr>digestToEntry := sm_put (cx_digest (rq_data (pp_r req))) p (digestToEntry s)\<rparr>"
  obtain s2 x where p: "p < length (heap s)" and t: "t = start_timer x s2" and s2: "says u s2"
    using assms unfolding accept_prePrepare_def Let_def u_def
    by (auto split: if_splits dest!: sends_say(1))
  obtain xs where xs: "s2 = sent xs u" "no_proposal xs" using s2 by (auto simp: says_def)
  have "mi_prePrepare ?e = pp_r req \<and> heap t = (heap s)[p := ?e]"
    by (simp add: t xs(1) u_def start_timer_def accepted_entry_def)
  moreover have "outbox t = outbox s @ xs"
    by (simp add: t xs(1) u_def start_timer_def)
  moreover have "lowWatermark t = lowWatermark s \<and> clusterSize t = clusterSize s \<and>
      serverId t = serverId s \<and> log t = log s \<and> currentSequence t = currentSequence s"
    by (simp add: t xs(1) u_def start_timer_def)
  ultimately show ?thesis using p xs(2) by blast
qed

lemma processPrePrepare_well:
  assumes "processPrePrepare E req s = Inr t" and inv: "prop_inv s" and srv: "srv_inv E s"
  shows "proposes_well (Rpc (P_PrePrepare req)) s t"
proof -
  let ?r = "pp_r req" and ?n = "cx_sequence_num (rq_data (pp_r req))"
  let ?i = "nat (?n - lowWatermark s)" and ?s1 = "note_proposal req s"
  have len: "length (log s) = 20" using srv by (simp add: srv_inv_def window_ok_def)
  note slot = valid_proposal_slot [OF srv]
  have orig: "\<forall>e \<in> set (heap t). origin s t (Rpc (P_PrePrepare req)) e"
    if h: "set (heap t) \<subseteq> insert e (set (heap s))" "mi_prePrepare e = ?r" and v: "valid_proposal E req s" for e
  proof
    fix x assume "x \<in> set (heap t)"
    with h(1) have "x = e \<or> x \<in> set (heap s)" by blast
    then show "origin s t (Rpc (P_PrePrepare req)) x"
      using h(2) v by (auto simp: origin_def valid_proposal_def getLeaderId_def req_view_def)
  qed
  from assms(1) show ?thesis
  proof (cases rule: processPrePrepare_cases)
    case (busy p)
    have "quiet s ?s1" by (auto simp: note_proposal_def quiet_def intro: exI [of _ "[]"])
    with proposes_well_quiet [OF _ inv] busy(3) show ?thesis by simp
  next
    case fresh
    obtain e xs where e: "mi_prePrepare e = ?r" and t: "heap t = heap s @ [e]" "lowWatermark t = lowWatermark s"
        "clusterSize t = clusterSize s" "serverId t = serverId s" "currentSequence t = max ?n (currentSequence s)"
        "log t = (log s)[?i := Some (length (heap s))]" "outbox t = outbox s @ xs" "no_proposal xs"
      using accept_prePrepare_result [OF fresh(3)] by (auto simp: note_proposal_def free_slot_def)
    have "prop_inv t"
    proof (rule prop_inv_alloc [OF inv, where n = ?n and e = e])
      show "\<forall>x \<in> set (heap s). req_seq (mi_prePrepare x) \<noteq> ?n"
        using inv fresh(2) slot [OF fresh(1)] by (fastforce simp: prop_inv_def in_set_conv_nth)
    qed (use e t slot [OF fresh(1)] len fresh(2) proposed_by_append [OF t(7,8)] in \<open>simp_all add: req_seq_def\<close>)
    moreover have "set (outbox s) \<subseteq> set (outbox t)" using t(7) by simp
    ultimately show ?thesis
      using orig [of e] e t(1) fresh(1) by (simp add: proposes_well_def)
  next
    case (again p)
    have seq: "entry_seq (heap s ! p) = ?n"
      using srv_inv_slotD(2) [OF srv _ again(3)] slot [OF again(1)] by simp
    obtain e xs where e: "mi_prePrepare e = ?r" and t: "heap t = (heap s)[p := e]" "lowWatermark t = lowWatermark s"
        "clusterSize t = clusterSize s" "serverId t = serverId s" "currentSequence t = max ?n (currentSequence s)"
        "log t = log s" "outbox t = outbox s @ xs" "no_proposal xs"
      using accept_prePrepare_result [OF again(5)] by (auto simp: note_proposal_def)
    have cov: "covers (mi_prePrepare e) (mi_prePrepare (heap s ! p))"
      using srv_inv_entryD [OF srv again(2)] seq again(1,4)
      by (auto simp: covers_def e entry_req req_seq_def req_view_def req_digest_def conflicting_def valid_proposal_def)
    have "prop_inv t"
      by (rule prop_inv_replace [OF inv again(2), where e = e])
        (use cov t proposed_by_append [OF t(7,8)] in \<open>simp_all add: covers_def\<close>)
    moreover have "set (outbox s) \<subseteq> set (outbox t)" using t(7) by simp
    moreover have "set (heap t) \<subseteq> insert e (set (heap s))" using t(1) set_update_subset_insert by simp
    ultimately show ?thesis
      using orig [of e] e again(1) by (simp add: proposes_well_def)
  qed (use proposes_well_quiet [OF quiet_refl inv] in simp)
qed

lemma processTransfer_well:
  assumes "processTransfer E m s = Inr t" and inv: "prop_inv s" and srv: "srv_inv E s"
  shows "proposes_well ev s t"
proof -
  have "quiet s t \<or> serverId s = getLeaderId s \<and>
      (propose E m (message_digest E m) s = Inr t \<or>
       (\<exists>p. p < length (heap s) \<and> repropose E m p (heap s ! p) s = Inr t))"
    using assms(1) unfolding processTransfer_def Let_def
    by (auto split: if_splits option.splits dest!: find_entry_cases sends_say(2)
        intro: quiet_forward quiet_of_says)
  then show ?thesis
    using proposes_well_quiet [OF _ inv] propose_well [OF _ inv srv] repropose_well [OF _ _ inv srv]
    by blast
qed

section \<open>Checkpoints\<close>

text \<open>A stable checkpoint moves the window: what stays in it sits that many slots lower.\<close>

lemma prop_inv_shift:
  assumes inv: "prop_inv s" and low: "lowWatermark t = lowWatermark s + int n" and n: "n \<le> length (log s)"
    and top: "currentSequence s < lowWatermark s + int (length (log s))"
    and t: "log t = drop n (log s) @ replicate n None" "heap t = heap s" "outbox t = outbox s"
      "currentSequence t = currentSequence s" "serverId t = serverId s" "clusterSize t = clusterSize s"
  shows "prop_inv t"
proof -
  have "log t ! nat (q - lowWatermark t) = Some p"
    if p: "p < length (heap s)" "q = req_seq (mi_prePrepare (heap s ! p))" and le: "lowWatermark t \<le> q" for p q
  proof -
    have q: "q \<le> currentSequence s" "log s ! nat (q - lowWatermark s) = Some p"
      using inv p le low by (auto simp: prop_inv_def)
    have "n + nat (q - lowWatermark t) = nat (q - lowWatermark s)" using le low by simp
    moreover have "nat (q - lowWatermark t) < length (log s) - n" using q(1) top le low by linarith
    ultimately show ?thesis using q(2) n by (simp add: t(1) nth_append)
  qed
  moreover have same: "proposed_by t r \<longleftrightarrow> proposed_by s r" for r by (simp add: proposed_by_def t)
  ultimately show ?thesis using inv one_digest_same [OF same]
    by (simp add: prop_inv_def t)
qed

lemma processCheckpoint_well:
  assumes "processCheckpoint E r s = Inr t" and inv: "prop_inv s" and srv: "srv_inv E s"
  shows "proposes_well ev s t"
proof -
  define c where "c = cd_c_seq_num (cr_data r)"
  have "quiet s t \<or> lastStableCheckpointSeqNum s < c \<and> c \<le> lastExecuted s \<and>
      (\<exists>ci m. make_stable c ci (s\<lparr>checkpoints := m\<rparr>) = Inr t)"
    using assms(1) unfolding processCheckpoint_def Let_def c_def by (auto split: if_splits)
  then show ?thesis
  proof (elim disjE conjE exE)
    fix ci m assume c: "lastStableCheckpointSeqNum s < c" "c \<le> lastExecuted s"
      and st: "make_stable c ci (s\<lparr>checkpoints := m\<rparr>) = Inr t"
    define n where "n = nat (c - lowWatermark s + 1)"
    have n: "lowWatermark s + int n = c + 1" "n \<le> length (log s)"
        "currentSequence s < lowWatermark s + int (length (log s))"
      using srv c by (auto simp: srv_inv_def window_ok_def n_def)
    have t: "log t = drop n (log s) @ replicate n None" "heap t = heap s" "outbox t = outbox s"
      "currentSequence t = currentSequence s" "serverId t = serverId s" "clusterSize t = clusterSize s"
      "lowWatermark t = c + 1"
      using make_stable_cases [OF st] by (auto simp: n_def)
    have "prop_inv t"
      by (rule prop_inv_shift [OF inv _ n(2,3)]) (simp_all add: t n)
    then show ?thesis by (auto simp: proposes_well_def origin_def t)
  qed (rule proposes_well_quiet [OF _ inv])
qed

section \<open>Every step\<close>

lemma quiet_GetDB: "quiet s (snd (GetDB s))"
  by (simp add: GetDB_def split: prod.split)

lemma fire_timer_quiet: "fire_timer E x s = Inr t \<Longrightarrow> quiet s t"
  by (cases x) (auto intro: quiet_timers quiet_handlers)

lemma handle_well:
  assumes "handle E ev s = Inr t" and inv: "prop_inv s" and srv: "srv_inv E s"
  shows "proposes_well ev s t"
proof (cases ev)
  case (Rpc p)
  note h = assms(1) [unfolded Rpc, simplified]
  note q = proposes_well_quiet [OF _ inv]
  show ?thesis
  proof (cases p)
    case (P_Transfer m)
    with h show ?thesis by (auto intro: processTransfer_well [OF _ inv srv])
  next
    case (P_PrePrepare r)
    with h show ?thesis unfolding Rpc by (auto intro: processPrePrepare_well [OF _ inv srv])
  next
    case (P_Checkpoint r)
    with h show ?thesis by (auto intro: processCheckpoint_well [OF _ inv srv])
  qed (use h in \<open>auto intro!: q intro: quiet_handlers quiet_processViewChange quiet_processNewView\<close>)
next
  case (Fire x)
  with assms(1) show ?thesis by (auto intro: proposes_well_quiet [OF fire_timer_quiet inv])
next
  case Query_DB
  with assms(1) show ?thesis by (auto intro: proposes_well_quiet [OF quiet_GetDB inv])
qed

lemma server_step_well:
  assumes "server_step E s ev t" and "prop_inv s" and "srv_inv E s"
  shows "proposes_well ev s t"
proof -
  obtain x j where "handle (at_time E x j) ev s = Inr t" using server_step_handle [OF assms(1)] by blast
  then show ?thesis using assms(2,3) by (intro handle_well [where E = "at_time E x j"]) simp_all
qed

end
