(* ===== verification/Cluster.thy ===== *)
theory Cluster
  imports Server_Proposals
begin

text \<open>
  The seven servers together: a message that reaches a server is a client's request or was sent by a
  server. Every entry then holds a proposal that the leader of its view made, and proposals are never
  taken back, which gives agreement: entries that servers hold at any two times of a run, for the same
  view and sequence number, have the same digest.
\<close>

section \<open>Steps of the cluster\<close>

type_synonym cluster = "int \<Rightarrow> srv"

definition server_ids :: "int set" where "server_ids = {0..6}"

text \<open>Clients may send any request; other messages come from the outboxes, which keep what was sent:
  a message may arrive late, more than once or never.\<close>

definition in_transit :: "cluster \<Rightarrow> int \<Rightarrow> payload \<Rightarrow> bool" where
  "in_transit C i p \<longleftrightarrow> (\<exists>m. p = P_Transfer m) \<or> (\<exists>j \<in> server_ids. ToServer i p \<in> set (outbox (C j)))"

inductive cluster_step :: "env \<Rightarrow> cluster \<Rightarrow> cluster \<Rightarrow> bool" for E where
  deliver: "i \<in> server_ids \<Longrightarrow> in_transit C i p \<Longrightarrow> server_step E (C i) (Rpc p) t \<Longrightarrow>
     cluster_step E C (C(i := t))"
| expire: "i \<in> server_ids \<Longrightarrow> server_step E (C i) (Fire x) t \<Longrightarrow> cluster_step E C (C(i := t))"
| query: "i \<in> server_ids \<Longrightarrow> server_step E (C i) Query_DB t \<Longrightarrow> cluster_step E C (C(i := t))"

inductive cluster_reach :: "env \<Rightarrow> cluster \<Rightarrow> bool" for E where
  start: "(\<And>i. \<exists>name byz lc lcp. C i = PbftServerImpl i name byz lc lcp) \<Longrightarrow> cluster_reach E C"
| step: "cluster_reach E C \<Longrightarrow> cluster_step E C D \<Longrightarrow> cluster_reach E D"

inductive_cases cluster_stepE: "cluster_step E C D"

text \<open>One server moves, on a message that was in transit if it was a message of a server.\<close>

lemma cluster_step_server:
  assumes "cluster_step E C D"
  shows "\<exists>i ev t. i \<in> server_ids \<and> server_step E (C i) ev t \<and> D = C(i := t) \<and>
     (\<forall>p. ev = Rpc p \<longrightarrow> in_transit C i p)"
  using assms by (cases rule: cluster_step.cases) blast+

section \<open>The invariant\<close>

definition leader_of :: "int \<Rightarrow> int" where "leader_of v = v smod 7"

definition cluster_inv :: "env \<Rightarrow> cluster \<Rightarrow> bool" where
  "cluster_inv E C \<longleftrightarrow> (\<forall>i \<in> server_ids. srv_inv E (C i) \<and> prop_inv (C i) \<and> serverId (C i) = i \<and>
     (\<forall>e \<in> set (heap (C i)). leader_of (entry_view e) \<in> server_ids \<and>
        proposed_by (C (leader_of (entry_view e))) (mi_prePrepare e)))"

lemma cluster_inv_server:
  assumes "cluster_inv E C" and "i \<in> server_ids"
  shows "srv_inv E (C i)" "prop_inv (C i)" "serverId (C i) = i" "clusterSize (C i) = 7"
  using assms by (auto simp: cluster_inv_def srv_inv_def config_ok_def)

lemma cluster_inv_entry:
  assumes "cluster_inv E C" and "i \<in> server_ids" and "e \<in> set (heap (C i))"
  shows "leader_of (entry_view e) \<in> server_ids"
    and "proposed_by (C (leader_of (entry_view e))) (mi_prePrepare e)"
  using assms by (auto simp: cluster_inv_def)

lemma proposed_by_leader:
  assumes "cluster_inv E C" and "i \<in> server_ids" and "proposed_by (C i) r"
  shows "leader_of (req_view r) = i"
  using cluster_inv_server [OF assms(1,2)] assms(3) by (simp add: prop_inv_def leader_of_def)

lemma proposed_by_mono: "set (outbox s) \<subseteq> set (outbox t) \<Longrightarrow> proposed_by s r \<Longrightarrow> proposed_by t r"
  unfolding proposed_by_def by blast

text \<open>The entry that results from a delivered proposal was proposed by the server that sent it.\<close>

lemma entry_origin:
  assumes inv: "cluster_inv E C" and i: "i \<in> server_ids" and well: "proposes_well ev (C i) t"
    and sent: "\<And>p. ev = Rpc p \<Longrightarrow> in_transit C i p" and id: "serverId t = i" and size: "clusterSize t = 7"
    and e: "e \<in> set (heap t)"
  shows "leader_of (entry_view e) \<in> server_ids \<and>
    proposed_by ((C(i := t)) (leader_of (entry_view e))) (mi_prePrepare e)"
proof -
  have more: "proposed_by ((C(i := t)) j) r" if "proposed_by (C j) r" for j r
    using that well proposed_by_mono [of "C i" t r] by (auto simp: proposes_well_def)
  have "origin (C i) t ev e" using well e by (simp add: proposes_well_def)
  then consider x where "x \<in> set (heap (C i))" "mi_prePrepare x = mi_prePrepare e"
    | "proposed_by t (mi_prePrepare e)"
    | r where "ev = Rpc (P_PrePrepare r)" "pp_r r = mi_prePrepare e"
    unfolding origin_def by fastforce
  then show ?thesis
  proof cases
    case 1
    then show ?thesis using inv i more by (force simp: cluster_inv_def entry_view_def)
  next
    case 2
    have "leader_of (entry_view e) = i"
      using well 2 id size by (simp add: proposes_well_def prop_inv_def leader_of_def entry_req)
    with 2 i show ?thesis by simp
  next
    case 3
    then obtain j where j: "j \<in> server_ids" "proposed_by (C j) (mi_prePrepare e)"
      using sent by (fastforce simp: in_transit_def proposed_by_def)
    with proposed_by_leader [OF inv j] more show ?thesis by (simp add: entry_req)
  qed
qed

lemma cluster_inv_step:
  assumes "cluster_step E C D" and inv: "cluster_inv E C"
  shows "cluster_inv E D"
proof -
  obtain i ev t where i: "i \<in> server_ids" and st: "server_step E (C i) ev t" and D: "D = C(i := t)"
    and sent: "\<And>p. ev = Rpc p \<Longrightarrow> in_transit C i p"
    using cluster_step_server [OF assms(1)] by blast
  note c = cluster_inv_server [OF inv i]
  have well: "proposes_well ev (C i) t" by (rule server_step_well [OF st c(2,1)])
  have t: "srv_inv E t" "serverId t = i" "prop_inv t"
    using server_step_keeps [OF st] c well by (auto simp: keeps_def evolves_def proposes_well_def)
  have old: "leader_of (entry_view e) \<in> server_ids \<and> proposed_by (D (leader_of (entry_view e))) (mi_prePrepare e)"
    if "j \<in> server_ids" "e \<in> set (heap (C j))" for j e
    using that inv well proposed_by_mono [of "C i" t "mi_prePrepare e"]
    by (auto simp: cluster_inv_def D proposes_well_def)
  show ?thesis
    unfolding cluster_inv_def
  proof
    fix j assume j: "j \<in> server_ids"
    show "srv_inv E (D j) \<and> prop_inv (D j) \<and> serverId (D j) = j \<and>
     (\<forall>e \<in> set (heap (D j)). leader_of (entry_view e) \<in> server_ids \<and>
        proposed_by (D (leader_of (entry_view e))) (mi_prePrepare e))"
    proof (cases "j = i")
      case True
      have "clusterSize t = 7" using t(1) by (simp add: srv_inv_def config_ok_def)
      then show ?thesis using entry_origin [OF inv i well sent t(2)] t True by (simp add: D)
    next
      case False
      then show ?thesis using old [OF j] cluster_inv_server [OF inv j] by (simp add: D)
    qed
  qed
qed

lemma cluster_reach_inv: "cluster_reach E C \<Longrightarrow> cluster_inv E C"
proof (induction rule: cluster_reach.induct)
  case (start C)
  show ?case
    unfolding cluster_inv_def
  proof
    fix i assume i: "i \<in> server_ids"
    obtain name byz lc lcp where C: "C i = PbftServerImpl i name byz lc lcp" using start by blast
    have "heap (C i) = []" "serverId (C i) = i" by (simp_all add: C PbftServerImpl_def)
    then show "srv_inv E (C i) \<and> prop_inv (C i) \<and> serverId (C i) = i \<and>
     (\<forall>e \<in> set (heap (C i)). leader_of (entry_view e) \<in> server_ids \<and>
        proposed_by (C (leader_of (entry_view e))) (mi_prePrepare e))"
      using i by (simp add: C prop_inv_init srv_inv_init server_ids_def)
  qed
next
  case (step C D)
  then show ?case by (blast intro: cluster_inv_step)
qed

section \<open>Running the cluster\<close>

text \<open>What happens next: a client submits a request to a server, the \<open>k\<close>-th call that server \<open>j\<close> made
  arrives, or the \<open>k\<close>-th timer of server \<open>i\<close> runs out.\<close>

datatype action = Submit nat Message | Deliver nat nat | Timeout nat nat

definition move :: "env \<Rightarrow> nat \<Rightarrow> event \<Rightarrow> srv list \<Rightarrow> fault + srv list" where
  "move E i ev C = ebind (handle E ev (C ! i)) (\<lambda>t. Ok (C[i := t]))"

fun act :: "env \<Rightarrow> action \<Rightarrow> srv list \<Rightarrow> fault + srv list" where
  "act E (Submit i m) C = (if i < 7 then move E i (Rpc (P_Transfer m)) C else Ok C)"
| "act E (Deliver j k) C =
     (if j < 7 \<and> k < length (outbox (C ! j)) then
        (case outbox (C ! j) ! k of
           ToServer i p \<Rightarrow> if 0 \<le> i \<and> i < 7 then move E (nat i) (Rpc p) C else Ok C
         | ToClient c r \<Rightarrow> Ok C)
      else Ok C)"
| "act E (Timeout i k) C =
     (if i < 7 \<and> k < length (futures (C ! i)) then move E i (Fire (futures (C ! i) ! k)) C else Ok C)"

primrec acts :: "env \<Rightarrow> action list \<Rightarrow> srv list \<Rightarrow> fault + srv list" where
  "acts E [] C = Ok C"
| "acts E (a # as) C = ebind (act E a C) (acts E as)"

text \<open>A run of actions is a run of the cluster, up to the clock.\<close>

definition servers :: "srv list \<Rightarrow> cluster" where
  "servers C i = (if 0 \<le> i \<and> i < 7 then C ! nat i else PbftServerImpl i ''S'' False 0 0)"

lemma server_step_now:
  assumes h: "handle E ev s = Inr t" and x: "\<And>x. ev = Fire x \<Longrightarrow> x \<in> set (futures s)"
  shows "server_step E s ev t"
proof -
  have now: "at_time E (env_now E) (env_junk E) = E" by (simp add: at_time_def)
  show ?thesis
  proof (cases ev)
    case (Rpc p)
    show ?thesis unfolding Rpc
      by (rule server_step.receive [where t = "env_now E" and j = "env_junk E"]) (use h Rpc now in simp)
  next
    case (Fire y)
    show ?thesis unfolding Fire
      by (rule server_step.timeout [where t = "env_now E" and j = "env_junk E"]) (use h x Fire now in simp_all)
  next
    case Query_DB
    show ?thesis unfolding Query_DB
      by (rule server_step.query [where t = "env_now E" and j = "env_junk E"]) (use h Query_DB now in simp)
  qed
qed

lemma servers_update:
  assumes "i < 7" and "length C = 7"
  shows "servers (C[i := t]) = (servers C)(int i := t)"
  using assms by (auto simp: servers_def fun_eq_iff nth_list_update)

lemma move_step:
  assumes "move E i ev C = Inr D" and "i < 7" and "length C = 7"
    and "\<And>p. ev = Rpc p \<Longrightarrow> in_transit (servers C) (int i) p"
    and "\<And>x. ev = Fire x \<Longrightarrow> x \<in> set (futures (C ! i))"
  shows "cluster_step E (servers C) (servers D) \<and> length D = 7"
proof -
  obtain t where h: "handle E ev (C ! i) = Inr t" and D: "D = C[i := t]"
    using assms(1) by (auto simp: move_def)
  have C: "servers C (int i) = C ! i" and i: "int i \<in> server_ids"
    using assms(2) by (auto simp: servers_def server_ids_def)
  have st: "server_step E (servers C (int i)) ev t"
    unfolding C by (rule server_step_now [OF h assms(5)])
  have "cluster_step E (servers C) ((servers C)(int i := t))"
    using st assms(4) by (cases ev) (auto intro: cluster_step.intros [OF i])
  then show ?thesis using assms(2,3) by (simp add: D servers_update)
qed

lemma act_step:
  assumes "act E a C = Inr D" and C: "length C = 7"
  shows "D = C \<or> cluster_step E (servers C) (servers D) \<and> length D = 7"
proof (cases a)
  case (Submit i m)
  then show ?thesis using assms move_step [of E i _ C D] by (auto simp: in_transit_def split: if_splits)
next
  case (Deliver j k)
  show ?thesis
  proof (cases "j < 7 \<and> k < length (outbox (C ! j))")
    case jk: True
    show ?thesis
    proof (cases "outbox (C ! j) ! k")
      case (ToServer i p)
      then have mem: "ToServer i p \<in> set (outbox (servers C (int j)))"
        using jk nth_mem [of k "outbox (C ! j)"] by (simp add: servers_def)
      have j: "int j \<in> server_ids" using jk by (simp add: server_ids_def)
      have "in_transit (servers C) i p" using mem j unfolding in_transit_def by blast
      then show ?thesis using assms move_step [of E "nat i" "Rpc p" C D] jk ToServer
        by (auto simp: Deliver split: if_splits)
    qed (use assms(1) jk Deliver in simp)
  qed (use assms(1) Deliver in auto)
next
  case (Timeout i k)
  then show ?thesis
    using assms move_step [of E i "Fire (futures (C ! i) ! k)" C D] by (auto split: if_splits)
qed

lemma acts_reach:
  "acts E as C = Inr D \<Longrightarrow> length C = 7 \<Longrightarrow> cluster_reach E (servers C) \<Longrightarrow>
     cluster_reach E (servers D) \<and> length D = 7"
proof (induction "as" arbitrary: C)
  case (Cons a "as")
  then obtain B where B: "act E a C = Inr B" "acts E as B = Inr D" by auto
  have "length B = 7 \<and> cluster_reach E (servers B)"
    using act_step [OF B(1) Cons.prems(2)] Cons.prems by (auto intro: cluster_reach.step)
  then show ?case using Cons.IH [OF B(2)] by blast
qed simp

definition initial :: "srv list" where
  "initial = map (\<lambda>i. PbftServerImpl i ''S'' False 0 0) [0, 1, 2, 3, 4, 5, 6]"

lemma servers_initial: "\<exists>name byz lc lcp. servers initial i = PbftServerImpl i name byz lc lcp"
proof -
  have "servers initial i = PbftServerImpl i ''S'' False 0 0"
  proof (cases "0 \<le> i \<and> i < 7")
    case True
    then have "i \<in> {0, 1, 2, 3, 4, 5, 6}" by auto
    then show ?thesis by (auto simp: servers_def initial_def)
  qed (auto simp: servers_def)
  then show ?thesis by blast
qed

lemma initial_reach: "cluster_reach E (servers initial)"
  by (rule cluster_reach.start) (rule servers_initial)

text \<open>The normal case: a client's request, the proposal and its votes, the optimistic timer, the
  certificates.\<close>

definition normal_case :: "Message \<Rightarrow> action list" where
  "normal_case m = [Submit 1 m] @ map (Deliver 1) [0, 1, 2, 3, 4, 5] @
     map (\<lambda>i. Deliver i 0) [0, 2, 3, 4, 5, 6] @ [Timeout 1 0] @ map (Deliver 1) [6, 7, 8, 9, 10, 11, 12]"

section \<open>Agreement\<close>

text \<open>What was proposed stays proposed: outboxes only grow.\<close>

lemma proposed_by_step:
  assumes "cluster_step E C D" and inv: "cluster_inv E C" and "proposed_by (C l) r"
  shows "proposed_by (D l) r"
proof -
  obtain i ev t where i: "i \<in> server_ids" and st: "server_step E (C i) ev t" and D: "D = C(i := t)"
    using cluster_step_server [OF assms(1)] by blast
  have "proposes_well ev (C i) t" by (rule server_step_well [OF st cluster_inv_server(2,1) [OF inv i]])
  then show ?thesis using proposed_by_mono [of "C i" t r] assms(3) by (auto simp: D proposes_well_def)
qed

lemma later_proposed:
  assumes "(cluster_step E)\<^sup>*\<^sup>* C D" and "cluster_reach E C" and "proposed_by (C l) r"
  shows "cluster_reach E D \<and> proposed_by (D l) r"
  using assms
proof (induction rule: rtranclp_induct)
  case (step B D)
  then have "cluster_reach E B" "proposed_by (B l) r" by auto
  with step.hyps(2) show ?case by (blast intro: cluster_reach.step proposed_by_step cluster_reach_inv)
qed simp

text \<open>Two requests for different transfers whose digests are the same.\<close>

definition collision :: "env \<Rightarrow> Message \<Rightarrow> Message \<Rightarrow> bool" where
  "collision E m n \<longleftrightarrow> ms_data m \<noteq> ms_data n \<and> message_digest E m = message_digest E n"

text \<open>
  C1: Agreement within a view, over time. Take two states \<open>C\<close> and \<open>D\<close> of a run of the seven servers, \<open>D\<close>
  reached from \<open>C\<close>; an entry that server \<open>i\<close> holds in \<open>C\<close> and one that server \<open>j\<close> holds in \<open>D\<close>, for the
  same view and the same sequence number, executed or not (the one in \<open>C\<close> may have been overwritten by the
  time of \<open>D\<close>). Then the two entries have the same digest, and they are for the same transfer unless the two
  requests are a collision of the digest function. This is whatever was delivered late, twice or not at
  all and whichever timers ran out. All seven servers run this code (in either of its modes), and messages
  of servers come from their outboxes: nothing is said of injected ones.
\<close>

theorem agreement_in_view:
  assumes "cluster_reach E C" and run: "(cluster_step E)\<^sup>*\<^sup>* C D" and ij: "i \<in> {0..6}" "j \<in> {0..6}"
    and e: "e \<in> set (heap (C i))" and x: "x \<in> set (heap (D j))"
    and same: "entry_view e = entry_view x" "entry_seq e = entry_seq x"
  shows "entry_digest e = entry_digest x \<and>
    (ms_data (mi_m e) = ms_data (mi_m x) \<or> collision E (mi_m e) (mi_m x))"
proof -
  have inv: "cluster_inv E C" by (rule cluster_reach_inv [OF assms(1)])
  have i: "i \<in> server_ids" and j: "j \<in> server_ids" using ij by (simp_all add: server_ids_def)
  define l where "l = leader_of (entry_view e)"
  have l: "l \<in> server_ids" "proposed_by (C l) (mi_prePrepare e)"
    using cluster_inv_entry [OF inv i e] by (simp_all add: l_def)
  have D: "cluster_reach E D" "proposed_by (D l) (mi_prePrepare e)"
    using later_proposed [OF run assms(1) l(2)] by simp_all
  note invD = cluster_reach_inv [OF D(1)]
  have "proposed_by (D l) (mi_prePrepare x)"
    using cluster_inv_entry(2) [OF invD j x] same(1) by (simp add: l_def)
  moreover have "one_digest (D l)" using cluster_inv_server [OF invD l(1)] by (simp add: prop_inv_def)
  ultimately have d: "entry_digest e = entry_digest x"
    using one_digestD [OF _ D(2)] same by (simp add: entry_req)
  have "entry_ok E e" "entry_ok E x"
    using cluster_inv_server(1) [OF inv i] cluster_inv_server(1) [OF invD j] e x
    by (auto simp: in_set_conv_nth dest: srv_inv_entryD)
  with d show ?thesis by (auto simp: entry_ok_def entry_digest_def collision_def)
qed

text \<open>The first seven actions of the normal case, and the rest of it: server 1 holds the request as
  accepted, later server 2 holds it as executed.\<close>

definition first_half :: "action list" where "first_half = take 7 (normal_case request1)"
definition second_half :: "action list" where "second_half = drop 7 (normal_case request1)"

lemma two_times:
  "holds (acts sample_env first_half initial) (\<lambda>C.
     map (\<lambda>e. (entry_view e, entry_seq e, mi_mstatus e)) (heap (C ! 1)) = [(1, 0, PRE_PREPARED)] \<and>
     holds (acts sample_env second_half C) (\<lambda>D.
       map (\<lambda>e. (entry_view e, entry_seq e, mi_mstatus e)) (heap (D ! 2)) = [(1, 0, EXECUTED)] \<and>
       map (\<lambda>e. mi_m e = request1) (heap (D ! 2)) = [True]))"
  by code_simp

lemma acts_run: "acts E as C = Inr D \<Longrightarrow> length C = 7 \<Longrightarrow> (cluster_step E)\<^sup>*\<^sup>* (servers C) (servers D)"
proof (induction "as" arbitrary: C)
  case (Cons a "as")
  then obtain B where B: "act E a C = Inr B" "acts E as B = Inr D" by auto
  from act_step [OF B(1) Cons.prems(2)] Cons.IH [OF B(2)] Cons.prems(2) show ?case
    by (auto intro: converse_rtranclp_into_rtranclp)
qed simp

theorem agreement_in_view_witness:
  "\<exists>C D e x. cluster_reach sample_env C \<and> (cluster_step sample_env)\<^sup>*\<^sup>* C D \<and>
     e \<in> set (heap (C 1)) \<and> mi_mstatus e = PRE_PREPARED \<and> x \<in> set (heap (D 2)) \<and> mi_mstatus x = EXECUTED \<and>
     entry_digest e = entry_digest x \<and>
     (ms_data (mi_m e) = ms_data request1 \<or> collision sample_env (mi_m e) request1)"
proof -
  obtain C D where C: "acts sample_env first_half initial = Inr C"
    and e': "map (\<lambda>e. (entry_view e, entry_seq e, mi_mstatus e)) (heap (C ! 1)) = [(1, 0, PRE_PREPARED)]"
    and D: "acts sample_env second_half C = Inr D"
    and x': "map (\<lambda>e. (entry_view e, entry_seq e, mi_mstatus e)) (heap (D ! 2)) = [(1, 0, EXECUTED)]"
      "map (\<lambda>e. mi_m e = request1) (heap (D ! 2)) = [True]"
    using two_times by (auto simp: holds_iff)
  have r: "cluster_reach sample_env (servers C)" and len: "length C = 7"
    using acts_reach [OF C _ initial_reach] by (simp_all add: initial_def)
  note run = acts_run [OF D len]
  obtain e where e: "heap (servers C 1) = [e]" "entry_view e = 1" "entry_seq e = 0" "mi_mstatus e = PRE_PREPARED"
    using e' by (auto simp: servers_def map_eq_Cons_conv)
  obtain x where x: "heap (servers D 2) = [x]" "entry_view x = 1" "entry_seq x = 0" "mi_mstatus x = EXECUTED"
      "mi_m x = request1"
    using x' by (auto simp: servers_def map_eq_Cons_conv)
  have "entry_digest e = entry_digest x \<and> (ms_data (mi_m e) = ms_data (mi_m x) \<or> collision sample_env (mi_m e) (mi_m x))"
    by (rule agreement_in_view [OF r run, where i = 1 and j = 2]) (simp_all add: e x)
  then show ?thesis using r run e(1,4) x(1,4,5)
    by (intro exI [of _ "servers C"] exI [of _ "servers D"] exI [of _ e] exI [of _ x]) simp
qed


section \<open>No agreement across views\<close>

text \<open>
  A run without faults: server 1 executes a request that servers 0, 4, 5 and 6 prepared; servers 2
  and 3 have not heard of it yet. Then the timers of the four run out, their view-change messages
  make server 2 the leader of view 2, and a second client's request arrives there.
\<close>

definition request3 :: Message where "request3 = signed_by 2 (pay ''C'' ''D'' 1)"

definition late_view_change :: "action list" where
  "late_view_change =
     [Submit 1 request1] @ map (Deliver 1) [0, 3, 4, 5] @ map (\<lambda>i. Deliver i 0) [0, 4, 5, 6] @
     [Timeout 1 0] @ map (Deliver 1) [6, 9, 10, 11] @ map (\<lambda>i. Deliver i 1) [0, 4, 5, 6] @
     map (\<lambda>i. Timeout i 0) [0, 4, 5, 6] @ [Deliver 0 3, Deliver 4 4, Deliver 5 4, Deliver 6 4] @
     map (Deliver 2) [0, 3, 4, 5]"

definition next_request :: "action list" where
  "next_request =
     [Submit 2 request3] @ map (Deliver 2) [6, 9, 10, 11] @ map (\<lambda>i. Deliver i 8) [0, 4, 5, 6] @
     [Timeout 2 0] @ map (Deliver 2) [12, 15, 16, 17] @ map (\<lambda>i. Deliver i 9) [0, 4, 5, 6]"

lemma diverging_run:
  "holds (acts sample_env (late_view_change @ next_request) initial) (\<lambda>C.
     map (\<lambda>e. (entry_seq e, mi_mstatus e, td_sender (ms_data (mi_m e)))) (heap (C ! 1)) = [(0, EXECUTED, ''A'')] \<and>
     map (\<lambda>e. (entry_seq e, mi_mstatus e, td_sender (ms_data (mi_m e)))) (heap (C ! 2)) = [(0, EXECUTED, ''C'')] \<and>
     list_all (\<lambda>s. \<not> isByzantine s) C)"
  by code_simp

definition all_honest :: "cluster \<Rightarrow> bool" where
  "all_honest C \<longleftrightarrow> (\<forall>i \<in> server_ids. \<not> isByzantine (C i))"

text \<open>
  C2: Two servers can execute different requests for the same sequence number. The new leader of
  a view does not put the requests that the old view prepared into its log, so it proposes a new request
  for a number that another server has executed; a replica accepts it, because the entry it holds
  is of an older view. No server has to misbehave: late messages are enough.
\<close>

theorem views_diverge:
  "\<exists>C e x. cluster_reach sample_env C \<and> all_honest C \<and>
     e \<in> set (heap (C 1)) \<and> x \<in> set (heap (C 2)) \<and> mi_mstatus e = EXECUTED \<and>
     mi_mstatus x = EXECUTED \<and> entry_seq e = entry_seq x \<and> mi_m e \<noteq> mi_m x"
proof -
  obtain D where D: "acts sample_env (late_view_change @ next_request) initial = Inr D"
    and one: "map (\<lambda>e. (entry_seq e, mi_mstatus e, td_sender (ms_data (mi_m e)))) (heap (D ! 1)) = [(0, EXECUTED, ''A'')]"
    and two: "map (\<lambda>e. (entry_seq e, mi_mstatus e, td_sender (ms_data (mi_m e)))) (heap (D ! 2)) = [(0, EXECUTED, ''C'')]"
    and honest: "list_all (\<lambda>s. \<not> isByzantine s) D"
    using diverging_run by (auto simp: holds_iff)
  have r: "cluster_reach sample_env (servers D)" and len: "length D = 7"
    using acts_reach [OF D _ initial_reach] by (simp_all add: initial_def)
  obtain e x where e: "heap (servers D 1) = [e]" "entry_seq e = 0" "mi_mstatus e = EXECUTED" "td_sender (ms_data (mi_m e)) = ''A''"
    and x: "heap (servers D 2) = [x]" "entry_seq x = 0" "mi_mstatus x = EXECUTED" "td_sender (ms_data (mi_m x)) = ''C''"
    using one two by (auto simp: servers_def map_eq_Cons_conv)
  have "all_honest (servers D)"
    using honest len by (auto simp: all_honest_def server_ids_def servers_def list_all_length)
  moreover have "mi_m e \<noteq> mi_m x" using e(4) x(4) by auto
  ultimately show ?thesis using r e x
    by (intro exI [of _ "servers D"] exI [of _ e] exI [of _ x]) simp
qed

end
