(* ===== verification/Effects.thy ===== *)
theory Effects
  imports Prelude
begin

text \<open>
  Operations that an exception can leave half-way and whose state is looked at afterwards: the
  driver's, whose main loop reports an exception and goes on. Their result is the state they leave,
  and the fault that ended them, if any.
\<close>

type_synonym 's effect = "fault option \<times> 's"

definition andThen :: "'s effect \<Rightarrow> ('s \<Rightarrow> 's effect) \<Rightarrow> 's effect" where
  "andThen r k = (case r of (None, s) \<Rightarrow> k s | (Some f, s) \<Rightarrow> (Some f, s))"

lemma andThen_simps [simp]: "andThen (None, s) k = k s" "andThen (Some f, s) k = (Some f, s)"
  by (simp_all add: andThen_def)

lemma andThen_None_iff: "andThen r k = (None, t) \<longleftrightarrow> (\<exists>s. r = (None, s) \<and> k s = (None, t))"
  by (cases r) (auto simp: andThen_def split: option.split)

lemma andThen_NoneE [elim!]:
  assumes "andThen r k = (None, t)"
  obtains s where "r = (None, s)" and "k s = (None, t)"
  using assms by (auto simp: andThen_None_iff)

lemma andThen_SomeE:
  assumes "andThen r k = (Some f, t)"
  obtains (first) "r = (Some f, t)" | (second) s where "r = (None, s)" and "k s = (Some f, t)"
  using assms by (cases r) (auto simp: andThen_def split: option.splits)

text \<open>An operation that throws before it changes anything.\<close>

definition unchanged :: "'s \<Rightarrow> fault + 's \<Rightarrow> 's effect" where
  "unchanged s r = (case r of Inl f \<Rightarrow> (Some f, s) | Inr t \<Rightarrow> (None, t))"

lemma unchanged_simps [simp]: "unchanged s (Inl f) = (Some f, s)" "unchanged s (Inr t) = (None, t)"
  by (simp_all add: unchanged_def)

text \<open>A loop over a list that the first exception ends.\<close>

primrec each_effect :: "('a \<Rightarrow> 's \<Rightarrow> 's effect) \<Rightarrow> 'a list \<Rightarrow> 's \<Rightarrow> 's effect" where
  "each_effect f [] s = (None, s)"
| "each_effect f (x # xs) s = andThen (f x s) (each_effect f xs)"

lemma each_effect_filter:
  "each_effect (\<lambda>n q. if P n then f n q else (None, q)) xs p = each_effect f (filter P xs) p"
proof (induction xs arbitrary: p)
  case (Cons x xs)
  then have "each_effect (\<lambda>n q. if P n then f n q else (None, q)) xs = each_effect f (filter P xs)"
    by (rule ext)
  then show ?case by simp
qed simp

text \<open>A property that every step keeps, whether it throws or not, holds of the state that is left.\<close>

lemma each_effect_invariant:
  assumes "P s" and "\<And>x t. x \<in> set xs \<Longrightarrow> P t \<Longrightarrow> P (snd (f x t))"
  shows "P (snd (each_effect f xs s))"
  using assms
proof (induction xs arbitrary: s)
  case (Cons x xs)
  then have "P (snd (f x s))" by simp
  with Cons show ?case by (cases "f x s") (auto simp: andThen_def split: option.split)
qed simp

lemma andThen_invariant:
  "P (snd r) \<Longrightarrow> (\<And>s. r = (None, s) \<Longrightarrow> P s \<Longrightarrow> P (snd (k s))) \<Longrightarrow> P (snd (andThen r k))"
  by (cases r) (auto simp: andThen_def split: option.split)

end
