(* ===== verification/Csv.thy ===== *)
theory Csv
  imports Std_String Effects
begin

text \<open>
  The reader of the input file (\<open>utils/csv_reader.cc\<close>): a line with quoted columns, the transaction
  and the server lists in them, and the grouping of lines into transaction sets. The file is the list
  of the lines that \<open>std::getline\<close> has still to return.
\<close>

section \<open>Data\<close>

record Transaction =
  t_id :: int
  t_sender :: string
  t_receiver :: string
  t_amount :: int

record TransactionSet =
  ts_setNo :: int
  ts_transactions :: "Transaction list"
  ts_aliveServers :: "string list"
  ts_byzantineServers :: "string list"

record CSVLine =
  cl_setNo :: int
  cl_transaction :: Transaction
  cl_aliveServers :: "string list"
  cl_byzantineServers :: "string list"

record CSVReader =
  cr_file :: "string list"
  cr_currentSetNo :: int
  cr_current :: TransactionSet
  cr_next :: TransactionSet

section \<open>Fields\<close>

definition stripLineEndings :: "string \<Rightarrow> string" where
  "stripLineEndings line =
     filter (\<lambda>c. \<not> (c = CHR 0x0D \<or> c = CHR 0x0A \<or> c = CHR '' '')) line"

text \<open>The loops over the characters of a column: the fields so far, the field being read.\<close>

fun transaction_fields :: "string \<Rightarrow> string list \<times> string \<Rightarrow> string list \<times> string" where
  "transaction_fields [] acc = acc"
| "transaction_fields (c # cs) (fs, f) =
     (if c = CHR ''('' \<or> c = CHR '')'' \<or> c = CHR '' '' then transaction_fields cs (fs, f)
      else if c = CHR '','' then transaction_fields cs (fs @ [f], [])
      else transaction_fields cs (fs, f @ [c]))"

definition parseTransaction :: "string \<Rightarrow> fault + Transaction" where
  "parseTransaction column =
     (let (fs, f) = transaction_fields column ([], []); fds = fs @ [f]
      in ebind (vec_at fds 0) (\<lambda>sender.
         ebind (vec_at fds 1) (\<lambda>receiver.
         ebind (vec_at fds 2) (\<lambda>a.
         ebind (stoi a) (\<lambda>amount.
         Ok \<lparr>t_id = -1, t_sender = sender, t_receiver = receiver, t_amount = amount\<rparr>)))))"

fun server_fields :: "string \<Rightarrow> string list \<times> string \<Rightarrow> string list \<times> string" where
  "server_fields [] acc = acc"
| "server_fields (c # cs) (servers, server) =
     (if c = CHR ''['' \<or> c = CHR '']'' \<or> c = CHR '' '' then server_fields cs (servers, server)
      else if c = CHR '','' then server_fields cs (servers @ [server], [])
      else server_fields cs (servers, server @ [c]))"

definition parseServers :: "string \<Rightarrow> string list" where
  "parseServers column =
     (let (servers, server) = server_fields column ([], [])
      in if server \<noteq> [] then servers @ [server] else servers)"

section \<open>Lines\<close>

text \<open>The columns so far, the column being read, and whether inside quotes.\<close>

fun csv_columns :: "string \<Rightarrow> string list \<times> string \<Rightarrow> bool \<Rightarrow> string list \<times> string" where
  "csv_columns [] acc inQuotes = acc"
| "csv_columns (c # cs) (columns, column) inQuotes =
     (if c = CHR 0x22 then csv_columns cs (columns, column) (\<not> inQuotes)
      else if c = CHR '','' \<and> \<not> inQuotes then csv_columns cs (columns @ [column], []) inQuotes
      else csv_columns cs (columns, column @ [c]) inQuotes)"

definition parseCSVLine :: "string \<Rightarrow> fault + CSVLine" where
  "parseCSVLine line =
     (let (cs, c) = csv_columns line ([], []) False; columns = cs @ [c]
      in ebind (vec_at columns 0) (\<lambda>col0.
         ebind (if col0 \<noteq> [] then stoi col0 else Ok (-1)) (\<lambda>setNumber.
         ebind (ebind (vec_at columns 1) parseTransaction) (\<lambda>t.
         ebind (vec_at columns 2) (\<lambda>col2.
         ebind (vec_at columns 3) (\<lambda>col3.
         Ok \<lparr>cl_setNo = setNumber, cl_transaction = t,
             cl_aliveServers = (if col2 \<noteq> [] then parseServers col2 else []),
             cl_byzantineServers = (if col3 \<noteq> [] then parseServers col3 else [])\<rparr>))))))"

section \<open>Sets\<close>

definition empty_set :: TransactionSet where
  "empty_set = \<lparr>ts_setNo = 0, ts_transactions = [], ts_aliveServers = [], ts_byzantineServers = []\<rparr>"

text \<open>The constructor opens the file: \<open>None\<close> is a file that cannot be opened.\<close>

definition new_CSVReader :: "string \<Rightarrow> string list option \<Rightarrow> fault + CSVReader" where
  "new_CSVReader filename content =
     (case content of
        None \<Rightarrow> Fault (Thrown (Runtime_error (''Error: Could not open the file: '' @ filename)))
      | Some lines \<Rightarrow> Ok \<lparr>cr_file = lines, cr_currentSetNo = 0, cr_current = empty_set, cr_next = empty_set\<rparr>)"

definition push_transaction :: "Transaction \<Rightarrow> TransactionSet \<Rightarrow> TransactionSet" where
  "push_transaction t s = s\<lparr>ts_transactions := ts_transactions s @ [t]\<rparr>"

definition push_first :: "CSVLine \<Rightarrow> TransactionSet \<Rightarrow> TransactionSet" where
  "push_first l s = (push_transaction (cl_transaction l) s)
     \<lparr>ts_aliveServers := cl_aliveServers l, ts_byzantineServers := cl_byzantineServers l\<rparr>"

text \<open>The loop of \<open>readNextSet\<close>: the rest of the file and the two sets; the first row of the next
  set ends it. A line that cannot be parsed ends it too, and is not read again.\<close>

fun read_lines :: "int \<Rightarrow> string list \<Rightarrow> TransactionSet \<Rightarrow> TransactionSet \<Rightarrow>
     (string list \<times> TransactionSet \<times> TransactionSet) effect" where
  "read_lines n [] cur nxt = (None, [], cur, nxt)"
| "read_lines n (line # lines) cur nxt =
     (case parseCSVLine (stripLineEndings line) of
        Inl f \<Rightarrow> (Some f, lines, cur, nxt)
      | Inr l \<Rightarrow>
          if cl_setNo l = n then read_lines n lines (push_first l cur) nxt
          else (case iadd n 1 of
              Inl f \<Rightarrow> (Some f, lines, cur, nxt)
            | Inr n' \<Rightarrow>
                if cl_setNo l = n' then (None, lines, cur, push_first l nxt)
                else read_lines n lines (push_transaction (cl_transaction l) cur) nxt))"

text \<open>The set is an output argument: it is left alone when there is no further set, or when the call
  throws. The reader is left in the state in which the call ends.\<close>

definition readNextSet :: "TransactionSet \<Rightarrow> CSVReader \<Rightarrow> (fault + int) \<times> TransactionSet \<times> CSVReader" where
  "readNextSet t r =
     (case iadd (cr_currentSetNo r) 1 of
        Inl f \<Rightarrow> (Inl f, t, r)
      | Inr n \<Rightarrow>
          let (thrown, rest, cur, nxt) =
                read_lines n (cr_file r) ((cr_next r)\<lparr>ts_setNo := ts_setNo (cr_current r)\<rparr>)
                  (empty_set\<lparr>ts_setNo := ts_setNo (cr_next r)\<rparr>);
              r' = \<lparr>cr_file = rest, cr_currentSetNo = n, cr_current = cur, cr_next = nxt\<rparr>
          in case thrown of
               Some f \<Rightarrow> (Inl f, t, r')
             | None \<Rightarrow>
                 if ts_transactions cur = [] then (Ok 0, t, r')
                 else (Ok (int (length (ts_transactions cur))), cur\<lparr>ts_setNo := n\<rparr>, r'))"


section \<open>Writing what is read\<close>

text \<open>A name without the characters that have a meaning in the file.\<close>

definition plain_char :: "char \<Rightarrow> bool" where
  "plain_char c \<longleftrightarrow> c \<notin> {CHR ''('', CHR '')'', CHR ''['', CHR '']'', CHR '','', CHR '' '', CHR 0x22, CHR 0x0D, CHR 0x0A}"

definition plain_name :: "string \<Rightarrow> bool" where
  "plain_name s \<longleftrightarrow> list_all plain_char s"

definition quoted :: "string \<Rightarrow> string" where "quoted s = CHR 0x22 # s @ [CHR 0x22]"

definition show_transaction :: "Transaction \<Rightarrow> string" where
  "show_transaction t = ''('' @ t_sender t @ '', '' @ t_receiver t @ '', '' @ to_string (t_amount t) @ '')''"

fun join :: "string list \<Rightarrow> string" where
  "join [] = []" | "join [s] = s" | "join (s # ss) = s @ '', '' @ join ss"

definition show_servers :: "string list \<Rightarrow> string" where
  "show_servers ss = (if ss = [] then [] else quoted (''['' @ join ss @ '']''))"

definition show_line :: "CSVLine \<Rightarrow> string" where
  "show_line l = (if cl_setNo l = -1 then [] else to_string (cl_setNo l)) @ '','' @
     quoted (show_transaction (cl_transaction l)) @ '','' @ show_servers (cl_aliveServers l) @ '','' @
     show_servers (cl_byzantineServers l) @ [CHR 0x0D]"

definition transaction_ok :: "Transaction \<Rightarrow> bool" where
  "transaction_ok t \<longleftrightarrow> t_id t = -1 \<and> plain_name (t_sender t) \<and> plain_name (t_receiver t) \<and> in_int32 (t_amount t)"

definition servers_ok :: "string list \<Rightarrow> bool" where
  "servers_ok ss \<longleftrightarrow> list_all (\<lambda>s. s \<noteq> [] \<and> plain_name s) ss"

definition line_ok :: "CSVLine \<Rightarrow> bool" where
  "line_ok l \<longleftrightarrow> in_int32 (cl_setNo l) \<and> transaction_ok (cl_transaction l) \<and>
     servers_ok (cl_aliveServers l) \<and> servers_ok (cl_byzantineServers l)"

lemma plain_name_append [simp]: "plain_name (xs @ ys) \<longleftrightarrow> plain_name xs \<and> plain_name ys"
  by (simp add: plain_name_def)

lemma plain_digit: "is_digit 10 c \<Longrightarrow> plain_char c"
  by (auto simp: plain_char_def is_digit_def digit_val_def char_code_def Let_def)

lemma plain_to_string [simp]: "plain_name (to_string i)"
proof -
  have "plain_name (show_nat n)" for n
    using show_nat_digits [of n] plain_digit by (auto simp: plain_name_def list_all_iff)
  then show ?thesis by (simp add: to_string_def plain_name_def plain_char_def)
qed

lemma to_string_nonempty [simp]: "to_string i \<noteq> []"
  using show_nat_hd [of "nat i"] by (auto simp: to_string_def)

lemma strip_append: "stripLineEndings (xs @ ys) = stripLineEndings xs @ stripLineEndings ys"
  by (simp add: stripLineEndings_def)

lemma strip_Nil: "stripLineEndings [] = []"
  by (simp add: stripLineEndings_def)

lemma strip_Cons: "stripLineEndings (c # cs) =
    (if c = CHR 0x0D \<or> c = CHR 0x0A \<or> c = CHR '' '' then stripLineEndings cs else c # stripLineEndings cs)"
  by (simp add: stripLineEndings_def)

lemma strip_plain: "plain_name s \<Longrightarrow> stripLineEndings s = s"
  by (auto simp: stripLineEndings_def plain_name_def list_all_iff plain_char_def intro!: filter_True)

lemmas strip = strip_append strip_Nil strip_Cons strip_plain

lemma transaction_fields_plain:
  "plain_name w \<Longrightarrow> transaction_fields (w @ cs) (fs, f) = transaction_fields cs (fs, f @ w)"
  by (induction w arbitrary: f) (auto simp: plain_name_def plain_char_def)

lemma server_fields_plain:
  "plain_name w \<Longrightarrow> server_fields (w @ cs) (fs, f) = server_fields cs (fs, f @ w)"
  by (induction w arbitrary: f) (auto simp: plain_name_def plain_char_def)

lemma csv_plain: "plain_name w \<Longrightarrow> csv_columns (w @ cs) (cols, c) q = csv_columns cs (cols, c @ w) q"
  by (induction w arbitrary: c) (auto simp: plain_name_def plain_char_def)

lemma csv_quoted:
  "CHR 0x22 \<notin> set w \<Longrightarrow> csv_columns (quoted w @ cs) (cols, c) False = csv_columns cs (cols, c @ w) False"
proof -
  have "csv_columns (w @ CHR 0x22 # cs) (cols, c) True = csv_columns cs (cols, c @ w) False"
    if "CHR 0x22 \<notin> set w" for c using that by (induction w arbitrary: c) auto
  then show "CHR 0x22 \<notin> set w \<Longrightarrow> ?thesis" by (simp add: quoted_def)
qed

lemma parseTransaction_show:
  assumes "transaction_ok t"
  shows "parseTransaction (stripLineEndings (show_transaction t)) = Inr t"
  using assms transaction_fields_plain [of "to_string (t_amount t)"] stoi_to_string [of "t_amount t"]
  by (simp add: parseTransaction_def show_transaction_def transaction_ok_def strip transaction_fields_plain vec_at_def)

lemma join_Cons: "ss \<noteq> [] \<Longrightarrow> join (s # ss) = s @ '', '' @ join ss"
  by (cases ss) auto

lemma server_fields_join:
  assumes "servers_ok ss" and "ss \<noteq> []"
  shows "server_fields (stripLineEndings (join ss) @ '']'') (fs, []) = (fs @ butlast ss, last ss)"
  using assms
proof (induction ss arbitrary: fs)
  case (Cons s ss)
  then have s: "plain_name s" "s \<noteq> []" "servers_ok ss" by (auto simp: servers_ok_def)
  show ?case
  proof (cases "ss = []")
    case True
    then show ?thesis using s by (simp add: strip server_fields_plain)
  next
    case False
    with s Cons.IH [OF s(3) False, of "fs @ [s]"] show ?thesis
      by (simp add: join_Cons strip server_fields_plain)
  qed
qed simp

lemma parseServers_show:
  assumes "servers_ok ss" and "ss \<noteq> []"
  shows "parseServers (stripLineEndings (''['' @ join ss @ '']'')) = ss"
proof -
  have "last ss \<noteq> []" using assms by (auto simp: servers_ok_def list_all_iff)
  then show ?thesis using server_fields_join [OF assms, of "[]"] assms(2)
    by (simp add: parseServers_def strip)
qed

lemma strip_mem: "CHR 0x22 \<notin> set s \<Longrightarrow> CHR 0x22 \<notin> set (stripLineEndings s)"
  by (simp add: stripLineEndings_def)

lemma plain_no_quote: "plain_name s \<Longrightarrow> CHR 0x22 \<notin> set s"
  by (auto simp: plain_name_def list_all_iff plain_char_def)

lemma join_no_quote: "servers_ok ss \<Longrightarrow> CHR 0x22 \<notin> set (join ss)"
  by (induction ss rule: join.induct) (auto simp: servers_ok_def plain_no_quote)

lemma csv_servers:
  assumes "servers_ok ss"
  shows "csv_columns (stripLineEndings (show_servers ss) @ cs) (cols, []) False =
    csv_columns cs (cols, if ss = [] then [] else stripLineEndings (''['' @ join ss @ '']'')) False"
proof (cases "ss = []")
  case False
  have "stripLineEndings (quoted s) = quoted (stripLineEndings s)" for s
    by (simp add: quoted_def strip)
  then show ?thesis using False join_no_quote [OF assms]
    by (simp add: show_servers_def csv_quoted strip_mem)
qed (simp add: show_servers_def strip)

lemma csv_transaction:
  assumes "transaction_ok t"
  shows "csv_columns (stripLineEndings (quoted (show_transaction t)) @ cs) (cols, []) False =
    csv_columns cs (cols, stripLineEndings (show_transaction t)) False"
proof -
  have "stripLineEndings (quoted s) = quoted (stripLineEndings s)" for s
    by (simp add: quoted_def strip)
  moreover have "CHR 0x22 \<notin> set (show_transaction t)"
    using assms by (simp add: show_transaction_def transaction_ok_def plain_no_quote)
  ultimately show ?thesis by (simp add: csv_quoted strip_mem)
qed

lemma parse_columns:
  assumes "csv_columns line ([], []) False = ([n, t, a], b)"
    and "(if n \<noteq> [] then stoi n else Ok (-1)) = Ok (cl_setNo l)"
    and "parseTransaction t = Ok (cl_transaction l)"
    and "(if a \<noteq> [] then parseServers a else []) = cl_aliveServers l"
    and "(if b \<noteq> [] then parseServers b else []) = cl_byzantineServers l"
  shows "parseCSVLine line = Ok l"
proof -
  have at: "vec_at [n, t, a, b] 0 = Ok n" "vec_at [n, t, a, b] 1 = Ok t" "vec_at [n, t, a, b] 2 = Ok a"
    "vec_at [n, t, a, b] 3 = Ok b" by (simp_all add: vec_at_def)
  show ?thesis
    unfolding parseCSVLine_def Let_def assms(1) prod.case append_Cons append_Nil at ebind.simps assms(2-5)
    by simp
qed

text \<open>
  C32: A line that was written in the format of the input file is read back as it was: the set number
  (left out when there is none), the transaction, and the two lists of servers.
\<close>

theorem parseCSVLine_show:
  assumes "line_ok l"
  shows "parseCSVLine (stripLineEndings (show_line l)) = Inr l"
proof -
  define n where "n = (if cl_setNo l = -1 then [] else to_string (cl_setNo l))"
  let ?col = "\<lambda>ss. if ss = [] then [] else stripLineEndings (''['' @ join ss @ '']'')"
  have ok: "in_int32 (cl_setNo l)" "transaction_ok (cl_transaction l)" "servers_ok (cl_aliveServers l)"
    "servers_ok (cl_byzantineServers l)" using assms by (simp_all add: line_ok_def)
  have n: "plain_name n" by (simp add: n_def plain_name_def [of "[]"])
  have "csv_columns (stripLineEndings (show_line l)) ([], []) False =
      ([n, stripLineEndings (show_transaction (cl_transaction l)), ?col (cl_aliveServers l)], ?col (cl_byzantineServers l))"
    using ok n csv_servers [OF ok(4), of "[]"]
    by (simp add: show_line_def strip_append strip_Cons [of "CHR '',''"] strip_Cons [of "CHR 0x0D"] strip_Nil
        csv_transaction csv_servers strip_plain csv_plain split del: if_split cong: if_cong flip: n_def)
  moreover have "?col ss = [] \<longleftrightarrow> ss = []" for ss by (simp add: strip)
  moreover have "(if n \<noteq> [] then stoi n else Ok (-1)) = Ok (cl_setNo l)"
    using stoi_to_string [OF ok(1)] by (simp add: n_def)
  moreover have "(if ?col ss \<noteq> [] then parseServers (?col ss) else []) = ss" if "servers_ok ss" for ss
    using parseServers_show [OF that] by (simp add: strip)
  ultimately show ?thesis
    using parseTransaction_show [OF ok(2)] ok(3,4) by (intro parse_columns)
qed

theorem parseCSVLine_show_witness:
  "parseCSVLine (stripLineEndings
     (show_line \<lparr>cl_setNo = 2, cl_transaction = \<lparr>t_id = -1, t_sender = ''F'', t_receiver = ''B'', t_amount = 3\<rparr>,
        cl_aliveServers = [''S1'', ''S2''], cl_byzantineServers = []\<rparr>)) =
   Inr \<lparr>cl_setNo = 2, cl_transaction = \<lparr>t_id = -1, t_sender = ''F'', t_receiver = ''B'', t_amount = 3\<rparr>,
        cl_aliveServers = [''S1'', ''S2''], cl_byzantineServers = []\<rparr>"
  by (rule parseCSVLine_show) code_simp

section \<open>Reading a file\<close>

text \<open>The lines of a transaction set: the first carries its number and servers, the others only a
  transaction.\<close>

definition row :: "Transaction \<Rightarrow> CSVLine" where
  "row t = \<lparr>cl_setNo = -1, cl_transaction = t, cl_aliveServers = [], cl_byzantineServers = []\<rparr>"

definition first_row :: "TransactionSet \<Rightarrow> CSVLine" where
  "first_row s = \<lparr>cl_setNo = ts_setNo s, cl_transaction = hd (ts_transactions s),
     cl_aliveServers = ts_aliveServers s, cl_byzantineServers = ts_byzantineServers s\<rparr>"

definition show_rows :: "TransactionSet \<Rightarrow> string list" where
  "show_rows s = map (\<lambda>t. show_line (row t)) (tl (ts_transactions s))"

definition show_set :: "TransactionSet \<Rightarrow> string list" where
  "show_set s = show_line (first_row s) # show_rows s"

definition set_ok :: "TransactionSet \<Rightarrow> bool" where
  "set_ok s \<longleftrightarrow> ts_transactions s \<noteq> [] \<and> list_all transaction_ok (ts_transactions s) \<and>
     servers_ok (ts_aliveServers s) \<and> servers_ok (ts_byzantineServers s)"

text \<open>A file of the sets number \<open>n + 1\<close>, \<open>n + 2\<close>, ...\<close>

fun numbered :: "int \<Rightarrow> TransactionSet list \<Rightarrow> bool" where
  "numbered n [] \<longleftrightarrow> n < int32_max"
| "numbered n (s # ss) \<longleftrightarrow> ts_setNo s = n + 1 \<and> n < int32_max \<and> set_ok s \<and> numbered (n + 1) ss"

text \<open>Asking for sets until there is none, at most \<open>k\<close> times.\<close>

primrec read_sets :: "nat \<Rightarrow> TransactionSet \<Rightarrow> CSVReader \<Rightarrow> fault + TransactionSet list" where
  "read_sets 0 t r = Ok []"
| "read_sets (Suc k) t r =
     (let (n, t', r') = readNextSet t r
      in ebind n (\<lambda>n. if n = 0 then Ok [] else ebind (read_sets k t' r') (\<lambda>ts. Ok (t' # ts))))"

lemma row_line: "transaction_ok t \<Longrightarrow> parseCSVLine (stripLineEndings (show_line (row t))) = Inr (row t)"
  by (rule parseCSVLine_show) (simp add: line_ok_def row_def servers_ok_def)

lemma first_line:
  "set_ok s \<Longrightarrow> in_int32 (ts_setNo s) \<Longrightarrow>
     parseCSVLine (stripLineEndings (show_line (first_row s))) = Inr (first_row s)"
  by (rule parseCSVLine_show) (auto simp: line_ok_def first_row_def set_ok_def list_all_iff)

text \<open>Rows go to the current set until the first row of the next one.\<close>

lemma read_rows:
  assumes "list_all transaction_ok ts" and "0 \<le> n" and "n < int32_max"
  shows "read_lines n (map (\<lambda>t. show_line (row t)) ts @ rest) cur nxt =
    read_lines n rest (cur\<lparr>ts_transactions := ts_transactions cur @ ts\<rparr>) nxt"
  using assms(1)
proof (induction ts arbitrary: cur)
  case (Cons t ts)
  have "read_lines n (show_line (row t) # map (\<lambda>t. show_line (row t)) ts @ rest) cur nxt =
      read_lines n (map (\<lambda>t. show_line (row t)) ts @ rest) (push_transaction t cur) nxt"
    using Cons.prems assms(2,3) row_line [of t] by (simp add: row_def int32_max_def iadd_def cint_def)
  with Cons show ?case by (simp add: push_transaction_def)
qed simp

lemma read_first:
  assumes "set_ok s" and "ts_setNo s = n + 1" and "0 \<le> n" and "n < int32_max"
  shows "read_lines n (show_line (first_row s) # rest) cur nxt = (None, rest, cur, push_first (first_row s) nxt)"
  using first_line [OF assms(1)] assms(2-4) by (simp add: first_row_def int32_max_def iadd_def cint_def)

lemma set_eqI:
  "ts_setNo s = n \<Longrightarrow> ts_transactions s = ts \<Longrightarrow> ts_aliveServers s = as \<Longrightarrow> ts_byzantineServers s = bs \<Longrightarrow>
     s = \<lparr>ts_setNo = n, ts_transactions = ts, ts_aliveServers = as, ts_byzantineServers = bs\<rparr>"
  by simp

text \<open>The reader when set \<open>n\<close> has been returned and the sets \<open>ss\<close> are to come: the first row of the
  next set is in \<open>cr_next\<close>.\<close>

definition waiting :: "int \<Rightarrow> TransactionSet list \<Rightarrow> CSVReader \<Rightarrow> bool" where
  "waiting n ss r \<longleftrightarrow> cr_currentSetNo r = n \<and>
     (case ss of
        [] \<Rightarrow> cr_file r = [] \<and> ts_transactions (cr_next r) = []
      | s # rest \<Rightarrow> cr_file r = show_rows s @ concat (map show_set rest) \<and>
          ts_transactions (cr_next r) = [hd (ts_transactions s)] \<and>
          ts_aliveServers (cr_next r) = ts_aliveServers s \<and> ts_byzantineServers (cr_next r) = ts_byzantineServers s)"

text \<open>The rest of a set, up to the first row of the next one.\<close>

lemma read_tail:
  assumes s: "set_ok s" and rest: "numbered m ss" and m: "0 \<le> m" and nxt: "ts_transactions nxt = []"
  shows "\<exists>rows nxt'. read_lines m (show_rows s @ concat (map show_set ss)) cur nxt =
      (None, rows, cur\<lparr>ts_transactions := ts_transactions cur @ tl (ts_transactions s)\<rparr>, nxt') \<and>
    (\<forall>cur'. waiting m ss \<lparr>cr_file = rows, cr_currentSetNo = m, cr_current = cur', cr_next = nxt'\<rparr>)"
proof -
  define full where "full = cur\<lparr>ts_transactions := ts_transactions cur @ tl (ts_transactions s)\<rparr>"
  have n: "m < int32_max" using rest by (cases ss) auto
  have "list_all transaction_ok (tl (ts_transactions s))"
    using s by (cases "ts_transactions s") (auto simp: set_ok_def)
  then have skip: "read_lines m (show_rows s @ concat (map show_set ss)) cur nxt =
      read_lines m (concat (map show_set ss)) full nxt"
    using read_rows [of "tl (ts_transactions s)" m] m n by (simp add: show_rows_def full_def)
  show ?thesis
  proof (cases ss)
    case Nil
    then show ?thesis unfolding skip by (simp add: waiting_def nxt full_def)
  next
    case (Cons s' ss')
    with rest have s': "set_ok s'" "ts_setNo s' = m + 1" by auto
    have "read_lines m (show_set s' @ concat (map show_set ss')) full nxt =
        (None, show_rows s' @ concat (map show_set ss'), full, push_first (first_row s') nxt)"
      using read_first [OF s'] m n by (simp add: show_set_def)
    then show ?thesis unfolding skip
      by (simp add: Cons waiting_def push_first_def push_transaction_def first_row_def nxt full_def)
  qed
qed

lemma read_waiting:
  assumes "waiting n (s # ss) r" and "0 \<le> n" and "numbered n (s # ss)"
  shows "\<exists>r'. readNextSet t r = (Ok (int (length (ts_transactions s))), s, r') \<and> waiting (n + 1) ss r'"
proof -
  define cur where "cur = (cr_next r)\<lparr>ts_setNo := ts_setNo (cr_current r)\<rparr>"
  define nxt where "nxt = empty_set\<lparr>ts_setNo := ts_setNo (cr_next r)\<rparr>"
  define full where "full = cur\<lparr>ts_transactions := ts_transactions s\<rparr>"
  have s: "set_ok s" "ts_setNo s = n + 1" "n < int32_max" and rest: "numbered (n + 1) ss"
    using assms(3) by auto
  have n: "n + 1 < int32_max" using rest by (cases ss) auto
  have ts: "ts_transactions cur @ tl (ts_transactions s) = ts_transactions s"
    using assms(1) s(1) by (cases "ts_transactions s") (auto simp: cur_def waiting_def set_ok_def)
  obtain rows nxt' where found: "read_lines (n + 1) (show_rows s @ concat (map show_set ss)) cur nxt = (None, rows, full, nxt')"
    and w: "waiting (n + 1) ss \<lparr>cr_file = rows, cr_currentSetNo = n + 1, cr_current = full, cr_next = nxt'\<rparr>"
    using read_tail [OF s(1) rest, of nxt cur] assms(2) by (auto simp: ts full_def nxt_def empty_set_def)
  have out: "full\<lparr>ts_setNo := n + 1\<rparr> = s"
    using assms(1) s(2) by (simp add: full_def cur_def waiting_def)
  have ne: "ts_transactions full = ts_transactions s" "ts_transactions s \<noteq> []"
    using s(1) by (simp_all add: full_def set_ok_def)
  have "cr_currentSetNo r = n" "cr_file r = show_rows s @ concat (map show_set ss)"
    using assms(1) by (simp_all add: waiting_def)
  then have "readNextSet t r = (Ok (int (length (ts_transactions s))), s,
      \<lparr>cr_file = rows, cr_currentSetNo = n + 1, cr_current = full, cr_next = nxt'\<rparr>)"
    using found ne out assms(2) n
    by (simp add: readNextSet_def iadd_def cint_def int32_max_def flip: cur_def nxt_def)
  with w show ?thesis by blast
qed

lemma read_end:
  "waiting n [] r \<Longrightarrow> 0 \<le> n \<Longrightarrow> n < int32_max \<Longrightarrow> \<exists>r'. readNextSet t r = (Ok 0, t, r')"
  by (simp add: readNextSet_def waiting_def iadd_def cint_def int32_max_def)

lemma read_sets_waiting:
  assumes "waiting n ss r" and "0 \<le> n" and "numbered n ss" and "length ss < k"
  shows "read_sets k t r = Ok ss"
  using assms
proof (induction ss arbitrary: n r k t)
  case Nil
  then obtain k' where "k = Suc k'" by (cases k) auto
  with read_end [of n r t] Nil show ?case by auto
next
  case (Cons s ss)
  then obtain k' where k: "k = Suc k'" "length ss < k'" by (cases k) auto
  obtain r' where r: "readNextSet t r = (Ok (int (length (ts_transactions s))), s, r')" "waiting (n + 1) ss r'"
    using read_waiting [OF Cons.prems(1-3)] by blast
  have "ts_transactions s \<noteq> []" using Cons.prems(3) by (simp add: set_ok_def)
  with r k Cons.IH [OF r(2) _ _ k(2)] Cons.prems(2,3) show ?case by simp
qed

text \<open>
  C33: Reading a file that holds the sets 1, 2, ... returns them one by one, each with its
  transactions in order and its servers, and then reports the end; \<open>readNextSet\<close> looks one row ahead
  to see where a set ends, and keeps that row for the next call.
\<close>

theorem read_sets_show:
  assumes "numbered 0 sets" and "length sets < k"
  shows "ebind (new_CSVReader f (Some (concat (map show_set sets)))) (read_sets k t) = Ok sets"
proof (cases sets)
  case Nil
  with assms(2) show ?thesis
    using read_sets_waiting [of 0 "[]" "\<lparr>cr_file = [], cr_currentSetNo = 0, cr_current = empty_set, cr_next = empty_set\<rparr>" k t]
    by (simp add: new_CSVReader_def waiting_def empty_set_def int32_max_def)
next
  case (Cons s ss)
  define r where "r = \<lparr>cr_file = concat (map show_set sets), cr_currentSetNo = 0, cr_current = empty_set, cr_next = empty_set\<rparr>"
  define r0 where "r0 = \<lparr>cr_file = show_rows s @ concat (map show_set ss), cr_currentSetNo = 0, cr_current = empty_set,
     cr_next = push_first (first_row s) empty_set\<rparr>"
  have s: "set_ok s" "ts_setNo s = 1" "numbered 0 (s # ss)" using assms(1) Cons by auto
  have w: "waiting 0 (s # ss) r0"
    by (simp add: waiting_def r0_def push_first_def push_transaction_def first_row_def empty_set_def)
  have "read_lines 1 (cr_file r) empty_set empty_set =
      read_lines 1 (cr_file r0) (push_first (first_row s) empty_set) empty_set"
    using first_line [OF s(1)] s(2) by (simp add: r_def r0_def Cons show_set_def first_row_def)
  moreover have "(push_first (first_row s) empty_set)\<lparr>ts_setNo := 0\<rparr> = push_first (first_row s) empty_set"
    "empty_set\<lparr>ts_setNo := 0\<rparr> = empty_set"
    by (simp_all add: push_first_def push_transaction_def empty_set_def)
  ultimately have same: "readNextSet t r = readNextSet t r0" for t
    by (simp add: readNextSet_def r_def r0_def iadd_def cint_def) (simp add: empty_set_def push_first_def push_transaction_def)
  obtain k' where "k = Suc k'" using assms(2) by (cases k) auto
  then have "read_sets k t r = read_sets k t r0" by (simp add: same)
  moreover have "new_CSVReader f (Some (concat (map show_set sets))) = Ok r"
    by (simp add: new_CSVReader_def r_def)
  ultimately show ?thesis
    using read_sets_waiting [OF w _ s(3), of k t] assms(2) Cons by simp
qed

definition sample_sets :: "TransactionSet list" where
  "sample_sets =
     [\<lparr>ts_setNo = 1, ts_transactions = [\<lparr>t_id = -1, t_sender = ''A'', t_receiver = ''I'', t_amount = 2\<rparr>,
         \<lparr>t_id = -1, t_sender = ''B'', t_receiver = ''E'', t_amount = 6\<rparr>],
       ts_aliveServers = [''S1'', ''S2''], ts_byzantineServers = []\<rparr>,
      \<lparr>ts_setNo = 2, ts_transactions = [\<lparr>t_id = -1, t_sender = ''F'', t_receiver = ''B'', t_amount = 3\<rparr>],
       ts_aliveServers = [''S1'', ''S3''], ts_byzantineServers = [''S4'', ''S6'']\<rparr>]"

theorem read_sets_show_witness:
  "ebind (new_CSVReader ''input.csv'' (Some (concat (map show_set sample_sets)))) (read_sets 3 empty_set) = Ok sample_sets"
  by (rule read_sets_show) code_simp+

section \<open>Rows out of order\<close>

text \<open>
  A row whose set number is neither the current nor the next one, such as the first row of set 3
  after set 1, is taken for another transaction of the current set; its servers are ignored.
\<close>

theorem skipped_set_merged:
  assumes "parseCSVLine (stripLineEndings line) = Inr l" and "cl_setNo l \<noteq> n" and "cl_setNo l \<noteq> n + 1"
    and "in_int32 (n + 1)"
  shows "read_lines n (line # lines) cur nxt =
    read_lines n lines (cur\<lparr>ts_transactions := ts_transactions cur @ [cl_transaction l]\<rparr>) nxt"
  using assms by (simp add: push_transaction_def iadd_def cint_def)

theorem skipped_set_merged_witness:
  "read_lines 1 [show_line \<lparr>cl_setNo = 3, cl_transaction = \<lparr>t_id = -1, t_sender = ''F'', t_receiver = ''B'', t_amount = 3\<rparr>,
       cl_aliveServers = [''S1''], cl_byzantineServers = []\<rparr>] empty_set empty_set =
   (None, [], empty_set\<lparr>ts_transactions := [\<lparr>t_id = -1, t_sender = ''F'', t_receiver = ''B'', t_amount = 3\<rparr>]\<rparr>, empty_set)"
  (is "read_lines 1 [show_line ?l] _ _ = _")
proof -
  have "parseCSVLine (stripLineEndings (show_line ?l)) = Inr ?l" by (rule parseCSVLine_show) code_simp
  from skipped_set_merged [OF this, of 1 "[]" empty_set empty_set] show ?thesis
    by (simp add: empty_set_def)
qed

section \<open>A line that cannot be parsed\<close>

text \<open>
  What a malformed line does to its set. The call that meets it throws; the rows of the set that
  were read before it are lost, since the next call starts from a cleared set, and the rows after it are
  taken for the beginning of the next set, whose servers they run on.
\<close>

theorem malformed_line_splits_set:
  assumes r: "cr_currentSetNo r = n" "cr_file r =
      map (\<lambda>t. show_line (row t)) ts @ line # map (\<lambda>t. show_line (row t)) us @ show_set s @ concat (map show_set ss)"
    and bad: "parseCSVLine (stripLineEndings line) = Inl f"
    and ok: "list_all transaction_ok ts" "list_all transaction_ok us"
    and n: "0 \<le> n" "numbered (n + 1) (s # ss)"
  shows "\<exists>r' r''. readNextSet t r = (Inl f, t, r') \<and>
    readNextSet t r' = (Ok (int (length us + length (ts_transactions s))),
      s\<lparr>ts_transactions := us @ ts_transactions s\<rparr>, r'') \<and> waiting (n + 2) ss r''"
proof -
  define cur where "cur = (cr_next r)\<lparr>ts_setNo := ts_setNo (cr_current r)\<rparr>"
  define nxt where "nxt = empty_set\<lparr>ts_setNo := ts_setNo (cr_next r)\<rparr>"
  define cur1 where "cur1 = cur\<lparr>ts_transactions := ts_transactions cur @ ts\<rparr>"
  define tail where "tail = map (\<lambda>t. show_line (row t)) us @ show_set s @ concat (map show_set ss)"
  define r' where "r' = \<lparr>cr_file = tail, cr_currentSetNo = n + 1, cr_current = cur1, cr_next = nxt\<rparr>"
  have s: "set_ok s" "ts_setNo s = n + 2" and rest: "numbered (n + 2) ss"
    using n(2) by (auto simp: add.commute)
  have lt: "n + 2 < int32_max" using rest by (cases ss) auto
  have "read_lines (n + 1) (cr_file r) cur nxt = (Some f, tail, cur1, nxt)"
    using read_rows [OF ok(1), of "n + 1" "line # tail" cur nxt] n(1) lt bad
    by (simp add: r(2) tail_def cur1_def)
  then have one: "readNextSet t r = (Inl f, t, r')"
    using n(1) lt by (simp add: readNextSet_def r(1) iadd_def cint_def int32_max_def r'_def flip: cur_def nxt_def)
  define e where "e = nxt\<lparr>ts_setNo := ts_setNo cur1\<rparr>"
  define nxt1 where "nxt1 = empty_set\<lparr>ts_setNo := ts_setNo nxt\<rparr>"
  define cur2 where "cur2 = push_first (first_row s) (e\<lparr>ts_transactions := us\<rparr>)"
  obtain x xs where x: "ts_transactions s = x # xs" using s(1) by (cases "ts_transactions s") (auto simp: set_ok_def)
  have e: "ts_transactions e = []" by (simp add: e_def nxt_def empty_set_def)
  have "read_lines (n + 2) tail e nxt1 = read_lines (n + 2) (show_rows s @ concat (map show_set ss)) cur2 nxt1"
    using read_rows [OF ok(2), of "n + 2" _ e nxt1] n(1) lt first_line [OF s(1)] s(2)
    by (simp add: tail_def show_set_def e cur2_def first_row_def int32_max_def)
  then obtain rows nxt2 where full: "read_lines (n + 2) tail e nxt1 =
      (None, rows, cur2\<lparr>ts_transactions := us @ ts_transactions s\<rparr>, nxt2)"
    and w: "waiting (n + 2) ss \<lparr>cr_file = rows, cr_currentSetNo = n + 2,
        cr_current = cur2\<lparr>ts_transactions := us @ ts_transactions s\<rparr>, cr_next = nxt2\<rparr>"
    using read_tail [OF s(1) rest, of nxt1 cur2] n(1)
    by (auto simp: nxt1_def empty_set_def cur2_def push_first_def push_transaction_def first_row_def x)
  have "cur2\<lparr>ts_transactions := us @ ts_transactions s, ts_setNo := n + 2\<rparr> = s\<lparr>ts_transactions := us @ ts_transactions s\<rparr>"
    using s(2) by (cases s) (simp add: cur2_def push_first_def push_transaction_def first_row_def e_def nxt_def empty_set_def)
  then have "readNextSet t r' = (Ok (int (length us + length (ts_transactions s))), s\<lparr>ts_transactions := us @ ts_transactions s\<rparr>,
      \<lparr>cr_file = rows, cr_currentSetNo = n + 2, cr_current = cur2\<lparr>ts_transactions := us @ ts_transactions s\<rparr>, cr_next = nxt2\<rparr>)"
    using full n(1) lt x
    by (simp add: readNextSet_def r'_def iadd_def cint_def int32_max_def add.commute [of 2 n] flip: e_def nxt1_def)
  with one w show ?thesis by blast
qed

end
