(* ===== verification/Component.thy ===== *)
theory Component
  imports Prelude
begin

text \<open>
  Runs of a component that reacts to events: a set of initial states and a handler. The locale states
  what it takes for a property of the events so far and the state to hold after every run; the client,
  the process table and the request objects are its instances.
\<close>

inductive run_of :: "('s \<Rightarrow> bool) \<Rightarrow> ('e \<Rightarrow> 's \<Rightarrow> 's \<Rightarrow> bool) \<Rightarrow> 'e list \<Rightarrow> 's \<Rightarrow> bool"
  for init handler where
  start: "init s \<Longrightarrow> run_of init handler [] s"
| step: "run_of init handler es s \<Longrightarrow> handler e s t \<Longrightarrow> run_of init handler (es @ [e]) t"

locale component =
  fixes init :: "'s \<Rightarrow> bool"
    and handler :: "'e \<Rightarrow> 's \<Rightarrow> 's \<Rightarrow> bool"
    and inv :: "'e list \<Rightarrow> 's \<Rightarrow> bool"
  assumes inv_init: "init s \<Longrightarrow> inv [] s"
    and inv_step: "inv es s \<Longrightarrow> handler e s t \<Longrightarrow> inv (es @ [e]) t"
begin

lemma run_inv: "run_of init handler es s \<Longrightarrow> inv es s"
  by (induction rule: run_of.induct) (auto intro: inv_init inv_step)

text \<open>A property of two successive states follows from the invariant at the first.\<close>

lemma run_step:
  assumes "run_of init handler es s" and "handler e s t"
  shows "inv es s" and "inv (es @ [e]) t" and "run_of init handler (es @ [e]) t"
proof -
  show "inv es s" by (rule run_inv [OF assms(1)])
  show r: "run_of init handler (es @ [e]) t" by (rule run_of.step [of init handler, OF assms])
  show "inv (es @ [e]) t" by (rule run_inv [OF r])
qed

end

end
