(* ===== verification/Client.thy ===== *)
theory Client
  imports Sample Csv Component
begin

text \<open>
  The client process (\<open>client/pbft_client.cc\<close>): a queue of transfers of which the first is in
  progress, the replies collected for it, and the timers after which it is sent to every server.
\<close>

section \<open>Data\<close>

text \<open>\<open>pbft::Transaction\<close> and \<open>pbft::Transactions\<close>.\<close>

record TransactionMsg =
  tx_sender :: string
  tx_receiver :: string
  tx_amount :: int

record TransferInfo =
  ti_t :: Transaction
  ti_timestamp :: int
  ti_successes :: "int set"
  ti_failures :: "int set"
  ti_startTime :: int

text \<open>A pending timer has the fields of the transfer that its closure reads, and its delay. Calls are
  the \<open>Transfer\<close> calls made, each with the index of its stub; \<open>pc_out\<close> are the lines printed.\<close>

datatype client_timer = TransferTimer Transaction int int

record client =
  pc_clientId :: int
  pc_clientName :: string
  pc_f :: int
  pc_currentView :: int
  pc_clusterSize :: int
  pc_rpcTimeoutSeconds :: int
  pc_transferTimeoutSeconds :: int
  pc_transfers :: "TransferInfo list"
  pc_transferTimers :: "client_timer list"
  pc_transactionsIssued :: int
  pc_transactionsProcessed :: int
  pc_totalTimeTaken :: int
  pc_calls :: "(int \<times> Message) list"
  pc_out :: "string list"

definition Transaction_toString :: "Transaction \<Rightarrow> string" where
  "Transaction_toString t = ''{'' @ to_string (t_id t) @ '','' @ t_sender t @ '','' @ t_receiver t @ '','' @
     to_string (t_amount t) @ ''}''"

section \<open>Operations\<close>

definition PbftClientImpl :: "int \<Rightarrow> string \<Rightarrow> client" where
  "PbftClientImpl i name =
     \<lparr>pc_clientId = i, pc_clientName = name, pc_f = 2, pc_currentView = 1, pc_clusterSize = 7,
      pc_rpcTimeoutSeconds = 1, pc_transferTimeoutSeconds = 10, pc_transfers = [], pc_transferTimers = [],
      pc_transactionsIssued = 0, pc_transactionsProcessed = 0, pc_totalTimeTaken = 0, pc_calls = [], pc_out = []\<rparr>"

definition client_getLeaderId :: "client \<Rightarrow> int" where
  "client_getLeaderId c = pc_currentView c smod pc_clusterSize c"

definition setTransferTimer :: "TransferInfo \<Rightarrow> int \<Rightarrow> client \<Rightarrow> client" where
  "setTransferTimer info timeoutSeconds c =
     c\<lparr>pc_transferTimers := pc_transferTimers c @ [TransferTimer (ti_t info) (ti_timestamp info) timeoutSeconds]\<rparr>"

text \<open>The request that \<open>doTransfers\<close> and \<open>transferBroadcast\<close> build and sign.\<close>

definition transfer_request :: "env \<Rightarrow> client \<Rightarrow> TransferInfo \<Rightarrow> Message" where
  "transfer_request E c info =
     (let tdata = \<lparr>td_sender = t_sender (ti_t info), td_receiver = t_receiver (ti_t info),
                   td_amount = t_amount (ti_t info), td_timestamp = ti_timestamp info\<rparr>
      in \<lparr>ms_data = tdata,
          ms_signature = \<lparr>sg_sig = signECDSA E (ser_td E tdata) (clientPrECDSAKeyPath (pc_clientId c)),
                          sg_server_id = pc_clientId c\<rparr>\<rparr>)"

definition client_send :: "int \<Rightarrow> Message \<Rightarrow> client \<Rightarrow> client" where
  "client_send j m c = c\<lparr>pc_calls := pc_calls c @ [(j, m)]\<rparr>"

definition doTransfers :: "env \<Rightarrow> client \<Rightarrow> fault + client" where
  "doTransfers E c =
     (case pc_transfers c of
        [] \<Rightarrow> Ok c
      | info # rest \<Rightarrow>
          let request = transfer_request E c info;
              c1 = setTransferTimer info (pc_transferTimeoutSeconds c) c;
              c2 = c1\<lparr>pc_transfers := info\<lparr>ti_startTime := env_now E\<rparr> # rest\<rparr>
          in ebind (serverStub (client_getLeaderId c)) (\<lambda>j. Ok (client_send j request c2)))"

definition transferBroadcast :: "env \<Rightarrow> client \<Rightarrow> fault + client" where
  "transferBroadcast E c =
     (case pc_transfers c of
        [] \<Rightarrow> Fault Null_deref
      | info # rest \<Rightarrow>
          Ok (setTransferTimer info (pc_transferTimeoutSeconds c)
                (fold (\<lambda>j. client_send j (transfer_request E c info)) [0..num_servers - 1] c)))"

text \<open>\<open>endTime\<close> is the current time; \<open>totalTimeTaken\<close>, a \<open>double\<close>, holds a whole number of
  milliseconds. A transfer that three replicas refuse is reported after the next one is sent.\<close>

definition client_print :: "string \<Rightarrow> client \<Rightarrow> client" where
  "client_print line c = c\<lparr>pc_out := pc_out c @ [line]\<rparr>"

definition failed_text :: "TransactionData \<Rightarrow> string" where
  "failed_text t = ''Failed to process transaction ('' @ td_sender t @ '', '' @ td_receiver t @ '', '' @
     to_string (td_amount t) @ '')''"

definition processNotify :: "env \<Rightarrow> Response \<Rightarrow> client \<Rightarrow> fault + client" where
  "processNotify E request c0 =
     (let replicaId = sg_server_id (rs_signature request);
          validSignature = verifyECDSA E (ser_rd E (rs_data request)) (sg_sig (rs_signature request))
                             (serverPbECDSAKeyPath replicaId)
      in if \<not> validSignature then Ok c0
         else
           let timestamp = td_timestamp (rd_tdata (rs_data request));
               c = c0\<lparr>pc_currentView := max (pc_currentView c0) (rd_view_num (rs_data request))\<rparr>
           in case pc_transfers c of
                [] \<Rightarrow> Ok c
              | info0 # rest \<Rightarrow>
                  if ti_timestamp info0 = timestamp then
                    let info = (if rd_ack (rs_data request)
                                then info0\<lparr>ti_successes := insert replicaId (ti_successes info0)\<rparr>
                                else info0\<lparr>ti_failures := insert replicaId (ti_failures info0)\<rparr>)
                    in if int (card (ti_successes info)) \<ge> pc_f c + 1 \<or> int (card (ti_failures info)) \<ge> pc_f c + 1
                       then ebind (iadd (pc_transactionsProcessed c) 1) (\<lambda>n.
                            ebind (doTransfers E (c\<lparr>pc_transfers := rest, pc_transactionsProcessed := n,
                                pc_totalTimeTaken := pc_totalTimeTaken c + millis (env_now E - ti_startTime info)\<rparr>)) (\<lambda>d.
                              Ok (if int (card (ti_failures info)) \<ge> pc_f c + 1
                                  then client_print (failed_text (rd_tdata (rs_data request))) d else d)))
                       else Ok (c\<lparr>pc_transfers := info # rest\<rparr>)
                  else Ok c)"

text \<open>The loop of \<open>processProcess\<close>: \<open>clock i\<close> is the time read for the \<open>i\<close>-th transaction.\<close>

primrec push_transfers :: "(int \<Rightarrow> int) \<Rightarrow> int \<Rightarrow> TransactionMsg list \<Rightarrow> client \<Rightarrow> client" where
  "push_transfers clock i [] c = c"
| "push_transfers clock i (t # ts) c =
     push_transfers clock (i + 1) ts
       (if tx_sender t \<noteq> pc_clientName c then c
        else c\<lparr>pc_transfers := pc_transfers c @
          [\<lparr>ti_t = \<lparr>t_id = i, t_sender = tx_sender t, t_receiver = tx_receiver t, t_amount = tx_amount t\<rparr>,
            ti_timestamp = clock i, ti_successes = {}, ti_failures = {}, ti_startTime = 0\<rparr>]\<rparr>)"

definition processProcess :: "env \<Rightarrow> (int \<Rightarrow> int) \<Rightarrow> TransactionMsg list \<Rightarrow> client \<Rightarrow> fault + client" where
  "processProcess E clock transactions c = doTransfers E (push_transfers clock 0 transactions c)"

text \<open>What a timer's closure does when the delay is over.\<close>

definition fire_TransferTimer :: "env \<Rightarrow> client_timer \<Rightarrow> client \<Rightarrow> fault + client" where
  "fire_TransferTimer E x c =
     (case x of TransferTimer t timestamp timeoutSeconds \<Rightarrow>
        (case pc_transfers c of
           [] \<Rightarrow> Ok c
         | front # rest \<Rightarrow>
             if Transaction_toString (ti_t front) = Transaction_toString t \<and> ti_timestamp front = timestamp
             then transferBroadcast E c else Ok c))"

section \<open>Runs\<close>

text \<open>A timer runs out once.\<close>

datatype client_event = Notify Response | Process "int \<Rightarrow> int" "TransactionMsg list" | Expire nat

definition nth_removed :: "nat \<Rightarrow> 'a list \<Rightarrow> 'a list" where
  "nth_removed k xs = take k xs @ drop (Suc k) xs"

fun client_handle :: "env \<Rightarrow> client_event \<Rightarrow> client \<Rightarrow> fault + client" where
  "client_handle E (Notify r) c = processNotify E r c"
| "client_handle E (Process clock ts) c = processProcess E clock ts c"
| "client_handle E (Expire k) c =
     (if k < length (pc_transferTimers c)
      then fire_TransferTimer E (pc_transferTimers c ! k)
             (c\<lparr>pc_transferTimers := nth_removed k (pc_transferTimers c)\<rparr>)
      else Ok c)"

definition client_init :: "int \<Rightarrow> string \<Rightarrow> client \<Rightarrow> bool" where
  "client_init i name c \<longleftrightarrow> c = PbftClientImpl i name"

definition client_step :: "env \<Rightarrow> client_event \<Rightarrow> client \<Rightarrow> client \<Rightarrow> bool" where
  "client_step E ev c d \<longleftrightarrow> (\<exists>now. client_handle (E\<lparr>env_now := now\<rparr>) ev c = Inr d)"

abbreviation client_run :: "env \<Rightarrow> int \<Rightarrow> string \<Rightarrow> client_event list \<Rightarrow> client \<Rightarrow> bool" where
  "client_run E i name \<equiv> run_of (client_init i name) (client_step E)"

section \<open>The invariant\<close>

text \<open>The replies received whose signature is the replica's, for a transfer and an answer.\<close>

definition valid_reply :: "env \<Rightarrow> Response \<Rightarrow> bool" where
  "valid_reply E r \<longleftrightarrow> verifyECDSA E (ser_rd E (rs_data r)) (sg_sig (rs_signature r))
     (serverPbECDSAKeyPath (sg_server_id (rs_signature r)))"

definition repliers :: "env \<Rightarrow> client_event list \<Rightarrow> int \<Rightarrow> bool \<Rightarrow> int set" where
  "repliers E evs timestamp ack = {sg_server_id (rs_signature r) | r. Notify r \<in> set evs \<and> valid_reply E r \<and>
     td_timestamp (rd_tdata (rs_data r)) = timestamp \<and> rd_ack (rs_data r) = ack}"

definition transfer_ok :: "env \<Rightarrow> client_event list \<Rightarrow> TransferInfo \<Rightarrow> bool" where
  "transfer_ok E evs info \<longleftrightarrow> finite (ti_successes info) \<and> finite (ti_failures info) \<and>
     ti_successes info \<subseteq> repliers E evs (ti_timestamp info) True \<and>
     ti_failures info \<subseteq> repliers E evs (ti_timestamp info) False \<and>
     card (ti_successes info) < 3 \<and> card (ti_failures info) < 3"

text \<open>The transfers that the events asked for, in order, as the pairs of transaction and timestamp.\<close>

primrec own_transfers :: "string \<Rightarrow> (int \<Rightarrow> int) \<Rightarrow> int \<Rightarrow> TransactionMsg list \<Rightarrow> (Transaction \<times> int) list" where
  "own_transfers name clock i [] = []"
| "own_transfers name clock i (t # ts) =
     (if tx_sender t \<noteq> name then []
      else [(\<lparr>t_id = i, t_sender = tx_sender t, t_receiver = tx_receiver t, t_amount = tx_amount t\<rparr>, clock i)]) @
     own_transfers name clock (i + 1) ts"

fun asked :: "string \<Rightarrow> client_event \<Rightarrow> (Transaction \<times> int) list" where
  "asked name (Process clock ts) = own_transfers name clock 0 ts"
| "asked name ev = []"

definition issued :: "string \<Rightarrow> client_event list \<Rightarrow> (Transaction \<times> int) list" where
  "issued name evs = concat (map (asked name) evs)"

definition transfer_key :: "TransferInfo \<Rightarrow> Transaction \<times> int" where
  "transfer_key info = (ti_t info, ti_timestamp info)"

definition armed :: "client \<Rightarrow> bool" where
  "armed c \<longleftrightarrow> (\<forall>info rest. pc_transfers c = info # rest \<longrightarrow>
     (\<exists>n. TransferTimer (ti_t info) (ti_timestamp info) n \<in> set (pc_transferTimers c)))"

definition client_inv :: "env \<Rightarrow> int \<Rightarrow> string \<Rightarrow> client_event list \<Rightarrow> client \<Rightarrow> bool" where
  "client_inv E i name evs c \<longleftrightarrow>
     pc_clientId c = i \<and> pc_clientName c = name \<and> pc_f c = 2 \<and> pc_clusterSize c = 7 \<and>
     1 \<le> pc_currentView c \<and> 0 \<le> pc_transactionsProcessed c \<and>
     list_all (transfer_ok E evs) (pc_transfers c) \<and>
     nat (pc_transactionsProcessed c) \<le> length (issued name evs) \<and>
     map transfer_key (pc_transfers c) = drop (nat (pc_transactionsProcessed c)) (issued name evs) \<and>
     armed c"


lemma valid_reply_now [simp]: "valid_reply (E\<lparr>env_now := now\<rparr>) r = valid_reply E r"
  by (simp add: valid_reply_def verifyECDSA_def split: option.split)

lemma transfer_request_now [simp]: "transfer_request (E\<lparr>env_now := now\<rparr>) c info = transfer_request E c info"
  by (simp add: transfer_request_def signECDSA_def Let_def split: option.split)

lemma repliers_mono: "set evs \<subseteq> set evs' \<Longrightarrow> repliers E evs ts a \<subseteq> repliers E evs' ts a"
  unfolding repliers_def by blast

lemma transfer_ok_mono: "set evs \<subseteq> set evs' \<Longrightarrow> transfer_ok E evs info \<Longrightarrow> transfer_ok E evs' info"
  using repliers_mono [of evs evs' E] unfolding transfer_ok_def by blast

lemma transfers_ok_mono:
  "list_all (transfer_ok E evs) xs \<Longrightarrow> list_all (transfer_ok E (evs @ [e])) xs"
  using transfer_ok_mono [of evs "evs @ [e]" E] by (auto simp: list_all_iff)

lemma issued_snoc: "issued name (evs @ [e]) = issued name evs @ asked name e"
  by (simp add: issued_def)

text \<open>What the two operations that send leave alone.\<close>

definition same_client :: "client \<Rightarrow> client \<Rightarrow> bool" where
  "same_client c d \<longleftrightarrow> pc_clientId d = pc_clientId c \<and> pc_clientName d = pc_clientName c \<and> pc_f d = pc_f c \<and>
     pc_clusterSize d = pc_clusterSize c \<and> pc_currentView d = pc_currentView c \<and>
     pc_transactionsProcessed d = pc_transactionsProcessed c"

lemma some_timer [simp]: "\<exists>n. n = a \<or> P n"
  by blast

lemma doTransfers_effect:
  assumes "doTransfers E c = Inr d"
  shows "same_client c d" "armed d" "map transfer_key (pc_transfers d) = map transfer_key (pc_transfers c)"
    "list_all (transfer_ok E' evs) (pc_transfers c) \<Longrightarrow> list_all (transfer_ok E' evs) (pc_transfers d)"
  using assms
  by (auto simp: doTransfers_def same_client_def armed_def client_send_def setTransferTimer_def transfer_key_def
      transfer_ok_def split: list.splits)

lemma fold_client_send: "fold (\<lambda>j. client_send j m) js c = c\<lparr>pc_calls := pc_calls c @ map (\<lambda>j. (j, m)) js\<rparr>"
  by (induction js arbitrary: c) (simp_all add: client_send_def)

lemma transferBroadcast_effect:
  assumes "transferBroadcast E c = Inr d"
  shows "same_client c d" "armed d" "pc_transfers d = pc_transfers c"
  using assms
  by (auto simp: transferBroadcast_def same_client_def armed_def fold_client_send setTransferTimer_def
      split: list.splits)

lemma push_transfers_effect:
  "\<exists>new. push_transfers clock i ts c = c\<lparr>pc_transfers := pc_transfers c @ new\<rparr> \<and>
     map transfer_key new = own_transfers (pc_clientName c) clock i ts \<and> list_all (transfer_ok E evs) new"
proof (induction ts arbitrary: i c)
  case Nil
  show ?case by (rule exI [of _ "[]"]) simp
next
  case (Cons t ts)
  define info where "info = \<lparr>ti_t = \<lparr>t_id = i, t_sender = tx_sender t, t_receiver = tx_receiver t, t_amount = tx_amount t\<rparr>,
            ti_timestamp = clock i, ti_successes = {}, ti_failures = {}, ti_startTime = 0\<rparr>"
  have info: "transfer_ok E evs info" "transfer_key info =
      (\<lparr>t_id = i, t_sender = tx_sender t, t_receiver = tx_receiver t, t_amount = tx_amount t\<rparr>, clock i)"
    by (simp_all add: info_def transfer_ok_def transfer_key_def)
  show ?case
  proof (cases "tx_sender t = pc_clientName c")
    case True
    obtain new where new: "push_transfers clock (i + 1) ts (c\<lparr>pc_transfers := pc_transfers c @ [info]\<rparr>) =
        c\<lparr>pc_transfers := (pc_transfers c @ [info]) @ new\<rparr>"
        "map transfer_key new = own_transfers (pc_clientName c) clock (i + 1) ts" "list_all (transfer_ok E evs) new"
      using Cons [of "i + 1" "c\<lparr>pc_transfers := pc_transfers c @ [info]\<rparr>"] by auto
    show ?thesis
      by (rule exI [of _ "info # new"]) (use new info True in \<open>simp add: info_def [unfolded True, symmetric]\<close>)
  next
    case False
    with Cons [of "i + 1" c] show ?thesis by simp
  qed
qed

lemma doTransfers_print:
  "ebind (doTransfers E c) (\<lambda>d. Ok (d\<lparr>pc_out := pc_out d @ out\<rparr>)) = doTransfers E (c\<lparr>pc_out := pc_out c @ out\<rparr>)"
  by (cases c; cases "pc_transfers c") (simp_all add: doTransfers_def client_send_def setTransferTimer_def Let_def transfer_request_def
      client_getLeaderId_def ebind_assoc split del: ebind_split)

lemma ebind_Ok: "ebind r Ok = r"
  by (cases r) simp_all

text \<open>The three things a reply can do.\<close>

definition counted :: "int \<Rightarrow> bool \<Rightarrow> TransferInfo \<Rightarrow> TransferInfo" where
  "counted replicaId ack info =
     (if ack then info\<lparr>ti_successes := insert replicaId (ti_successes info)\<rparr>
      else info\<lparr>ti_failures := insert replicaId (ti_failures info)\<rparr>)"

definition decided :: "TransferInfo \<Rightarrow> bool" where
  "decided info \<longleftrightarrow> 3 \<le> card (ti_successes info) \<or> 3 \<le> card (ti_failures info)"

definition seen_view :: "Response \<Rightarrow> client \<Rightarrow> client" where
  "seen_view r c = c\<lparr>pc_currentView := max (pc_currentView c) (rd_view_num (rs_data r))\<rparr>"

lemma processNotify_counts:
  assumes "valid_reply E r" and "pc_transfers c = info # rest" and "ti_timestamp info = td_timestamp (rd_tdata (rs_data r))"
    and "pc_f c = 2"
  shows "processNotify E r c = (let info' = counted (sg_server_id (rs_signature r)) (rd_ack (rs_data r)) info
    in if decided info'
       then ebind (iadd (pc_transactionsProcessed c) 1) (\<lambda>n. doTransfers E ((seen_view r c)\<lparr>pc_transfers := rest,
          pc_transactionsProcessed := n, pc_totalTimeTaken := pc_totalTimeTaken c + millis (env_now E - ti_startTime info'),
          pc_out := pc_out c @ (if 3 \<le> card (ti_failures info') then [failed_text (rd_tdata (rs_data r))] else [])\<rparr>))
       else Ok ((seen_view r c)\<lparr>pc_transfers := info' # rest\<rparr>))"
  using assms
  by (cases "3 \<le> card (ti_failures (counted (sg_server_id (rs_signature r)) (rd_ack (rs_data r)) info))")
    (simp_all add: processNotify_def valid_reply_def seen_view_def Let_def counted_def decided_def
      ebind_Ok client_print_def doTransfers_print cong: if_cong split del: ebind_split if_split)

lemma processNotify_cases:
  assumes "processNotify E r c = Inr d" and "pc_f c = 2"
  obtains (invalid) "\<not> valid_reply E r" "d = c"
    | (idle) "valid_reply E r" "pc_transfers c = []" "d = seen_view r c"
    | (other) info rest where "valid_reply E r" "pc_transfers c = info # rest"
        "ti_timestamp info \<noteq> td_timestamp (rd_tdata (rs_data r))" "d = seen_view r c"
    | (vote) info rest where "valid_reply E r" "pc_transfers c = info # rest"
        "ti_timestamp info = td_timestamp (rd_tdata (rs_data r))"
        "\<not> decided (counted (sg_server_id (rs_signature r)) (rd_ack (rs_data r)) info)"
        "d = (seen_view r c)\<lparr>pc_transfers := counted (sg_server_id (rs_signature r)) (rd_ack (rs_data r)) info # rest\<rparr>"
    | (complete) info rest total out where "valid_reply E r" "pc_transfers c = info # rest"
        "ti_timestamp info = td_timestamp (rd_tdata (rs_data r))"
        "decided (counted (sg_server_id (rs_signature r)) (rd_ack (rs_data r)) info)"
        "in_int32 (pc_transactionsProcessed c + 1)"
        "doTransfers E ((seen_view r c)\<lparr>pc_transfers := rest,
           pc_transactionsProcessed := pc_transactionsProcessed c + 1, pc_totalTimeTaken := total, pc_out := out\<rparr>) = Inr d"
proof (cases "valid_reply E r")
  case False
  with assms(1) show thesis by (intro invalid) (simp_all add: processNotify_def valid_reply_def)
next
  case v: True
  show thesis
  proof (cases "pc_transfers c")
    case Nil
    with assms(1) v show thesis by (intro idle) (simp_all add: processNotify_def valid_reply_def seen_view_def Let_def)
  next
    case (Cons info rest)
    show thesis
    proof (cases "ti_timestamp info = td_timestamp (rd_tdata (rs_data r))")
      case False
      with assms(1) v Cons show thesis
        by (intro other [OF v Cons]) (simp_all add: processNotify_def valid_reply_def seen_view_def Let_def)
    next
      case same: True
      let ?info = "counted (sg_server_id (rs_signature r)) (rd_ack (rs_data r)) info"
      note eq = processNotify_counts [OF v Cons same assms(2)]
      show thesis
      proof (cases "decided ?info")
        case True
        with assms(1) eq show thesis unfolding Let_def by (intro complete [OF v Cons same True]) auto
      next
        case False
        with assms(1) eq show thesis unfolding Let_def by (intro vote [OF v Cons same False]) simp
      qed
    qed
  qed
qed

lemma counted_repliers:
  assumes "transfer_ok E evs info" and "Notify r \<in> set evs'" and "set evs \<subseteq> set evs'" and "valid_reply E r"
    and "ti_timestamp info = td_timestamp (rd_tdata (rs_data r))"
    and info': "info' = counted (sg_server_id (rs_signature r)) (rd_ack (rs_data r)) info"
  shows "finite (ti_successes info') \<and> finite (ti_failures info') \<and>
    ti_successes info' \<subseteq> repliers E evs' (ti_timestamp info) True \<and>
    ti_failures info' \<subseteq> repliers E evs' (ti_timestamp info) False"
proof -
  have "sg_server_id (rs_signature r) \<in> repliers E evs' (ti_timestamp info) (rd_ack (rs_data r))"
    unfolding repliers_def mem_Collect_eq by (rule exI [of _ r]) (use assms(2,4,5) in simp)
  moreover have "finite (ti_successes info)" "finite (ti_failures info)"
    "ti_successes info \<subseteq> repliers E evs' (ti_timestamp info) True"
    "ti_failures info \<subseteq> repliers E evs' (ti_timestamp info) False"
    using assms(1) repliers_mono [OF assms(3)] unfolding transfer_ok_def by (blast intro: subset_trans)+
  ultimately show ?thesis
    unfolding info' counted_def by (cases "rd_ack (rs_data r)") simp_all
qed

lemma counted_fields [simp]:
  "ti_timestamp (counted i a info) = ti_timestamp info" "ti_t (counted i a info) = ti_t info"
  "transfer_key (counted i a info) = transfer_key info"
  by (simp_all add: counted_def transfer_key_def)

lemma seen_view_fields [simp]:
  "pc_transfers (seen_view r c) = pc_transfers c" "pc_transferTimers (seen_view r c) = pc_transferTimers c"
  "pc_clientId (seen_view r c) = pc_clientId c" "pc_clientName (seen_view r c) = pc_clientName c"
  "pc_f (seen_view r c) = pc_f c" "pc_clusterSize (seen_view r c) = pc_clusterSize c"
  "pc_transactionsProcessed (seen_view r c) = pc_transactionsProcessed c" "pc_calls (seen_view r c) = pc_calls c"
  "pc_currentView (seen_view r c) = max (pc_currentView c) (rd_view_num (rs_data r))"
  by (simp_all add: seen_view_def)

lemma client_inv_events:
  "client_inv E i name evs c \<Longrightarrow> asked name e = [] \<Longrightarrow> client_inv E i name (evs @ [e]) c"
  using transfers_ok_mono [of E evs _ e] by (auto simp: client_inv_def issued_snoc)

lemma client_inv_notify:
  assumes inv: "client_inv E i name evs c" and "processNotify (E\<lparr>env_now := now\<rparr>) r c = Inr d"
  shows "client_inv E i name (evs @ [Notify r]) d"
proof -
  have f: "pc_f c = 2" using inv by (simp add: client_inv_def)
  have next_inv: "client_inv E i name (evs @ [Notify r]) c" by (rule client_inv_events [OF inv]) simp
  show ?thesis
    using assms(2) f
  proof (cases rule: processNotify_cases)
    case invalid
    with next_inv show ?thesis by simp
  next
    case idle
    with next_inv show ?thesis by (auto simp: client_inv_def armed_def)
  next
    case (other info rest)
    with next_inv show ?thesis by (auto simp: client_inv_def armed_def)
  next
    case (vote info rest)
    have "transfer_ok E evs info" using inv vote by (simp add: client_inv_def)
    from counted_repliers [OF this, of r "evs @ [Notify r]", OF _ _ vote(1) [simplified] vote(3) refl] vote next_inv show ?thesis
      by (auto simp: client_inv_def armed_def transfer_ok_def decided_def)
  next
    case (complete info rest total out)
    have "nat (pc_transactionsProcessed c + 1) = Suc (nat (pc_transactionsProcessed c))"
      using inv by (simp add: client_inv_def nat_add_distrib)
    moreover have "transfer_key info # map transfer_key rest = drop (nat (pc_transactionsProcessed c)) (issued name (evs @ [Notify r]))"
      using next_inv complete(2) by (simp add: client_inv_def)
    then have "map transfer_key rest = drop (Suc (nat (pc_transactionsProcessed c))) (issued name (evs @ [Notify r]))"
      and "Suc (nat (pc_transactionsProcessed c)) \<le> length (issued name (evs @ [Notify r]))"
      by (metis drop_Suc_Cons drop_drop drop_0 list.sel(3) tl_drop drop_Suc, metis drop_all list.distinct(1) not_less_eq_eq)
    ultimately show ?thesis
      using next_inv complete(2) doTransfers_effect [OF complete(6)]
      by (auto simp: client_inv_def same_client_def)
  qed
qed

lemma client_inv_process:
  assumes inv: "client_inv E i name evs c" and "processProcess (E\<lparr>env_now := now\<rparr>) clock ts c = Inr d"
  shows "client_inv E i name (evs @ [Process clock ts]) d"
proof -
  have name: "pc_clientName c = name" using inv by (simp add: client_inv_def)
  obtain new where new: "push_transfers clock 0 ts c = c\<lparr>pc_transfers := pc_transfers c @ new\<rparr>"
     "map transfer_key new = own_transfers name clock 0 ts" "list_all (transfer_ok E (evs @ [Process clock ts])) new"
    using push_transfers_effect [of clock 0 ts c E "evs @ [Process clock ts]"] name by blast
  have d: "doTransfers (E\<lparr>env_now := now\<rparr>) (c\<lparr>pc_transfers := pc_transfers c @ new\<rparr>) = Inr d"
    using assms(2) new(1) by (simp add: processProcess_def)
  show ?thesis
    using inv new doTransfers_effect [OF d] transfers_ok_mono [of E evs "pc_transfers c" "Process clock ts"]
    by (auto simp: client_inv_def same_client_def issued_snoc)
qed

lemma nth_removed_mem:
  assumes "x \<in> set xs" and "x \<noteq> xs ! k"
  shows "x \<in> set (nth_removed k xs)"
proof (cases "k < length xs")
  case True
  then have "set xs = set (nth_removed k xs) \<union> {xs ! k}"
    using arg_cong [OF id_take_nth_drop [OF True], of set] by (auto simp: nth_removed_def)
  with assms show ?thesis by auto
qed (use assms in \<open>simp add: nth_removed_def\<close>)

lemma client_inv_expire:
  assumes inv: "client_inv E i name evs c" and "client_handle (E\<lparr>env_now := now\<rparr>) (Expire k) c = Inr d"
  shows "client_inv E i name (evs @ [Expire k]) d"
proof -
  have next_inv: "client_inv E i name (evs @ [Expire k]) c" by (rule client_inv_events [OF inv]) simp
  show ?thesis
  proof (cases "k < length (pc_transferTimers c)")
    case False
    with assms(2) next_inv show ?thesis by simp
  next
    case True
    define c1 where "c1 = c\<lparr>pc_transferTimers := nth_removed k (pc_transferTimers c)\<rparr>"
    obtain t ts n where x: "pc_transferTimers c ! k = TransferTimer t ts n" by (cases "pc_transferTimers c ! k")
    have fire: "fire_TransferTimer (E\<lparr>env_now := now\<rparr>) (TransferTimer t ts n) c1 = Inr d"
      using assms(2) True x by (simp add: c1_def)
    have c1: "client_inv E i name (evs @ [Expire k]) e" if "armed e" "same_client c e" "pc_transfers e = pc_transfers c" for e
      using next_inv that by (auto simp: client_inv_def same_client_def)
    show ?thesis
    proof (cases "pc_transfers c")
      case Nil
      with fire have "d = c1" by (simp add: fire_TransferTimer_def c1_def)
      with Nil show ?thesis by (intro c1) (simp_all add: c1_def armed_def same_client_def)
    next
      case (Cons front rest)
      show ?thesis
      proof (cases "Transaction_toString (ti_t front) = Transaction_toString t \<and> ti_timestamp front = ts")
        case match: True
        with fire Cons have b: "transferBroadcast (E\<lparr>env_now := now\<rparr>) c1 = Inr d"
          by (simp add: fire_TransferTimer_def c1_def)
        show ?thesis
          using transferBroadcast_effect [OF b] by (intro c1) (simp_all add: c1_def same_client_def)
      next
        case False
        with fire Cons have d: "d = c1" by (auto simp: fire_TransferTimer_def c1_def)
        obtain m where m: "TransferTimer (ti_t front) (ti_timestamp front) m \<in> set (pc_transferTimers c)"
          using inv Cons by (auto simp: client_inv_def armed_def)
        have "TransferTimer (ti_t front) (ti_timestamp front) m \<noteq> pc_transferTimers c ! k" using x False by auto
        from nth_removed_mem [OF m this] Cons show ?thesis
          unfolding d by (intro c1) (auto simp: c1_def armed_def same_client_def)
      qed
    qed
  qed
qed

interpretation client: component "client_init i name" "client_step E" "client_inv E i name"
proof unfold_locales
  show "client_init i name c \<Longrightarrow> client_inv E i name [] c" for c
    by (simp add: client_init_def client_inv_def PbftClientImpl_def armed_def issued_def)
  show "client_inv E i name (evs @ [e]) d" if "client_inv E i name evs c" "client_step E e c d" for evs e c d
    using that client_inv_notify client_inv_process client_inv_expire
    by (cases e) (auto simp: client_step_def simp del: client_handle.simps(3))
qed


text \<open>Running a list of events at one time.\<close>

primrec client_handles :: "env \<Rightarrow> client_event list \<Rightarrow> client \<Rightarrow> fault + client" where
  "client_handles E [] c = Ok c"
| "client_handles E (ev # evs) c = ebind (client_handle E ev c) (client_handles E evs)"

lemma client_step_now: "client_handle E ev c = Inr d \<Longrightarrow> client_step E ev c d"
  unfolding client_step_def by (rule exI [of _ "env_now E"]) simp

lemma client_handles_run:
  "client_handles E es c = Inr d \<Longrightarrow> client_run E i name evs c \<Longrightarrow> client_run E i name (evs @ es) d"
proof (induction es arbitrary: evs c)
  case (Cons e es)
  then obtain b where b: "client_handle E e c = Inr b" "client_handles E es b = Inr d" by auto
  have "client_run E i name (evs @ [e]) b"
    by (rule run_of.step [OF Cons.prems(2) client_step_now [OF b(1)]])
  from Cons.IH [OF b(2) this] show ?case by simp
qed simp

section \<open>The quorum of replies\<close>

text \<open>
  A client counts a transfer as processed only when three replicas have answered it: for
  the first transfer of the queue there is an answer that at least three different replicas sent in
  replies that carry its timestamp and verify under their keys. Three is one more than the number of
  servers that may be faulty.
\<close>

theorem client_quorum:
  assumes "client_run E i name evs c" and "client_step E ev c d"
    and "pc_transactionsProcessed d \<noteq> pc_transactionsProcessed c"
  shows "\<exists>info rest ack Q. pc_transfers c = info # rest \<and>
    Q \<subseteq> repliers E (evs @ [ev]) (ti_timestamp info) ack \<and> 3 \<le> card Q"
proof -
  have inv: "client_inv E i name evs c" by (rule client.run_inv [OF assms(1)])
  then have f: "pc_f c = 2" by (simp add: client_inv_def)
  obtain now where h: "client_handle (E\<lparr>env_now := now\<rparr>) ev c = Inr d"
    using assms(2) by (auto simp: client_step_def)
  show ?thesis
  proof (cases ev)
    case (Notify r)
    then have p: "processNotify (E\<lparr>env_now := now\<rparr>) r c = Inr d" using h by simp
    from p f show ?thesis
    proof (cases rule: processNotify_cases)
      case (complete info rest total out)
      have ok: "transfer_ok E evs info" using inv complete(2) by (simp add: client_inv_def)
      have q: "ti_successes (counted (sg_server_id (rs_signature r)) (rd_ack (rs_data r)) info) \<subseteq>
            repliers E (evs @ [ev]) (ti_timestamp info) True"
          "ti_failures (counted (sg_server_id (rs_signature r)) (rd_ack (rs_data r)) info) \<subseteq>
            repliers E (evs @ [ev]) (ti_timestamp info) False"
        using counted_repliers [OF ok _ _ complete(1) [simplified] complete(3) refl, of "evs @ [ev]"] Notify by auto
      show ?thesis using complete(2,4) q unfolding decided_def by blast
    qed (use assms(3) in simp_all)
  next
    case (Process clock ts)
    obtain new where "push_transfers clock 0 ts c = c\<lparr>pc_transfers := pc_transfers c @ new\<rparr>"
      using push_transfers_effect [of clock 0 ts c E evs] by blast
    with h Process doTransfers_effect(1) assms(3) show ?thesis
      by (fastforce simp: processProcess_def same_client_def)
  next
    case (Expire k)
    with h transferBroadcast_effect(1) assms(3) show ?thesis
      by (fastforce simp: fire_TransferTimer_def same_client_def split: if_splits client_timer.splits list.splits)
  qed
qed

text \<open>A sample: a transfer and the replies of three replicas.\<close>

definition sample_reply :: "int \<Rightarrow> Response" where
  "sample_reply j =
     (let rd = \<lparr>rd_tdata = pay ''A'' ''B'' 4, rd_ack = True, rd_view_num = 1\<rparr>
      in \<lparr>rs_data = rd, rs_signature = \<lparr>sg_sig = signECDSA sample_env (ser_rd sample_env rd) (serverPrECDSAKeyPath j),
                                        sg_server_id = j\<rparr>\<rparr>)"

definition sample_events :: "client_event list" where
  "sample_events = [Process (\<lambda>_. 7) [\<lparr>tx_sender = ''A'', tx_receiver = ''B'', tx_amount = 4\<rparr>],
     Notify (sample_reply 1), Notify (sample_reply 2)]"

lemma sample_client:
  "holds (client_handles sample_env sample_events (PbftClientImpl 0 ''A'')) (\<lambda>c.
     pc_transactionsProcessed c = 0 \<and> length (pc_transfers c) = 1 \<and>
     holds (client_handle sample_env (Notify (sample_reply 3)) c) (\<lambda>d. pc_transactionsProcessed d = 1))"
  by code_simp

lemma sample_client_run:
  obtains c d where "client_run sample_env 0 ''A'' sample_events c" and "length (pc_transfers c) = 1"
    and "client_step sample_env (Notify (sample_reply 3)) c d" and "pc_transactionsProcessed c = 0"
    and "pc_transactionsProcessed d = 1"
proof -
  obtain c d where c: "client_handles sample_env sample_events (PbftClientImpl 0 ''A'') = Inr c"
    and d: "client_handle sample_env (Notify (sample_reply 3)) c = Inr d"
    and n: "length (pc_transfers c) = 1" "pc_transactionsProcessed c = 0" "pc_transactionsProcessed d = 1"
    using sample_client unfolding holds_iff by blast
  have "client_run sample_env 0 ''A'' [] (PbftClientImpl 0 ''A'')"
    by (rule run_of.start) (simp add: client_init_def)
  from client_handles_run [OF c this] client_step_now [OF d] n show ?thesis by (auto intro: that)
qed

theorem client_quorum_witness:
  "\<exists>Q ts ack. Q \<subseteq> repliers sample_env (sample_events @ [Notify (sample_reply 3)]) ts ack \<and> 3 \<le> card Q"
proof (rule sample_client_run)
  fix c d assume r: "client_run sample_env 0 ''A'' sample_events c"
    "client_step sample_env (Notify (sample_reply 3)) c d"
    and n: "pc_transactionsProcessed c = 0" "pc_transactionsProcessed d = 1"
  from client_quorum [OF r] n show ?thesis by auto
qed

section \<open>The queue\<close>

text \<open>
  C29: Transfers are processed one after the other in the order in which they were asked for: at any
  time the queue is what is left of the client's own transactions, as many as were counted as
  processed having been taken from the front; none is lost, repeated or overtaken.
\<close>

theorem transfers_in_order:
  assumes "client_run E i name evs c"
  shows "map transfer_key (pc_transfers c) = drop (nat (pc_transactionsProcessed c)) (issued name evs) \<and>
    0 \<le> pc_transactionsProcessed c \<and> nat (pc_transactionsProcessed c) \<le> length (issued name evs)"
  using client.run_inv [OF assms] by (simp add: client_inv_def)

theorem transfers_in_order_witness:
  "\<exists>c::client. length (pc_transfers c) = 1 \<and> map transfer_key (pc_transfers c) = issued ''A'' sample_events"
proof (rule sample_client_run)
  fix c assume r: "client_run sample_env 0 ''A'' sample_events c" and "length (pc_transfers c) = 1"
    "pc_transactionsProcessed c = 0"
  with transfers_in_order [OF r] show ?thesis by (intro exI [of _ c]) simp
qed

text \<open>
  C30: A transfer that is in progress is never forgotten: there is always a timer for it, and
  when that timer runs out the signed request goes to all seven servers and a new timer is started.
\<close>

theorem pending_transfer_resent:
  assumes "client_run E i name evs c" and "pc_transfers c = info # rest"
  shows "\<exists>k d. k < length (pc_transferTimers c) \<and> client_handle E (Expire k) c = Inr d \<and>
    pc_calls d = pc_calls c @ map (\<lambda>j. (j, transfer_request E c info)) [0, 1, 2, 3, 4, 5, 6] \<and>
    pc_transfers d = pc_transfers c \<and> TransferTimer (ti_t info) (ti_timestamp info) (pc_transferTimeoutSeconds c) \<in> set (pc_transferTimers d)"
proof -
  have "armed c" using client.run_inv [OF assms(1)] by (simp add: client_inv_def)
  then obtain n where "TransferTimer (ti_t info) (ti_timestamp info) n \<in> set (pc_transferTimers c)"
    using assms(2) by (auto simp: armed_def)
  then obtain k where k: "k < length (pc_transferTimers c)" "pc_transferTimers c ! k = TransferTimer (ti_t info) (ti_timestamp info) n"
    by (auto simp: in_set_conv_nth)
  define c1 where "c1 = c\<lparr>pc_transferTimers := nth_removed k (pc_transferTimers c)\<rparr>"
  have req: "transfer_request E c1 info = transfer_request E c info"
    by (simp add: c1_def transfer_request_def)
  have all: "[0..6] = [0, 1, 2, 3, 4, 5, 6::int]" by code_simp
  have "client_handle E (Expire k) c = transferBroadcast E c1"
    using k assms(2) by (simp add: fire_TransferTimer_def c1_def)
  also have "\<dots> = Inr (setTransferTimer info (pc_transferTimeoutSeconds c1)
      (fold (\<lambda>j. client_send j (transfer_request E c1 info)) [0..6] c1))"
    using assms(2) by (simp add: transferBroadcast_def c1_def)
  also have "\<dots> = Inr (setTransferTimer info (pc_transferTimeoutSeconds c)
      (c1\<lparr>pc_calls := pc_calls c @ map (\<lambda>j. (j, transfer_request E c info)) [0, 1, 2, 3, 4, 5, 6]\<rparr>))"
    unfolding all fold_client_send req by (simp add: c1_def)
  finally have h: "client_handle E (Expire k) c = Inr (setTransferTimer info (pc_transferTimeoutSeconds c)
      (c1\<lparr>pc_calls := pc_calls c @ map (\<lambda>j. (j, transfer_request E c info)) [0, 1, 2, 3, 4, 5, 6]\<rparr>))" .
  show ?thesis
  proof (intro exI conjI)
    show "client_handle E (Expire k) c = Inr (setTransferTimer info (pc_transferTimeoutSeconds c)
      (c1\<lparr>pc_calls := pc_calls c @ map (\<lambda>j. (j, transfer_request E c info)) [0, 1, 2, 3, 4, 5, 6]\<rparr>))" by (rule h)
  qed (use k(1) in \<open>simp_all add: setTransferTimer_def c1_def\<close>)
qed

theorem pending_transfer_resent_witness:
  "\<exists>k c d. client_handle sample_env (Expire k) c = Inr d \<and> length (pc_calls d) = length (pc_calls c) + 7"
proof (rule sample_client_run)
  fix c assume r: "client_run sample_env 0 ''A'' sample_events c" and n: "length (pc_transfers c) = 1"
  then obtain info rest where "pc_transfers c = info # rest" by (cases "pc_transfers c") auto
  from pending_transfer_resent [OF r this] obtain k d where
    "client_handle sample_env (Expire k) c = Inr d"
    "pc_calls d = pc_calls c @ map (\<lambda>j. (j, transfer_request sample_env c info)) [0, 1, 2, 3, 4, 5, 6]"
    by blast
  then show ?thesis by (intro exI [of _ k] exI [of _ c] exI [of _ d]) simp
qed

section \<open>The client and the servers\<close>

text \<open>
  A server accepts what a client signs: when the client's private key belongs to the public key
  that servers read for it, every request the client builds passes the servers' check, and it
  carries the transaction and the timestamp that identify it.
\<close>

theorem requests_verify:
  assumes "key_pair E (clientPrECDSAKeyPath (pc_clientId c)) (clientPbECDSAKeyPath (pc_clientId c))"
  shows "verifySignature_Message E (transfer_request E c info) \<and>
    ms_data (transfer_request E c info) = \<lparr>td_sender = t_sender (ti_t info), td_receiver = t_receiver (ti_t info),
       td_amount = t_amount (ti_t info), td_timestamp = ti_timestamp info\<rparr>"
  using verify_sign [OF assms] by (simp add: verifySignature_Message_def transfer_request_def Let_def)

theorem requests_verify_witness:
  "\<exists>info. verifySignature_Message sample_env (transfer_request sample_env (PbftClientImpl 0 ''A'') info)"
proof -
  define info where "info = \<lparr>ti_t = \<lparr>t_id = 0, t_sender = ''A'', t_receiver = ''B'', t_amount = 4\<rparr>, ti_timestamp = 7,
     ti_successes = {}, ti_failures = {}, ti_startTime = 0\<rparr>"
  show ?thesis
    using requests_verify [OF sample_key_pair, of "PbftClientImpl 0 ''A''" info] by blast
qed

text \<open>
  One reply moves the client to another leader. The view in a reply is taken over when the
  reply verifies under the key of the replica that is named in it, whatever request it answers; the
  next transfer is then sent to the leader of that view only. A single faulty replica can thus choose
  where the client turns first.
\<close>

theorem one_reply_moves_view:
  assumes "client_run E i name evs c" and "valid_reply E r" and "pc_transfers c = []"
    and "pc_currentView c \<le> rd_view_num (rs_data r)" and "tx_sender t = name"
  shows "\<exists>d d' m. processNotify E r c = Inr d \<and> processProcess E clock [t] d = Inr d' \<and>
    pc_calls d' = pc_calls c @ [(rd_view_num (rs_data r) mod 7, m)]"
proof -
  let ?v = "rd_view_num (rs_data r)"
  have inv: "pc_clientName c = name" "pc_clusterSize c = 7" "1 \<le> pc_currentView c"
    using client.run_inv [OF assms(1)] by (simp_all add: client_inv_def)
  define d where "d = c\<lparr>pc_currentView := ?v\<rparr>"
  have d: "processNotify E r c = Inr d"
    using assms(2-4) by (simp add: processNotify_def valid_reply_def Let_def d_def max_def)
  have "?v smod 7 = ?v mod 7" using assms(4) inv(3) by (intro smod_nonneg) simp_all
  then have leader: "client_getLeaderId (d\<lparr>pc_transfers := xs\<rparr>) = ?v mod 7" for xs
    using inv(2) by (simp add: client_getLeaderId_def d_def)
  have stub: "serverStub (?v mod 7) = Inr (?v mod 7)"
    by (simp add: serverStub_def num_servers_def)
  have "\<exists>d' m. processProcess E clock [t] d = Inr d' \<and> pc_calls d' = pc_calls c @ [(?v mod 7, m)]"
    using assms(3,5) inv(1) leader
    by (simp add: stub processProcess_def doTransfers_def d_def client_send_def setTransferTimer_def)
  with d show ?thesis by blast
qed

theorem one_reply_moves_view_witness:
  "\<exists>c d d' m. processNotify sample_env (sample_reply 5) c = Inr d \<and>
     processProcess sample_env (\<lambda>_. 7) [\<lparr>tx_sender = ''A'', tx_receiver = ''B'', tx_amount = 4\<rparr>] d = Inr d' \<and>
     pc_calls d' = pc_calls c @ [(1, m)]"
proof -
  have r: "client_run sample_env 0 ''A'' [] (PbftClientImpl 0 ''A'')"
    by (rule run_of.start) (simp add: client_init_def)
  have v: "valid_reply sample_env (sample_reply 5)" by code_simp
  have view: "rd_view_num (rs_data (sample_reply 5)) = 1" by (simp add: sample_reply_def Let_def)
  show ?thesis
    using one_reply_moves_view [OF r v, where clock = "\<lambda>_. 7" and t = "\<lparr>tx_sender = ''A'', tx_receiver = ''B'', tx_amount = 4\<rparr>"] view
    by (fastforce simp: PbftClientImpl_def)
qed

end
