(* ===== verification/Server_Replies.thy ===== *)
theory Server_Replies
  imports Server_Proposals
begin

text \<open>
  What a reply to a client says about the server that sent it. As long as a server is in its first
  view, every answer it gives is the recorded result of an entry that it has executed, for the very
  request that the client had signed. (After a view change an old digest may lead to another
  request's entry, so this is stated for the first view.)
\<close>

section \<open>Answers\<close>

text \<open>An executed entry, by its digest and result, and an answer that it accounts for.\<close>

definition settled :: "srv \<Rightarrow> string \<Rightarrow> bool \<Rightarrow> bool" where
  "settled s digest ack \<longleftrightarrow> (\<exists>e \<in> set (heap s). entry_digest e = digest \<and>
     mi_mstatus e = EXECUTED \<and> mi_result e = ack)"

definition backed :: "env \<Rightarrow> srv \<Rightarrow> int \<times> TransactionData \<times> bool \<Rightarrow> bool" where
  "backed E s x \<longleftrightarrow> (\<exists>m. verifySignature_Message E m \<and> sg_server_id (ms_signature m) = fst x \<and>
     ms_data m = fst (snd x) \<and> settled s (message_digest E m) (snd (snd x)))"

lemma backedI:
  "verifySignature_Message E m \<Longrightarrow> settled s (message_digest E m) ack \<Longrightarrow>
     backed E s (sg_server_id (ms_signature m), ms_data m, ack)"
  unfolding backed_def by (rule exI [of _ m]) simp

lemma backed_at [simp]: "backed (at_time E t j) s x = backed E s x"
  by (simp add: backed_def)

lemma settled_heap: "heap t = heap s \<Longrightarrow> settled t = settled s"
  by (simp add: settled_def fun_eq_iff)

lemma backed_heap: "heap t = heap s \<Longrightarrow> backed E t x = backed E s x"
  by (simp add: backed_def settled_heap [of t s])

abbreviation replies :: "srv \<Rightarrow> (int \<times> TransactionData \<times> bool) set" where
  "replies s \<equiv> set (client_replies (outbox s))"

text \<open>The new answers of a step belong to entries that are executed when it ends.\<close>

definition answers :: "env \<Rightarrow> srv \<Rightarrow> srv \<Rightarrow> bool" where
  "answers E s t \<longleftrightarrow> (\<forall>x \<in> replies t. x \<in> replies s \<or> backed E t x)"

lemma answersI: "(\<And>x. x \<in> replies t \<Longrightarrow> x \<notin> replies s \<Longrightarrow> backed E t x) \<Longrightarrow> answers E s t"
  unfolding answers_def by blast

lemma answersD: "answers E s t \<Longrightarrow> x \<in> replies t \<Longrightarrow> x \<in> replies s \<or> backed E t x"
  unfolding answers_def by blast

lemma answers_refl [simp]: "answers E s s"
  by (simp add: answers_def)

lemma answers_at [simp]: "answers (at_time E t j) u s = answers E u s"
  by (simp add: answers_def)

lemma answers_same: "client_replies (outbox t) = client_replies (outbox s) \<Longrightarrow> answers E s t"
  by (simp add: answers_def)

lemma answers_fields [simp]:
  "answers E s (start_timer x t) = answers E s t"
  "answers E s (t\<lparr>lastCommitted := n\<rparr>) = answers E s t"
proof -
  have "backed E (start_timer x t) = backed E t" "backed E (t\<lparr>lastCommitted := n\<rparr>) = backed E t"
    by (simp_all add: backed_def settled_def start_timer_def fun_eq_iff)
  then show "answers E s (start_timer x t) = answers E s t"
    and "answers E s (t\<lparr>lastCommitted := n\<rparr>) = answers E s t"
    by (simp_all add: answers_def) (simp add: start_timer_def)
qed

text \<open>A send to servers only.\<close>

definition tells :: "srv \<Rightarrow> srv \<Rightarrow> bool" where
  "tells s t \<longleftrightarrow> (\<exists>xs. t = sent xs s \<and> client_replies xs = [])"

lemma tells_refl [simp]: "tells s s"
  unfolding tells_def by (rule exI [of _ "[]"]) simp

lemma tells_trans: "tells s t \<Longrightarrow> tells t u \<Longrightarrow> tells s u"
  by (auto simp: tells_def)

lemma tells_emit: "tells s (emit (ToServer i p) s)"
  unfolding tells_def emit_eq_sent by (rule exI) auto

lemma each_tells:
  assumes "each f is s = Inr s'" and "\<And>i t t'. f i t = Inr t' \<Longrightarrow> tells t t'"
  shows "tells s s'"
  by (rule each_invariant [OF assms(1), where P = "tells s"]) (auto intro: tells_trans assms(2))

lemma to_others_tells:
  assumes "to_others send s = Inr s'" and "\<And>i t t'. send i t = Inr t' \<Longrightarrow> tells t t'"
  shows "tells s s'"
  using assms(1) unfolding to_others_def
  by (rule each_tells) (auto split: if_splits intro: assms(2))

lemma sends_tell:
  "sendRequest r i ty s = Inr t \<Longrightarrow> tells s t"
  "sendRequest_proof pf i ty s = Inr t \<Longrightarrow> tells s t"
  "send_payload p i s = Inr t \<Longrightarrow> tells s t"
  by (auto simp: sendRequest_def sendRequest_proof_def send_payload_def intro!: tells_emit split: if_splits)

lemma broadcasts_tell:
  "sendRequestToAll pf ty s = Inr t \<Longrightarrow> tells s t"
  "sendViewChangeToAll E v s = Inr t \<Longrightarrow> tells s t"
  "sendNewViewToAll E n s = Inr t \<Longrightarrow> tells s t"
  "sendCheckpointToAll E c s = Inr t \<Longrightarrow> tells s t"
  "sendPrePrepareToAll q s = Inr t \<Longrightarrow> tells s t"
  by (auto simp: sendRequestToAll_def sendViewChangeToAll_def sendNewViewToAll_def sendPrePrepareToAll_def
      sendCheckpointToAll_def Let_def elim!: to_others_tells intro: sends_tell)

lemma tells_same: "tells s t \<Longrightarrow> heap t = heap s \<and> client_replies (outbox t) = client_replies (outbox s)"
  by (auto simp: tells_def)

lemma answers_tells: "tells t u \<Longrightarrow> answers E s t \<Longrightarrow> answers E s u"
  using tells_same [of t u] by (simp add: answers_def backed_heap [of u t])

section \<open>Execution\<close>

text \<open>Execution answers for the entries it executes, and leaves executed entries alone.\<close>

definition executes :: "env \<Rightarrow> srv \<Rightarrow> srv \<Rightarrow> bool" where
  "executes E s t \<longleftrightarrow> answers E s t \<and> {e \<in> set (heap s). mi_mstatus e = EXECUTED} \<subseteq> set (heap t)"

lemma executes_refl [simp]: "executes E s s"
  by (simp add: executes_def)

lemma backed_executes: "executes E' s t \<Longrightarrow> backed E s x \<Longrightarrow> backed E t x"
  unfolding executes_def backed_def settled_def by blast

lemma answers_executes: "answers E s t \<Longrightarrow> executes E t u \<Longrightarrow> answers E s u"
proof (rule answersI)
  fix x assume st: "answers E s t" and tu: "executes E t u" and x: "x \<in> replies u" "x \<notin> replies s"
  have "x \<in> replies t \<or> backed E u x" using tu x(1) by (auto simp: executes_def dest: answersD)
  then show "backed E u x" using answersD [OF st] x(2) backed_executes [OF tu] by blast
qed

lemma executes_trans: "executes E s t \<Longrightarrow> executes E t u \<Longrightarrow> executes E s u"
  using answers_executes [of E s t u] unfolding executes_def by blast

lemma executes_entry:
  assumes ex: "execute_entry E seq p (heap s ! p) s = Inr t" and inv: "srv_inv E s" and p: "p < length (heap s)"
    and st: "mi_mstatus (heap s ! p) = COMMITTED"
  shows "executes E s t"
proof -
  have cs: "clusterSize s \<le> 7" using inv by (simp add: srv_inv_def config_ok_def)
  obtain res where h: "heap t = (heap s)[p := (heap s ! p)\<lparr>mi_mstatus := EXECUTED, mi_result := res\<rparr>]"
    and r: "client_replies (outbox t) = client_replies (outbox s) @
           [(sg_server_id (ms_signature (mi_m (heap s ! p))), ms_data (mi_m (heap s ! p)), res)]"
    using execute_entry_effect [OF ex cs] by metis
  let ?e = "(heap s ! p)\<lparr>mi_mstatus := EXECUTED, mi_result := res\<rparr>"
  have ok: "entry_digest (heap s ! p) = message_digest E (mi_m (heap s ! p))"
    "verifySignature_Message E (mi_m (heap s ! p))"
    using srv_inv_entryD [OF inv p] by (auto simp: entry_ok_def entry_digest_def)
  have "?e \<in> set (heap t)" using p by (simp add: h set_update_memI)
  then have "settled t (message_digest E (mi_m (heap s ! p))) res"
    unfolding settled_def by (rule bexI [rotated]) (use ok(1) in \<open>simp add: entry_digest_def\<close>)
  from backedI [OF ok(2) this] have "answers E s t" by (simp add: answers_def r)
  moreover have "e \<in> set (heap t)" if e: "e \<in> set (heap s)" "mi_mstatus e = EXECUTED" for e
  proof -
    obtain q where q: "q < length (heap s)" "heap s ! q = e" using e(1) by (auto simp: in_set_conv_nth)
    then have "heap t ! q = e" using st e(2) by (cases "q = p") (auto simp: h)
    then show ?thesis using q(1) nth_mem [of q "heap t"] by (simp add: h)
  qed
  ultimately show ?thesis by (auto simp: executes_def)
qed

lemma executes_slot:
  assumes ex: "execute_slot E seq s = Inr (t, go)" and inv: "srv_inv E s"
  shows "executes E s t"
proof -
  obtain q where i: "seq - lowWatermark s < int (length (log s))"
    and q: "q = log s ! nat (seq - lowWatermark s)"
    and body: "(case q of None \<Rightarrow> Ok (s, True)
       | Some p \<Rightarrow> ebind (deref s p) (\<lambda>e.
           if mi_mstatus e = COMMITTED then ebind (execute_entry E seq p e s) (\<lambda>t. Ok (t, True))
           else if mi_mstatus e \<noteq> EXECUTED then Ok (s, False) else Ok (s, True))) = Inr (t, go)"
    using ex by (auto simp: execute_slot_def)
  show ?thesis
  proof (cases "\<exists>p. q = Some p \<and> mi_mstatus (heap s ! p) = COMMITTED")
    case False
    with body show ?thesis by (auto split: option.splits if_splits)
  next
    case True
    then obtain p where p: "q = Some p" "mi_mstatus (heap s ! p) = COMMITTED" by blast
    with body have e: "execute_entry E seq p (heap s ! p) s = Inr t" and "p < length (heap s)" by auto
    then show ?thesis using executes_entry [OF e inv _ p(2)] by blast
  qed
qed

lemma executes_from:
  assumes "execute_from E seq s = Inr t" and "srv_inv E s" and "lastExecuted s < seq"
  shows "executes E s t"
  by (rule execute_from_rule [OF assms(1), where I = "\<lambda>n u. executes E s u \<and> srv_inv E u \<and> lastExecuted u < n"])
    (use assms(2,3) in \<open>auto dest: execute_slot_inv intro: executes_trans executes_slot\<close>)

lemma executes_executePending: "executePending E s = Inr t \<Longrightarrow> srv_inv E s \<Longrightarrow> executes E s t"
  by (auto simp: executePending_def dest: executes_from)

section \<open>The handlers of the normal case\<close>

text \<open>Answers together with the invariant that execution needs.\<close>

definition calm :: "env \<Rightarrow> srv \<Rightarrow> srv \<Rightarrow> bool" where
  "calm E s t \<longleftrightarrow> (srv_inv E s \<longrightarrow> srv_inv E t \<and> answers E s t)"

lemma calm_refl [simp]: "calm E s s" by (simp add: calm_def)

lemma calm_fields [simp]:
  "calm E s (start_timer x t) = calm E s t"
  "calm E s (t\<lparr>lastCommitted := n\<rparr>) = calm E s t"
  by (simp_all add: calm_def)

lemma calm_tells: "tells t u \<Longrightarrow> calm E s t \<Longrightarrow> calm E s u"
  unfolding calm_def using answers_tells [of t u E s] by (auto simp: tells_def)

lemma calm_executePending: "executePending E t = Inr u \<Longrightarrow> calm E s t \<Longrightarrow> calm E s u"
  unfolding calm_def using executePending_inv [of E t u E] executes_executePending [of E t u] answers_executes
  by blast

lemma calm_put_entry:
  assumes p: "p < length (heap s)" and pp: "mi_prePrepare e = mi_prePrepare (heap s ! p)"
    and m: "mi_m e = mi_m (heap s ! p)"
    and wf: "votes_wf (mi_prepareProofs (heap s ! p)) \<Longrightarrow> votes_wf (mi_prepareProofs e)"
      "votes_wf (mi_prepareProofs (heap s ! p)) \<Longrightarrow> votes_wf (mi_commitProofs (heap s ! p)) \<Longrightarrow>
           votes_wf (mi_commitProofs e)"
    and st: "mi_mstatus e = EXECUTED \<Longrightarrow> mi_mstatus (heap s ! p) = EXECUTED"
  shows "calm E s (put_entry p e s)"
  using keeps_put_entry [OF p pp m wf st, where E = E] answers_same [of "put_entry p e s" s E]
  by (simp add: calm_def keeps_def)

lemma calm_put_proofs:
  assumes "p < length (heap s)"
  shows "(votes_wf (mi_prepareProofs (heap s ! p)) \<Longrightarrow> votes_wf m) \<Longrightarrow>
      calm E s (put_entry p ((heap s ! p)\<lparr>mi_prepareProofs := m\<rparr>) s)"
    and "(votes_wf (mi_commitProofs (heap s ! p)) \<Longrightarrow> votes_wf m) \<Longrightarrow>
      calm E s (put_entry p ((heap s ! p)\<lparr>mi_commitProofs := m\<rparr>) s)"
    and "(votes_wf (mi_prepareProofs (heap s ! p)) \<Longrightarrow> votes_wf m) \<Longrightarrow> st \<noteq> EXECUTED \<Longrightarrow>
      calm E s (put_entry p ((heap s ! p)\<lparr>mi_prepareProofs := m, mi_mstatus := st\<rparr>) s)"
    and "(votes_wf (mi_commitProofs (heap s ! p)) \<Longrightarrow> votes_wf m) \<Longrightarrow> st \<noteq> EXECUTED \<Longrightarrow>
      calm E s (put_entry p ((heap s ! p)\<lparr>mi_commitProofs := m, mi_mstatus := st\<rparr>) s)"
    and "(votes_wf (mi_prepareProofs (heap s ! p)) \<Longrightarrow> votes_wf m) \<Longrightarrow> st \<noteq> EXECUTED \<Longrightarrow>
      calm E s (put_entry p ((heap s ! p)\<lparr>mi_mstatus := st, mi_commitProofs := m\<rparr>) s)"
  using assms by (auto intro!: calm_put_entry)

lemma calm_handlers:
  "processPrePrepareOk E r s = Inr t \<Longrightarrow> calm E s t"
  "processPrepare E pf s = Inr t \<Longrightarrow> calm E s t"
  "processPrepareOk E r s = Inr t \<Longrightarrow> calm E s t"
  "processCommit E pf s = Inr t \<Longrightarrow> calm E s t"
  "fire_OptimisticTimer E n s = Inr t \<Longrightarrow> calm E s t"
proof -
  show "processPrePrepareOk E r s = Inr t \<Longrightarrow> calm E s t"
    unfolding processPrePrepareOk_def Let_def
    by (auto simp: log_entry_Ok_iff split: if_splits intro!: calm_put_proofs)
  show "processPrepare E pf s = Inr t \<Longrightarrow> calm E s t"
    unfolding processPrepare_def Let_def
    by (auto split: if_splits option.splits dest!: sends_tell(1) elim!: calm_tells
        intro!: calm_put_proofs elim: add_proofs_wf)
  show "processPrepareOk E r s = Inr t \<Longrightarrow> calm E s t"
    unfolding processPrepareOk_def Let_def
    by (auto simp: log_entry_Ok_iff split: if_splits dest!: broadcasts_tell(1)
        elim!: calm_tells calm_executePending intro!: calm_put_proofs)
  show "processCommit E pf s = Inr t \<Longrightarrow> calm E s t"
    unfolding processCommit_def Let_def
    by (auto split: if_splits option.splits elim!: calm_executePending intro!: calm_put_proofs
        elim: add_proofs_wf)
  show "fire_OptimisticTimer E n s = Inr t \<Longrightarrow> calm E s t"
    unfolding fire_OptimisticTimer_def Let_def
    by (auto simp: log_entry_Ok_iff own_votes split: if_splits dest!: broadcasts_tell(1)
        elim!: calm_tells calm_executePending intro!: calm_put_proofs)
qed

section \<open>The other handlers\<close>

text \<open>A step that answers nobody.\<close>

definition mute :: "srv \<Rightarrow> srv \<Rightarrow> bool" where
  "mute s t \<longleftrightarrow> client_replies (outbox t) = client_replies (outbox s)"

lemma mute_refl [simp]: "mute s s" by (simp add: mute_def)

lemma mute_trans: "mute s t \<Longrightarrow> mute t u \<Longrightarrow> mute s u" by (simp add: mute_def)

lemma mute_tells: "tells t u \<Longrightarrow> mute s t \<Longrightarrow> mute s u"
  using tells_same [of t u] by (simp add: mute_def)

lemma mute_same: "outbox t = outbox s \<Longrightarrow> mute s t"
  by (simp add: mute_def)

lemma mute_of_tells: "tells t u \<Longrightarrow> outbox t = outbox s \<Longrightarrow> mute s u"
  by (rule mute_tells [OF _ mute_same])

lemma mute_fields [simp]:
  "mute s (start_timer x t) = mute s t" "mute s (put_entry p e t) = mute s t"
  "mute s (t\<lparr>digestToEntry := d\<rparr>) = mute s t" "mute s (t\<lparr>awaitedDigests := a\<rparr>) = mute s t"
  "mute s (t\<lparr>lastProposedView := n\<rparr>) = mute s t"
  by (simp_all add: mute_def start_timer_def)

lemma mute_triggerViewChange: "triggerViewChange E v s = Inr t \<Longrightarrow> mute s t"
  by (auto simp: triggerViewChange_def Let_def dest!: broadcasts_tell(2) elim!: mute_of_tells)

lemma mute_announce: "announce_view E v s = Inr t \<Longrightarrow> mute s t"
  by (auto simp: announce_view_def Let_def dest!: broadcasts_tell(3) elim!: mute_of_tells)

lemma mute_enter_view: "enter_view E d s = Inr t \<Longrightarrow> mute s t"
  unfolding enter_view_def
  by (drule each_tells) (auto simp: send_new_view_ok_def Let_def intro: sends_tell elim!: mute_of_tells)

lemma mute_processNewView: "processNewView E r s = Inr t \<Longrightarrow> mute s t"
  using processNewView_cases [of E r s t] mute_enter_view by auto

lemma mute_trigger_in:
  "triggerViewChange E v u = Inr t \<Longrightarrow> outbox u = outbox s \<Longrightarrow> mute s t"
  using mute_triggerViewChange [of E v u t] by (simp add: mute_def)

lemma mute_announce_in:
  "announce_view E v u = Inr t \<Longrightarrow> outbox u = outbox s \<Longrightarrow> mute s t"
  using mute_announce [of E v u t] by (simp add: mute_def)

lemma mute_processViewChange: "processViewChange E r s = Inr t \<Longrightarrow> mute s t"
  unfolding processViewChange_def Let_def
  by (auto split: if_splits elim!: mute_trigger_in mute_announce_in intro: mute_same)

lemma mute_timers:
  "fire_DigestTimer E d v n s = Inr t \<Longrightarrow> mute s t"
  "fire_SeqTimer E q v n s = Inr t \<Longrightarrow> mute s t"
  "fire_ViewTimer v n s = Inr t \<Longrightarrow> mute s t"
  "fire_RetryTimer E nv s = Inr t \<Longrightarrow> mute s t"
  by (auto simp: fire_DigestTimer_def fire_SeqTimer_def fire_ViewTimer_def fire_RetryTimer_def
      split: if_splits elim!: mute_trigger_in intro: mute_processNewView mute_same)

lemma mute_processCheckpoint: "processCheckpoint E r s = Inr t \<Longrightarrow> mute s t"
  unfolding processCheckpoint_def Let_def
  by (auto split: if_splits dest!: make_stable_cases intro!: mute_same)

lemma mute_forward: "forward d m s = Inr t \<Longrightarrow> mute s t"
  by (auto simp: forward_def Let_def intro!: mute_tells [OF tells_emit])

lemma mute_proposals:
  "propose E m d s = Inr t \<Longrightarrow> mute s t"
  "repropose E m p e s = Inr t \<Longrightarrow> mute s t"
  "accept_prePrepare E q n p s = Inr t \<Longrightarrow> mute s t"
  by (auto simp: propose_def repropose_def accept_prePrepare_def Let_def split: if_splits
      dest!: broadcasts_tell(5) sends_tell(1) elim!: mute_of_tells intro: mute_same)

lemma mute_GetDB: "mute s (snd (GetDB s))"
  by (simp add: GetDB_def mute_def split: prod.split)

section \<open>The first view\<close>

text \<open>While the first view lasts every entry is of that view, so no entry is ever given to another
  request, and the map of digests leads to the entry with that digest.\<close>

definition alias_inv :: "srv \<Rightarrow> bool" where
  "alias_inv s \<longleftrightarrow> 1 \<le> currentView s \<and> (currentView s = 1 \<longrightarrow>
     (\<forall>p < length (heap s). entry_view (heap s ! p) = 1) \<and>
     (\<forall>(d, p) \<in> set (digestToEntry s). p < length (heap s) \<and> entry_digest (heap s ! p) = d))"

lemma alias_inv_init: "alias_inv (PbftServerImpl i name byz lc lcp)"
  by (simp add: alias_inv_def PbftServerImpl_def)

lemma alias_quiet:
  assumes "quiet s t" and "alias_inv s"
  shows "alias_inv t"
proof -
  note e = quiet_entries(1,2) [OF assms(1)]
  have v: "currentView s \<le> currentView t" "digestToEntry t = digestToEntry s"
    using assms(1) by (simp_all add: quiet_def)
  show ?thesis
    using assms(2) v(1) unfolding alias_inv_def v(2) by (auto simp: e entry_req)
qed

lemma alias_store:
  assumes inv: "alias_inv s" and v: "currentView t = currentView s" and len: "length (heap s) \<le> length (heap t)"
    and old: "\<And>p. currentView s = 1 \<Longrightarrow> p < length (heap s) \<Longrightarrow> entry_view (heap s ! p) = 1 \<Longrightarrow>
        entry_view (heap t ! p) = 1 \<and> entry_digest (heap t ! p) = entry_digest (heap s ! p)"
    and new: "\<And>p. currentView s = 1 \<Longrightarrow> length (heap s) \<le> p \<Longrightarrow> p < length (heap t) \<Longrightarrow> entry_view (heap t ! p) = 1"
    and map: "\<And>d p. currentView s = 1 \<Longrightarrow> (d, p) \<in> set (digestToEntry t) \<Longrightarrow> (d, p) \<in> set (digestToEntry s) \<or>
        p < length (heap t) \<and> entry_digest (heap t ! p) = d"
  shows "alias_inv t"
proof -
  have "(\<forall>p < length (heap t). entry_view (heap t ! p) = 1) \<and>
     (\<forall>(d, p) \<in> set (digestToEntry t). p < length (heap t) \<and> entry_digest (heap t ! p) = d)"
    if one: "currentView s = 1"
  proof (intro conjI allI impI ballI)
    fix p assume "p < length (heap t)"
    then show "entry_view (heap t ! p) = 1"
      using inv one old [OF one, of p] new [OF one, of p] by (cases "p < length (heap s)") (auto simp: alias_inv_def)
  next
    fix x assume x: "x \<in> set (digestToEntry t)"
    obtain d p where dp: "x = (d, p)" by (cases x)
    have "p < length (heap t) \<and> entry_digest (heap t ! p) = d"
      using map [OF one x [unfolded dp]]
    proof
      assume "(d, p) \<in> set (digestToEntry s)"
      then have "p < length (heap s)" "entry_digest (heap s ! p) = d" "entry_view (heap s ! p) = 1"
        using inv one by (auto simp: alias_inv_def)
      then show ?thesis using old [OF one, of p] len by simp
    qed
    then show "case x of (d, p) \<Rightarrow> p < length (heap t) \<and> entry_digest (heap t ! p) = d"
      by (simp add: dp)
  qed
  then show ?thesis using inv v by (auto simp: alias_inv_def)
qed

lemma alias_accept:
  assumes acc: "accept_prePrepare E req n p u = Inr t" and inv: "alias_inv s"
    and u: "currentView u = currentView s" "heap u = heap s @ xs" "digestToEntry u = digestToEntry s"
    and r: "req_view (pp_r req) = currentView s"
    and p: "xs = [] \<and> \<not> conflicting (currentView s) (req_digest (pp_r req)) (heap s ! p) \<or>
            p = length (heap s) \<and> length xs = 1"
  shows "alias_inv t"
proof -
  let ?e = "accepted_entry E req (own_prePrepareOk E (pp_r req) u) u (heap u ! p)"
  have pl: "p < length (heap u)" and t: "heap t = (heap u)[p := ?e]" "currentView t = currentView s"
    "digestToEntry t = sm_put (req_digest (pp_r req)) p (digestToEntry s)"
    using acc by (auto simp: accept_prePrepare_def Let_def u start_timer_def req_digest_def split: if_splits
        dest!: sends_tell(1) simp: tells_def)
  have e: "entry_view ?e = currentView s" "entry_digest ?e = req_digest (pp_r req)"
    using r by (simp_all add: entry_req)
  show ?thesis
  proof (rule alias_store [OF inv t(2)])
    show "length (heap s) \<le> length (heap t)" by (simp add: t u)
  next
    fix q assume one: "currentView s = 1" and q: "q < length (heap s)" "entry_view (heap s ! q) = 1"
    show "entry_view (heap t ! q) = 1 \<and> entry_digest (heap t ! q) = entry_digest (heap s ! q)"
    proof (cases "q = p")
      case True
      then have "xs = []" "\<not> conflicting 1 (req_digest (pp_r req)) (heap s ! p)" using p q one by auto
      then show ?thesis using e q one True pl
        by (simp add: t conflicting_def entry_view_def) (simp add: u entry_digest_def req_digest_def)
    next
      case False
      then show ?thesis using q by (simp add: t u nth_append)
    qed
  next
    fix q assume "currentView s = 1" "length (heap s) \<le> q" "q < length (heap t)"
    moreover from this have "q = p" using p by (auto simp: t u)
    ultimately show "entry_view (heap t ! q) = 1"
      using pl e by (simp add: t)
  next
    fix d q assume "(d, q) \<in> set (digestToEntry t)"
    then show "(d, q) \<in> set (digestToEntry s) \<or> q < length (heap t) \<and> entry_digest (heap t ! q) = d"
      using pl e by (auto simp: t dest!: sm_put_mem)
  qed
qed

lemma alias_processPrePrepare:
  assumes "processPrePrepare E req s = Inr t" and inv: "alias_inv s"
  shows "alias_inv t \<and> mute s t"
proof -
  have s1: "alias_inv (note_proposal req s)" "mute s (note_proposal req s)"
    using inv by (simp_all add: note_proposal_def alias_inv_def mute_def)
  have r: "valid_proposal E req s \<Longrightarrow> req_view (pp_r req) = currentView s"
    by (simp add: valid_proposal_def req_view_def)
  from assms(1) show ?thesis
  proof (cases rule: processPrePrepare_cases)
    case fresh
    then show ?thesis
      using alias_accept [OF fresh(3) inv, where xs = "[new_MessageInfo E]"] r mute_proposals(3) [OF fresh(3)]
      by (simp add: note_proposal_def free_slot_def mute_def)
  next
    case (again p)
    then show ?thesis
      using alias_accept [OF again(5) inv, where xs = "[]"] r mute_proposals(3) [OF again(5)]
      by (simp add: note_proposal_def mute_def req_digest_def)
  qed (use s1 inv in simp_all)
qed

lemma alias_propose:
  assumes "propose E m d s = Inr t" and inv: "alias_inv s"
  shows "alias_inv t"
proof -
  define n where "n = currentSequence s + 1"
  define r where "r = new_proposal E d (s\<lparr>currentSequence := n\<rparr>)"
  define u where "u = s\<lparr>currentSequence := n, heap := heap s @ [proposed_entry E m r],
     log := (log s)[nat (n - lowWatermark s) := Some (length (heap s))],
     digestToEntry := sm_put d (length (heap s)) (digestToEntry s)\<rparr>"
  have send: "sendPrePrepareToAll \<lparr>pp_r = r, pp_m = m\<rparr> u = Inr t"
    using propose_cases [OF assms(1)] by (auto simp: n_def r_def u_def)
  have t: "heap t = heap s @ [proposed_entry E m r]" "currentView t = currentView s"
    "digestToEntry t = sm_put d (length (heap s)) (digestToEntry s)"
    using broadcasts_tell(5) [OF send] by (auto simp: tells_def u_def)
  have e: "entry_view (proposed_entry E m r) = currentView s" "entry_digest (proposed_entry E m r) = d"
    by (simp_all add: entry_view_def entry_digest_def r_def)
  show ?thesis
    by (rule alias_store [OF inv t(2)]) (auto simp: t e nth_append less_Suc_eq dest!: sm_put_mem)
qed

lemma alias_repropose:
  assumes "repropose E m p (heap s ! p) s = Inr t" and inv: "alias_inv s" and p: "p < length (heap s)"
  shows "alias_inv t"
proof -
  define c where "c = (rq_data (mi_prePrepare (heap s ! p)))\<lparr>cx_view_num := currentView s\<rparr>"
  define r where "r = \<lparr>rq_data = c, rq_sig_vec = addMACSignature E s (ser_ctx E c)
      (rq_sig_vec (mi_prePrepare (heap s ! p)))\<rparr>"
  have send: "sendPrePrepareToAll \<lparr>pp_r = r, pp_m = m\<rparr> (put_entry p
      ((heap s ! p)\<lparr>mi_prepareProofs := [], mi_commitProofs := [], mi_prePrepare := r\<rparr>) s) = Inr t"
    using assms(1) by (simp add: repropose_def Let_def c_def r_def)
  let ?e = "(heap s ! p)\<lparr>mi_prepareProofs := [], mi_commitProofs := [], mi_prePrepare := r\<rparr>"
  have t: "heap t = (heap s)[p := ?e]" "currentView t = currentView s" "digestToEntry t = digestToEntry s"
    using broadcasts_tell(5) [OF send] by (auto simp: tells_def)
  have e: "entry_view ?e = currentView s" "entry_digest ?e = entry_digest (heap s ! p)"
    by (simp_all add: entry_view_def entry_digest_def r_def c_def)
  have "entry_view (heap t ! q) = 1 \<and> entry_digest (heap t ! q) = entry_digest (heap s ! q)"
    if "currentView s = 1" "entry_view (heap s ! q) = 1" "q < length (heap s)" for q
    using that e p by (cases "q = p") (simp_all add: t)
  then show ?thesis by (intro alias_store [OF inv t(2)]) (auto simp: t)
qed

lemma notify_answers:
  assumes "notifyClient E (sg_server_id (ms_signature m)) m ack s = Inr t"
    and "verifySignature_Message E m" and "settled s (message_digest E m) ack"
  shows "answers E s t"
proof -
  have t: "client_replies (outbox t) = client_replies (outbox s) @ [(sg_server_id (ms_signature m), ms_data m, ack)]"
    "heap t = heap s"
    using assms(1) by (auto simp: notifyClient_def Let_def emit_eq_sent)
  have "backed E t (sg_server_id (ms_signature m), ms_data m, ack)"
    using assms(2,3) settled_heap [OF t(2)] by (intro backedI) simp_all
  then show ?thesis by (simp add: answers_def t(1))
qed

lemma found_settled:
  assumes f: "find_entry s d = Inr (Some (p, e))" and "mi_mstatus e = EXECUTED"
    and inv: "alias_inv s" and one: "currentView s = 1"
  shows "settled s d (mi_result e)"
proof -
  have e: "sm_find (digestToEntry s) d = Some p" "p < length (heap s)" "e = heap s ! p"
    using f by (auto simp: find_entry_def split: option.splits)
  have "(d, p) \<in> set (digestToEntry s)" using map_of_SomeD [OF e(1)] .
  then have "entry_digest e = d" using inv one by (auto simp: alias_inv_def e(3))
  then show ?thesis using e(2,3) assms(2) unfolding settled_def by (intro bexI [of _ e]) simp_all
qed

lemma processTransfer_answers:
  assumes h: "processTransfer E m s = Inr t" and inv: "alias_inv s" and one: "currentView s = 1"
  shows "alias_inv t \<and> answers E s t"
proof -
  have "t = s \<or> forward (message_digest E m) m s = Inr t \<or>
      (\<exists>p e. verifySignature_Message E m \<and> find_entry s (message_digest E m) = Inr (Some (p, e)) \<and>
         mi_mstatus e = EXECUTED \<and> notifyClient E (sg_server_id (ms_signature m)) m (mi_result e) s = Inr t) \<or>
      (\<exists>p. p < length (heap s) \<and> repropose E m p (heap s ! p) s = Inr t) \<or>
      propose E m (message_digest E m) s = Inr t"
    using h unfolding processTransfer_def Let_def
    by (auto split: if_splits option.splits) (auto dest!: find_entry_cases)
  then show ?thesis
  proof (elim disjE exE conjE)
    assume "t = s" then show ?thesis using inv by simp
  next
    assume f: "forward (message_digest E m) m s = Inr t"
    show ?thesis using alias_quiet [OF quiet_forward [OF f] inv] mute_forward [OF f]
      by (simp add: mute_def answers_same)
  next
    fix p e assume v: "verifySignature_Message E m" and f: "find_entry s (message_digest E m) = Inr (Some (p, e))"
      and st: "mi_mstatus e = EXECUTED" and n: "notifyClient E (sg_server_id (ms_signature m)) m (mi_result e) s = Inr t"
    show ?thesis
      using alias_quiet [OF quiet_of_says [OF sends_say(2) [OF n]] inv]
        notify_answers [OF n v found_settled [OF f st inv one]] by simp
  next
    fix p assume p: "p < length (heap s)" and r: "repropose E m p (heap s ! p) s = Inr t"
    show ?thesis using alias_repropose [OF r inv p] mute_proposals(2) [OF r]
      by (simp add: mute_def answers_same)
  next
    assume r: "propose E m (message_digest E m) s = Inr t"
    show ?thesis using alias_propose [OF r inv] mute_proposals(1) [OF r]
      by (simp add: mute_def answers_same)
  qed
qed

lemma alias_processTransfer:
  assumes h: "processTransfer E m s = Inr t" and inv: "alias_inv s"
  shows "alias_inv t"
proof -
  have "quiet s t \<or> (\<exists>p. p < length (heap s) \<and> repropose E m p (heap s ! p) s = Inr t) \<or>
      propose E m (message_digest E m) s = Inr t"
    using h unfolding processTransfer_def Let_def
    by (auto split: if_splits option.splits dest!: find_entry_cases sends_say(2)
        intro: quiet_forward quiet_of_says)
  then show ?thesis
    using alias_quiet [OF _ inv] alias_propose [OF _ inv] alias_repropose [OF _ inv] by blast
qed

lemma alias_processCheckpoint:
  assumes "processCheckpoint E r s = Inr t" and inv: "alias_inv s"
  shows "alias_inv t"
proof -
  have "quiet s t \<or> (\<exists>c ci m. make_stable c ci (s\<lparr>checkpoints := m\<rparr>) = Inr t)"
    using assms(1) unfolding processCheckpoint_def Let_def by (auto split: if_splits)
  then show ?thesis
  proof (elim disjE exE)
    fix c ci m assume "make_stable c ci (s\<lparr>checkpoints := m\<rparr>) = Inr t"
    from make_stable_cases [OF this] have "heap t = heap s" "currentView t = currentView s"
      "set (digestToEntry t) \<subseteq> set (digestToEntry s)" by auto
    with inv show ?thesis unfolding alias_inv_def by auto
  qed (rule alias_quiet [OF _ inv])
qed

section \<open>Every step\<close>

lemma handle_alias:
  assumes "handle E ev s = Inr t" and inv: "alias_inv s"
  shows "alias_inv t"
proof (cases ev)
  case (Rpc p)
  note h = assms(1) [unfolded Rpc, simplified]
  show ?thesis
    by (cases p) (use h in \<open>auto intro: alias_processTransfer [OF _ inv] alias_processCheckpoint [OF _ inv]
      alias_processPrePrepare [OF _ inv, THEN conjunct1] alias_quiet [OF _ inv] quiet_handlers
      quiet_processViewChange quiet_processNewView\<close>)
next
  case (Fire x)
  with assms(1) show ?thesis by (auto intro: alias_quiet [OF fire_timer_quiet inv])
next
  case Query_DB
  with assms(1) show ?thesis by (auto intro: alias_quiet [OF quiet_GetDB inv])
qed

lemma calm_answers: "calm E s t \<Longrightarrow> srv_inv E s \<Longrightarrow> answers E s t"
  by (simp add: calm_def)

lemma mute_answers: "mute s t \<Longrightarrow> answers E s t"
  by (simp add: mute_def answers_same)

lemma handle_answers:
  assumes "handle E ev s = Inr t" and inv: "alias_inv s" and srv: "srv_inv E s" and one: "currentView s = 1"
  shows "answers E s t"
proof (cases ev)
  case (Rpc p)
  note h = assms(1) [unfolded Rpc, simplified]
  show ?thesis
    by (cases p) (use h in \<open>auto intro: processTransfer_answers [OF _ inv one, THEN conjunct2]
      alias_processPrePrepare [OF _ inv, THEN conjunct2, THEN mute_answers] calm_answers [OF _ srv] calm_handlers
      mute_answers mute_processCheckpoint mute_processViewChange mute_processNewView\<close>)
next
  case (Fire x)
  with assms(1) show ?thesis
    by (cases x) (auto intro: mute_answers mute_timers calm_answers [OF _ srv] calm_handlers)
next
  case Query_DB
  with assms(1) show ?thesis by (auto intro: mute_answers mute_GetDB)
qed

lemma server_step_answers:
  assumes "server_step E s ev t" and "alias_inv s" and "srv_inv E s"
  shows "alias_inv t" and "currentView s = 1 \<Longrightarrow> answers E s t"
proof -
  obtain x j where h: "handle (at_time E x j) ev s = Inr t" using server_step_handle [OF assms(1)] by blast
  show "alias_inv t" by (rule handle_alias [OF h assms(2)])
  show "currentView s = 1 \<Longrightarrow> answers E s t" using handle_answers [OF h assms(2)] assms(3) by simp
qed

end
