(* ===== verification/System.thy ===== *)
theory System
  imports Cluster Client Server_Replies
begin

text \<open>
  The servers and a client together: what a client counts as done has been executed by a server that
  is not faulty. The outboxes of the servers connect the two sides, the states that the cluster went
  through record what was executed.
\<close>

section \<open>The cluster's past\<close>












section \<open>The client\<close>










section \<open>What a client can sign for\<close>

text \<open>A transfer of client 0 with a negative amount, and the runs in which no other client has signed
  anything that a server keeps.\<close>

definition negative_transfer :: Message where
  "negative_transfer = signed_by 0 (pay ''A'' ''B'' (-15))"

definition only_signer :: "env \<Rightarrow> cluster \<Rightarrow> int \<Rightarrow> bool" where
  "only_signer E C i \<longleftrightarrow> (\<forall>j \<in> server_ids. \<forall>e \<in> set (heap (C j)). verifySignature_Message E (mi_m e) \<and>
     sg_server_id (ms_signature (mi_m e)) = i)"

definition everywhere :: "cluster \<Rightarrow> string \<Rightarrow> int \<Rightarrow> bool" where
  "everywhere C a n \<longleftrightarrow> (\<forall>j \<in> server_ids. sm_find (balances (C j)) a = Some n)"

lemma negative_run:
  "holds (acts sample_env (normal_case negative_transfer) initial)
     (list_all (\<lambda>s. \<not> isByzantine s \<and> sm_find (balances s) ''A'' = Some 25 \<and> sm_find (balances s) ''B'' = Some (-5) \<and>
        list_all (\<lambda>e. sg_server_id (ms_signature (mi_m e)) = 0) (heap s)))"
  by code_simp

text \<open>
  C13: A client can take money from another client's account, beyond what there is. Servers check that a
  transfer is signed and that its sender has the amount, but not that the amount is positive; so one
  request of A, which only A has signed, moves 15 from B, who has 10, to A on all seven servers, none of
  which misbehaves.
\<close>

theorem negative_transfer_robs:
  "\<exists>C. cluster_reach sample_env C \<and> all_honest C \<and> only_signer sample_env C 0 \<and>
     everywhere C ''A'' 25 \<and> everywhere C ''B'' (-5)"
proof -
  obtain D where D: "acts sample_env (normal_case negative_transfer) initial = Inr D"
    and s: "list_all (\<lambda>s. \<not> isByzantine s \<and> sm_find (balances s) ''A'' = Some 25 \<and> sm_find (balances s) ''B'' = Some (-5) \<and>
        list_all (\<lambda>e. sg_server_id (ms_signature (mi_m e)) = 0) (heap s)) D"
    using negative_run unfolding holds_iff by blast
  have r: "cluster_reach sample_env (servers D)" and len: "length D = 7"
    using acts_reach [OF D _ initial_reach] by (simp_all add: initial_def)
  have at: "servers D j \<in> set D" if "j \<in> server_ids" for j
    using that len by (auto simp: servers_def server_ids_def intro!: nth_mem)
  have inv: "srv_inv sample_env (servers D j)" if "j \<in> server_ids" for j
    by (rule cluster_inv_server(1) [OF cluster_reach_inv [OF r] that])
  have "verifySignature_Message sample_env (mi_m e)" if "j \<in> server_ids" "e \<in> set (heap (servers D j))" for j e
    using that(2) srv_inv_entryD [OF inv [OF that(1)]] by (auto simp: in_set_conv_nth entry_ok_def)
  then have "only_signer sample_env (servers D) 0"
    using s at unfolding only_signer_def list_all_iff by blast
  moreover have "all_honest (servers D)" "everywhere (servers D) ''A'' 25" "everywhere (servers D) ''B'' (-5)"
    using s at by (simp_all add: all_honest_def everywhere_def list_all_iff)
  ultimately show ?thesis using r by blast
qed

end
