(* ===== verification/Commands.thy ===== *)
theory Commands
  imports Std_String
begin

text \<open>
  The parser of the driver's commands (\<open>utils/commands_parser.cc\<close>): the patterns a command has to
  match, its tokens, and the command they denote. A malformed command leaves the parser by an
  exception.
\<close>

section \<open>Data\<close>

datatype Commands =
    PROCESS_NEXT_SET | PRINT_LOG | PRINT_DB | PRINT_STATUS | PRINT_VIEW | PRINT_PERFORMANCE | EXIT

record AppCommand =
  ac_command :: Commands
  ac_serverName :: string
  ac_sequenceNum :: int

section \<open>Regular expressions\<close>

text \<open>
  The part of \<open>std::regex\<close> that the patterns use: a character, a range \<open>[a-b]\<close>, and a range repeated
  at least once, \<open>[a-b]+\<close>. \<open>regex_match\<close> compares with the whole string.
\<close>

datatype regex_item = Range char char | Range_plus char char

fun regex_items :: "string \<Rightarrow> regex_item list" where
  "regex_items (l # a # d # b # r # p # cs) =
     (if l = CHR ''['' \<and> d = CHR ''-'' \<and> r = CHR '']'' then
        (if p = CHR ''+'' then Range_plus a b # regex_items cs else Range a b # regex_items (p # cs))
      else Range l l # regex_items (a # d # b # r # p # cs))"
| "regex_items [l, a, d, b, r] =
     (if l = CHR ''['' \<and> d = CHR ''-'' \<and> r = CHR '']'' then [Range a b]
      else Range l l # regex_items [a, d, b, r])"
| "regex_items (c # cs) = Range c c # regex_items cs"
| "regex_items [] = []"

definition in_range :: "char \<Rightarrow> char \<Rightarrow> char \<Rightarrow> bool" where
  "in_range a b c \<longleftrightarrow> char_code a \<le> char_code c \<and> char_code c \<le> char_code b"

fun match_items :: "regex_item list \<Rightarrow> string \<Rightarrow> bool" where
  "match_items [] s = (s = [])"
| "match_items (i # is) [] = False"
| "match_items (Range a b # is) (c # cs) = (in_range a b c \<and> match_items is cs)"
| "match_items (Range_plus a b # is) (c # cs) =
     (in_range a b c \<and> (match_items is cs \<or> match_items (Range_plus a b # is) cs))"

definition regex_match :: "string \<Rightarrow> string \<Rightarrow> bool" where
  "regex_match command pattern = match_items (regex_items pattern) command"

section \<open>The prompt\<close>

definition prompt_text :: "string list" where
  "prompt_text =
     [''Type one of the following commands to proceed:'', ''1. processNextSet'', ''2. printLog <server_name>'',
      ''3. printDB'', ''4. printStatus <sequence_num>'', ''5. printView'', ''6. printPerformance'', ''7. exit'',
      replicate 73 (CHR ''='')]"

text \<open>
  The standard input: the characters still to come, and whether \<open>good()\<close> holds. \<open>std::getline\<close> on a
  stream that is not good leaves its string as it is. Otherwise the string becomes what precedes the next
  newline; when the input ends before one is found, it becomes the rest, which may be empty, and the
  stream is not good any more (\<open>eofbit\<close> is set, and \<open>failbit\<close> if nothing was read). Nothing clears these bits.
\<close>

record input_stream =
  in_chars :: string
  in_good :: bool

definition std_getline :: "input_stream \<Rightarrow> string \<Rightarrow> string \<times> input_stream" where
  "std_getline stdin str =
     (if \<not> in_good stdin then (str, stdin)
      else let line = takeWhile (\<lambda>c. c \<noteq> CHR 0x0A) (in_chars stdin)
           in (line, if length line < length (in_chars stdin)
                     then stdin\<lparr>in_chars := drop (length line + 1) (in_chars stdin)\<rparr>
                     else stdin\<lparr>in_chars := [], in_good := False\<rparr>))"

definition promptUserForCommand :: "input_stream \<Rightarrow> string \<Rightarrow> string \<times> input_stream" where
  "promptUserForCommand stdin command = std_getline stdin command"

text \<open>At the end of the input.\<close>

lemma prompt_at_end:
  "in_chars stdin = [] \<Longrightarrow> promptUserForCommand stdin command =
     (if in_good stdin then [] else command, \<lparr>in_chars = [], in_good = False\<rparr>)"
  by (cases stdin) (simp add: promptUserForCommand_def std_getline_def)

section \<open>The parser\<close>

definition isValidCommand :: "string \<Rightarrow> bool" where
  "isValidCommand command \<longleftrightarrow>
     regex_match command ''processNextSet'' \<or>
     regex_match command ''printLog S[1-9]'' \<or>
     regex_match command ''printDB'' \<or>
     regex_match command ''printStatus [0-9]+'' \<or>
     regex_match command ''printView'' \<or>
     regex_match command ''printPerformance'' \<or>
     regex_match command ''exit''"

text \<open>Extraction with \<open>>>\<close> skips white space and takes what precedes the next.\<close>

function (sequential) tokenizeCommand :: "string \<Rightarrow> string list" where
  "tokenizeCommand command =
     (case dropWhile is_space command of
        [] \<Rightarrow> []
      | c # cs \<Rightarrow> (c # takeWhile (\<lambda>x. \<not> is_space x) cs) #
                  tokenizeCommand (dropWhile (\<lambda>x. \<not> is_space x) cs))"
  by pat_completeness auto

termination
proof (relation "measure length")
  fix command c cs
  assume "dropWhile is_space command = c # cs"
  then have "length (c # cs) \<le> length command" using length_dropWhile_le [of is_space command] by simp
  moreover have "length (dropWhile (\<lambda>x. \<not> is_space x) cs) \<le> length cs" by (rule length_dropWhile_le)
  ultimately show "(dropWhile (\<lambda>x. \<not> is_space x) cs, command) \<in> measure length" by simp
qed simp

declare tokenizeCommand.simps [simp del]

definition parseCommand :: "string \<Rightarrow> fault + AppCommand" where
  "parseCommand command =
     (if \<not> isValidCommand command
      then Fault (Thrown (Invalid_argument (''Invalid command: '' @ command)))
      else
        let command_tokens = tokenizeCommand command;
            c = \<lparr>ac_command = PROCESS_NEXT_SET, ac_serverName = '''', ac_sequenceNum = -1\<rparr>
        in ebind (vec_at command_tokens 0) (\<lambda>t.
           if t = ''processNextSet'' then Ok (c\<lparr>ac_command := PROCESS_NEXT_SET\<rparr>)
           else if t = ''printLog'' then
             ebind (vec_at command_tokens 1) (\<lambda>n.
               Ok (c\<lparr>ac_command := PRINT_LOG, ac_serverName := n\<rparr>))
           else if t = ''printDB'' then Ok (c\<lparr>ac_command := PRINT_DB\<rparr>)
           else if t = ''printStatus'' then
             ebind (vec_at command_tokens 1) (\<lambda>n. ebind (stoi n) (\<lambda>i.
               Ok (c\<lparr>ac_command := PRINT_STATUS, ac_sequenceNum := i\<rparr>)))
           else if t = ''printView'' then Ok (c\<lparr>ac_command := PRINT_VIEW\<rparr>)
           else if t = ''printPerformance'' then Ok (c\<lparr>ac_command := PRINT_PERFORMANCE\<rparr>)
           else Ok (c\<lparr>ac_command := EXIT\<rparr>)))"

section \<open>The commands and what they denote\<close>

text \<open>The grammar the user is shown: a name, with a server or a sequence number where it has one.\<close>

definition plain :: "Commands \<Rightarrow> AppCommand" where
  "plain c = \<lparr>ac_command = c, ac_serverName = '''', ac_sequenceNum = -1\<rparr>"

inductive denotes :: "string \<Rightarrow> AppCommand \<Rightarrow> bool" where
  next_set: "denotes ''processNextSet'' (plain PROCESS_NEXT_SET)"
| log: "is_digit 10 d \<Longrightarrow> d \<noteq> CHR ''0'' \<Longrightarrow>
     denotes (''printLog S'' @ [d]) ((plain PRINT_LOG)\<lparr>ac_serverName := ''S'' @ [d]\<rparr>)"
| db: "denotes ''printDB'' (plain PRINT_DB)"
| status: "ds \<noteq> [] \<Longrightarrow> list_all (is_digit 10) ds \<Longrightarrow> int (digits_val 10 ds) \<le> int32_max \<Longrightarrow>
     denotes (''printStatus '' @ ds) ((plain PRINT_STATUS)\<lparr>ac_sequenceNum := int (digits_val 10 ds)\<rparr>)"
| view: "denotes ''printView'' (plain PRINT_VIEW)"
| performance: "denotes ''printPerformance'' (plain PRINT_PERFORMANCE)"
| exit: "denotes ''exit'' (plain EXIT)"

lemma in_range_digit: "in_range (CHR ''0'') (CHR ''9'') c \<longleftrightarrow> is_digit 10 c"
  by (auto simp: in_range_def is_digit_def digit_val_def Let_def char_code_def split: option.splits if_splits)

lemma char_code_inj: "char_code c = char_code d \<longleftrightarrow> c = d"
  by (simp add: char_code_def)

lemma in_range_same [simp]: "in_range a a c \<longleftrightarrow> c = a"
  by (auto simp: in_range_def simp flip: char_code_inj)

lemma in_range_digit1: "in_range (CHR ''1'') (CHR ''9'') c \<longleftrightarrow> is_digit 10 c \<and> c \<noteq> CHR ''0''"
  by (auto simp: in_range_def is_digit_def digit_val_def Let_def char_code_def split: option.splits if_splits
      simp flip: char_code_inj)

section \<open>What the patterns match\<close>

lemma match_literal:
  "match_items (map (\<lambda>c. Range c c) cs @ is) s \<longleftrightarrow> (\<exists>t. s = cs @ t \<and> match_items is t)"
proof (induction cs arbitrary: s)
  case (Cons c cs)
  then show ?case by (cases s) auto
qed simp

lemma match_range: "match_items [Range a b] s \<longleftrightarrow> (\<exists>c. s = [c] \<and> in_range a b c)"
  by (cases s) auto

lemma match_plus: "match_items [Range_plus a b] s \<longleftrightarrow> s \<noteq> [] \<and> list_all (in_range a b) s"
proof (induction s)
  case (Cons c cs)
  then show ?case by (cases cs) auto
qed simp

lemma match_word:
  assumes "regex_items p = map (\<lambda>c. Range c c) cs @ []"
  shows "regex_match s p \<longleftrightarrow> s = cs"
  unfolding regex_match_def assms match_literal by simp

lemma match_word_range:
  assumes "regex_items p = map (\<lambda>c. Range c c) cs @ [Range a b]"
  shows "regex_match s p \<longleftrightarrow> (\<exists>d. s = cs @ [d] \<and> in_range a b d)"
  unfolding regex_match_def assms match_literal match_range by auto

lemma match_word_plus:
  assumes "regex_items p = map (\<lambda>c. Range c c) cs @ [Range_plus a b]"
  shows "regex_match s p \<longleftrightarrow> (\<exists>ds. s = cs @ ds \<and> ds \<noteq> [] \<and> list_all (in_range a b) ds)"
  unfolding regex_match_def assms match_literal match_plus by blast

lemma literal_patterns:
  assumes "p \<in> {''processNextSet'', ''printDB'', ''printView'', ''printPerformance'', ''exit''}"
  shows "regex_match s p \<longleftrightarrow> s = p"
  by (rule match_word) (use assms in \<open>elim insertE emptyE; simp\<close>)

lemma log_pattern:
  "regex_match s ''printLog S[1-9]'' \<longleftrightarrow> (\<exists>d. s = ''printLog S'' @ [d] \<and> is_digit 10 d \<and> d \<noteq> CHR ''0'')"
  unfolding in_range_digit1 [symmetric] by (rule match_word_range) simp

lemma status_pattern:
  "regex_match s ''printStatus [0-9]+'' \<longleftrightarrow> (\<exists>ds. s = ''printStatus '' @ ds \<and> ds \<noteq> [] \<and> list_all (is_digit 10) ds)"
  unfolding in_range_digit [symmetric, abs_def] by (rule match_word_plus) simp

lemma isValidCommand_iff:
  "isValidCommand s \<longleftrightarrow> s \<in> {''processNextSet'', ''printDB'', ''printView'', ''printPerformance'', ''exit''} \<or>
     (\<exists>d. s = ''printLog S'' @ [d] \<and> is_digit 10 d \<and> d \<noteq> CHR ''0'') \<or>
     (\<exists>ds. s = ''printStatus '' @ ds \<and> ds \<noteq> [] \<and> list_all (is_digit 10) ds)"
  unfolding isValidCommand_def log_pattern status_pattern
  by (simp only: literal_patterns insertI1 insertI2 insert_iff empty_iff simp_thms disj_ac)

section \<open>Tokens\<close>

lemma tokenize_nil [simp]: "tokenizeCommand [] = []"
  by (simp add: tokenizeCommand.simps)

lemma tokenize_word:
  assumes "w \<noteq> []" and "list_all (\<lambda>c. \<not> is_space c) w"
  shows "tokenizeCommand w = [w]"
    and "is_space b \<Longrightarrow> tokenizeCommand (w @ b # r) = w # tokenizeCommand r"
proof -
  obtain c cs where w: "w = c # cs" "\<not> is_space c" "list_all (\<lambda>x. \<not> is_space x) cs"
    using assms by (cases w) auto
  have all: "takeWhile (\<lambda>x. \<not> is_space x) cs = cs" "dropWhile (\<lambda>x. \<not> is_space x) cs = []"
    using w(3) by (induction cs) auto
  have "tokenizeCommand (c # cs) = (c # takeWhile (\<lambda>x. \<not> is_space x) cs) # tokenizeCommand (dropWhile (\<lambda>x. \<not> is_space x) cs)"
    using w(2) by (simp add: tokenizeCommand.simps [of "c # cs"])
  then show "tokenizeCommand w = [w]" unfolding all w(1) tokenize_nil .
  assume b: "is_space b"
  have "takeWhile (\<lambda>x. \<not> is_space x) (cs @ b # r) = cs" "dropWhile (\<lambda>x. \<not> is_space x) (cs @ b # r) = b # r"
    using w(3) b by (induction cs) auto
  moreover have "tokenizeCommand (b # r) = tokenizeCommand r"
    using b by (simp add: tokenizeCommand.simps [of "b # r"] tokenizeCommand.simps [of r])
  ultimately show "tokenizeCommand (w @ b # r) = w # tokenizeCommand r"
    using w by (simp add: tokenizeCommand.simps [of "c # cs @ b # r"])
qed

lemma digit_not_space: "is_digit 10 c \<Longrightarrow> \<not> is_space c"
  by (auto simp: is_digit_def digit_val_def is_space_def Let_def split: if_splits)

lemma digits_not_space: "list_all (is_digit 10) ds \<Longrightarrow> list_all (\<lambda>c. \<not> is_space c) ds"
  using digit_not_space by (auto simp: list_all_iff)

lemma tokens_plain:
  "p \<in> {''processNextSet'', ''printDB'', ''printView'', ''printPerformance'', ''exit''} \<Longrightarrow> tokenizeCommand p = [p]"
  by (rule tokenize_word) (auto simp: is_space_def char_code_def)

lemma tokens_log: "is_digit 10 d \<Longrightarrow> tokenizeCommand (''printLog S'' @ [d]) = [''printLog'', ''S'' @ [d]]"
proof -
  assume d: "is_digit 10 d"
  have "tokenizeCommand (''printLog'' @ CHR '' '' # (''S'' @ [d])) = ''printLog'' # tokenizeCommand (''S'' @ [d])"
    by (rule tokenize_word) (simp_all add: is_space_def char_code_def)
  moreover have "tokenizeCommand (''S'' @ [d]) = [''S'' @ [d]]"
    by (rule tokenize_word) (use digit_not_space [OF d] in \<open>simp_all add: is_space_def char_code_def\<close>)
  ultimately show ?thesis by simp
qed

lemma tokens_status:
  assumes "ds \<noteq> []" and "list_all (is_digit 10) ds"
  shows "tokenizeCommand (''printStatus '' @ ds) = [''printStatus'', ds]"
proof -
  have "tokenizeCommand (''printStatus'' @ CHR '' '' # ds) = ''printStatus'' # tokenizeCommand ds"
    by (rule tokenize_word) (simp_all add: is_space_def char_code_def)
  moreover have "tokenizeCommand ds = [ds]"
    by (rule tokenize_word) (use assms digits_not_space in auto)
  ultimately show ?thesis by simp
qed

lemma stoi_digits:
  assumes "ds \<noteq> []" and "list_all (is_digit 10) ds"
  shows "stoi ds = (if int (digits_val 10 ds) \<le> int32_max then Ok (int (digits_val 10 ds))
    else Fault (Thrown Std_out_of_range))"
proof -
  obtain c cs where ds: "ds = c # cs" "is_digit 10 c" using assms by (cases ds) auto
  have "c \<noteq> CHR ''-''" "c \<noteq> CHR ''+''"
    using ds(2) by (auto simp: is_digit_def digit_val_def Let_def char_code_def)
  then have "split_sign (dropWhile is_space ds) = (False, ds)"
    using ds digit_not_space by (simp add: split_sign_def)
  moreover have "takeWhile (is_digit 10) ds = ds"
    using takeWhile_all [OF assms(2), of "[]"] by simp
  ultimately show ?thesis using assms(1)
    by (simp add: stoi_def int32_max_def Let_def del: takeWhile_eq_all_conv)
qed

section \<open>The parser's results\<close>

lemma parse_plain:
  "parseCommand ''processNextSet'' = Ok (plain PROCESS_NEXT_SET)" "parseCommand ''printDB'' = Ok (plain PRINT_DB)"
  "parseCommand ''printView'' = Ok (plain PRINT_VIEW)" "parseCommand ''exit'' = Ok (plain EXIT)"
  "parseCommand ''printPerformance'' = Ok (plain PRINT_PERFORMANCE)"
  by (simp_all add: parseCommand_def Let_def tokens_plain isValidCommand_iff vec_at_def plain_def)

lemma parse_log:
  assumes "is_digit 10 d" and "d \<noteq> CHR ''0''"
  shows "parseCommand (''printLog S'' @ [d]) = Ok ((plain PRINT_LOG)\<lparr>ac_serverName := ''S'' @ [d]\<rparr>)"
proof -
  have v: "isValidCommand (''printLog S'' @ [d])" unfolding isValidCommand_iff using assms by blast
  show ?thesis unfolding parseCommand_def Let_def tokens_log [OF assms(1)]
    by (simp only: v not_True_eq_False if_False) (simp add: vec_at_def plain_def)
qed

lemma parse_status:
  assumes "ds \<noteq> []" and "list_all (is_digit 10) ds"
  shows "parseCommand (''printStatus '' @ ds) = (if int (digits_val 10 ds) \<le> int32_max
     then Ok ((plain PRINT_STATUS)\<lparr>ac_sequenceNum := int (digits_val 10 ds)\<rparr>)
     else Fault (Thrown Std_out_of_range))"
proof -
  have v: "isValidCommand (''printStatus '' @ ds)" unfolding isValidCommand_iff using assms by blast
  show ?thesis unfolding parseCommand_def Let_def tokens_status [OF assms]
    by (simp only: v not_True_eq_False if_False) (simp add: vec_at_def plain_def stoi_digits [OF assms])
qed

lemma valid_cases:
  assumes "isValidCommand s"
  obtains (denoted) c where "denotes s c" "parseCommand s = Ok c"
    | (range) ds where "s = ''printStatus '' @ ds" "ds \<noteq> []" "list_all (is_digit 10) ds" "int32_max < int (digits_val 10 ds)"
        "parseCommand s = Fault (Thrown Std_out_of_range)"
  using assms unfolding isValidCommand_iff
proof (elim disjE exE conjE)
  assume "s \<in> {''processNextSet'', ''printDB'', ''printView'', ''printPerformance'', ''exit''}"
  then have "\<exists>c. denotes s c \<and> parseCommand s = Ok c"
    using denotes.next_set parse_plain(1) denotes.db parse_plain(2) denotes.view parse_plain(3)
      denotes.exit parse_plain(4) denotes.performance parse_plain(5)
    by (elim insertE emptyE) (simp_all only:, blast+)
  then show thesis using denoted by blast
next
  fix d assume d: "s = ''printLog S'' @ [d]" "is_digit 10 d" "d \<noteq> CHR ''0''"
  show thesis by (rule denoted) (unfold d(1), rule denotes.log [OF d(2,3)], rule parse_log [OF d(2,3)])
next
  fix ds assume ds: "s = ''printStatus '' @ ds" "ds \<noteq> []" "list_all (is_digit 10) ds"
  show thesis
  proof (cases "int (digits_val 10 ds) \<le> int32_max")
    case True
    with denotes.status [OF ds(2,3)] parse_status [OF ds(2,3)] show ?thesis
      by (intro that(1) [of "(plain PRINT_STATUS)\<lparr>ac_sequenceNum := int (digits_val 10 ds)\<rparr>"])
        (simp_all only: ds(1) if_True)
  next
    case False
    with parse_status [OF ds(2,3)] show ?thesis
      by (intro that(2) [OF ds]) (simp_all only: ds(1) if_False not_le)
  qed
qed

lemma parsed_exit:
  assumes "parseCommand s = Inr c" and "ac_command c = EXIT"
  shows "s = ''exit''"
proof -
  have "isValidCommand s" using assms(1) by (simp add: parseCommand_def split: if_splits)
  then show ?thesis
  proof (cases rule: valid_cases)
    case (denoted c')
    then have "denotes s c" using assms(1) by simp
    then show ?thesis by cases (use assms(2) in \<open>simp_all add: plain_def\<close>)
  next
    case (range ds)
    with assms(1) show ?thesis by simp
  qed
qed

lemma denotes_parse: "denotes s c \<Longrightarrow> parseCommand s = Ok c"
proof (induction rule: denotes.induct)
  case (log d)
  then show ?case by (rule parse_log)
next
  case (status ds)
  with parse_status [OF status(1,2)] show ?case by (simp only: if_True)
qed (simp_all only: parse_plain)

text \<open>
  C34: The parser accepts exactly the commands of the grammar, with the command they denote: one of
  five plain words, \<open>printLog\<close> with one of the servers S1 to S9, or \<open>printStatus\<close> with a sequence
  number that is an \<open>int\<close>.
\<close>

theorem parseCommand_accepts: "parseCommand s = Inr c \<longleftrightarrow> denotes s c"
proof
  assume p: "parseCommand s = Inr c"
  then have "isValidCommand s" by (auto simp: parseCommand_def split: if_splits)
  then show "denotes s c" by (rule valid_cases) (use p in simp_all)
qed (rule denotes_parse)

text \<open>
  What the parser throws. A string that matches no pattern is reported with its text; the only
  other exception is \<open>std::out_of_range\<close>, for \<open>printStatus\<close> with a number beyond \<open>int\<close>, which the
  pattern lets through.
\<close>

theorem parseCommand_rejects:
  "parseCommand s = Inl f \<longleftrightarrow>
     (if isValidCommand s
      then f = Thrown Std_out_of_range \<and> (\<exists>ds. s = ''printStatus '' @ ds \<and> list_all (is_digit 10) ds \<and>
             int32_max < int (digits_val 10 ds))
      else f = Thrown (Invalid_argument (''Invalid command: '' @ s)))"
proof (cases "isValidCommand s")
  case False
  then show ?thesis by (auto simp: parseCommand_def)
next
  case True
  then show ?thesis
  proof (rule valid_cases)
    fix c assume c: "denotes s c" "parseCommand s = Ok c"
    have "\<not> int32_max < int (digits_val 10 ds)" if "s = ''printStatus '' @ ds" "list_all (is_digit 10) ds" for ds
      using parse_status [OF _ that(2)] c(2) unfolding that(1)
      by (cases "ds = []") (auto simp: digits_val_def int32_max_def split: if_splits)
    then show ?thesis using c True by auto
  next
    fix ds assume "s = ''printStatus '' @ ds" "list_all (is_digit 10) ds" "int32_max < int (digits_val 10 ds)"
      and p: "parseCommand s = Fault (Thrown Std_out_of_range)"
    then have "\<exists>ds. s = ''printStatus '' @ ds \<and> list_all (is_digit 10) ds \<and> int32_max < int (digits_val 10 ds)"
      by blast
    with p True show ?thesis by (simp only: if_True) auto
  qed
qed

end
