(* ===== verification/Processes.thy ===== *)
theory Processes
  imports Messages Effects
begin

text \<open>
  The table of started processes (\<open>utils/utils.cc\<close>): starting and killing servers and clients. The
  operating system is represented by the children that have not been waited for, each with the
  program it runs, and by \<open>fork\<close>, which gives the result of the system call in a state: negative when
  it fails, otherwise the new child's process id. A child whose \<open>execl\<close> fails is not represented.
\<close>

section \<open>Data\<close>

text \<open>The arguments of the two programs. \<open>ps_forks\<close> records every child that was ever started, in order, with
  its process id, which the operating system may use again once a child has been waited for. No
  operation reads it.\<close>

datatype program = Server_program int string string bool | Client_program int string string

record procs =
  ps_serverPIDs :: "(string, int) smap"
  ps_clientPIDs :: "(string, int) smap"
  ps_children :: "(int, program) smap"
  ps_forks :: "(int \<times> program) list"

definition no_procs :: procs where
  "no_procs = \<lparr>ps_serverPIDs = [], ps_clientPIDs = [], ps_children = [], ps_forks = []\<rparr>"

text \<open>\<open>s[i]\<close>: the terminating null is at position \<open>size()\<close>, further positions are undefined.\<close>

definition string_at :: "string \<Rightarrow> nat \<Rightarrow> fault + char" where
  "string_at s i =
     (if i < length s then Ok (s ! i) else if i = length s then Ok (CHR 0x00) else Fault Out_of_bounds)"

text \<open>\<open>std::map::insert\<close> keeps an entry that exists.\<close>

definition sm_insert :: "'k::linorder \<Rightarrow> 'v \<Rightarrow> ('k, 'v) smap \<Rightarrow> ('k, 'v) smap" where
  "sm_insert k v m = (if sm_find m k = None then sm_put k v m else m)"

section \<open>Operations\<close>

definition startServer :: "(procs \<Rightarrow> int) \<Rightarrow> string \<Rightarrow> bool \<Rightarrow> procs \<Rightarrow> procs effect" where
  "startServer fork serverName isByzantine p =
     (case sm_find serverAddresses serverName of
        None \<Rightarrow> (Some (Thrown (Invalid_argument (''Invalid server name: '' @ serverName))), p)
      | Some targetAddress \<Rightarrow>
          if sm_find (ps_serverPIDs p) serverName = None then
            let pid = fork p
            in if pid < 0 then (Some (Thrown (Runtime_error (''Failed to start server: '' @ serverName))), p)
               else unchanged p (ebind (string_at serverName 1) (\<lambda>c.
                 let serverId = int (char_code c) - int (char_code (CHR ''1''));
                     child = Server_program serverId serverName targetAddress isByzantine
                 in Ok (p\<lparr>ps_serverPIDs := sm_insert serverName pid (ps_serverPIDs p),
                          ps_children := sm_put pid child (ps_children p), ps_forks := ps_forks p @ [(pid, child)]\<rparr>)))
          else (None, p))"

text \<open>A client that is in the table already is started all the same; its table entry stays.\<close>

definition startClient :: "(procs \<Rightarrow> int) \<Rightarrow> string \<Rightarrow> procs \<Rightarrow> procs effect" where
  "startClient fork clientName p =
     (case sm_find clientAddresses clientName of
        None \<Rightarrow> (Some (Thrown (Invalid_argument (''Invalid client name: '' @ clientName))), p)
      | Some targetAddress \<Rightarrow>
          let pid = fork p
          in if pid < 0 then (Some (Thrown (Runtime_error (''Failed to start client: '' @ clientName))), p)
             else unchanged p (ebind (string_at clientName 0) (\<lambda>c.
               let clientId = int (char_code c) - int (char_code (CHR ''A''));
                   child = Client_program clientId clientName targetAddress
               in Ok (p\<lparr>ps_clientPIDs := sm_insert clientName pid (ps_clientPIDs p),
                        ps_children := sm_put pid child (ps_children p), ps_forks := ps_forks p @ [(pid, child)]\<rparr>))))"

text \<open>\<open>kill\<close> and \<open>waitpid\<close> fail when the process is not a child.\<close>

definition is_child :: "int \<Rightarrow> procs \<Rightarrow> bool" where
  "is_child pid p \<longleftrightarrow> sm_find (ps_children p) pid \<noteq> None"

definition wait_child :: "int \<Rightarrow> string \<Rightarrow> procs \<Rightarrow> procs effect" where
  "wait_child pid message p =
     (if \<not> is_child pid p then (Some (Thrown (Runtime_error message)), p)
      else (None, p\<lparr>ps_children := sm_erase pid (ps_children p)\<rparr>))"

definition killServer :: "string \<Rightarrow> procs \<Rightarrow> procs effect" where
  "killServer serverName p =
     (case sm_find serverAddresses serverName of
        None \<Rightarrow> (Some (Thrown (Invalid_argument (''Invalid server name: '' @ serverName))), p)
      | Some a \<Rightarrow>
          (case sm_find (ps_serverPIDs p) serverName of
             None \<Rightarrow> (None, p)
           | Some pid \<Rightarrow>
               if \<not> is_child pid p
               then (Some (Thrown (Runtime_error (''Failed to kill server: '' @ serverName))), p)
               else wait_child pid (''waitpid failed for server: '' @ serverName)
                      (p\<lparr>ps_serverPIDs := sm_erase serverName (ps_serverPIDs p)\<rparr>)))"

text \<open>The iterator that \<open>find\<close> returned is used without a test for \<open>end()\<close>.\<close>

definition killClient :: "string \<Rightarrow> procs \<Rightarrow> procs effect" where
  "killClient clientName p =
     (case sm_find (ps_clientPIDs p) clientName of
        None \<Rightarrow> (Some Null_deref, p)
      | Some pid \<Rightarrow>
          if \<not> is_child pid p
          then (Some (Thrown (Runtime_error (''Failed to kill client: '' @ clientName))), p)
          else wait_child pid (''waitpid failed for client: '' @ clientName)
                 (p\<lparr>ps_clientPIDs := sm_erase clientName (ps_clientPIDs p)\<rparr>))"

definition killAllServers :: "procs \<Rightarrow> procs effect" where
  "killAllServers p = each_effect killServer serverNames p"

definition initializeClients :: "(procs \<Rightarrow> int) \<Rightarrow> procs \<Rightarrow> procs effect" where
  "initializeClients fork p = each_effect (startClient fork) (map fst clientAddresses) p"

definition killAllClients :: "procs \<Rightarrow> procs effect" where
  "killAllClients p = each_effect killClient (map fst clientAddresses) p"

section \<open>The invariant\<close>

text \<open>\<open>fork\<close> succeeds with an id that no child has.\<close>

definition fork_ok :: "(procs \<Rightarrow> int) \<Rightarrow> bool" where
  "fork_ok fork \<longleftrightarrow> (\<forall>p. 0 < fork p \<and> sm_find (ps_children p) (fork p) = None)"

text \<open>The tables and the children agree: each entry names the child that runs its program, and
  every server that is a child is in the table under its name. A client may be missing in its table: then
  it is an orphan.\<close>

definition procs_ok :: "procs \<Rightarrow> bool" where
  "procs_ok p \<longleftrightarrow> sm_wf (ps_serverPIDs p) \<and> sm_wf (ps_clientPIDs p) \<and> sm_wf (ps_children p) \<and>
     (\<forall>n pid. sm_find (ps_serverPIDs p) n = Some pid \<longrightarrow>
        n \<in> set serverNames \<and> (\<exists>i a b. sm_find (ps_children p) pid = Some (Server_program i n a b))) \<and>
     (\<forall>n pid. sm_find (ps_clientPIDs p) n = Some pid \<longrightarrow>
        n \<in> sm_keys clientAddresses \<and> (\<exists>i a. sm_find (ps_children p) pid = Some (Client_program i n a))) \<and>
     (\<forall>pid i n a b. sm_find (ps_children p) pid = Some (Server_program i n a b) \<longrightarrow>
        sm_find (ps_serverPIDs p) n = Some pid)"

definition no_orphans :: "procs \<Rightarrow> bool" where
  "no_orphans p \<longleftrightarrow> (\<forall>pid i n a. sm_find (ps_children p) pid = Some (Client_program i n a) \<longrightarrow>
     sm_find (ps_clientPIDs p) n = Some pid)"

lemma no_orphansD:
  "no_orphans p \<Longrightarrow> sm_find (ps_children p) pid = Some (Client_program i n a) \<Longrightarrow> sm_find (ps_clientPIDs p) n = Some pid"
  unfolding no_orphans_def by blast

text \<open>What runs, seen from outside: the servers with their modes, and the clients.\<close>

definition running_servers :: "procs \<Rightarrow> string \<Rightarrow> bool option" where
  "running_servers p n =
     (case sm_find (ps_serverPIDs p) n of
        None \<Rightarrow> None
      | Some pid \<Rightarrow> (case sm_find (ps_children p) pid of
          Some (Server_program i m a b) \<Rightarrow> Some b | _ \<Rightarrow> None))"

definition running_clients :: "procs \<Rightarrow> string set" where
  "running_clients p = sm_keys (ps_clientPIDs p)"

lemma procs_okD:
  assumes "procs_ok p"
  shows "sm_find (ps_serverPIDs p) n = Some pid \<Longrightarrow>
      n \<in> set serverNames \<and> (\<exists>i a b. sm_find (ps_children p) pid = Some (Server_program i n a b))"
    "sm_find (ps_clientPIDs p) n = Some pid \<Longrightarrow>
      n \<in> sm_keys clientAddresses \<and> (\<exists>i a. sm_find (ps_children p) pid = Some (Client_program i n a))"
    "sm_find (ps_children p) pid = Some (Server_program i n a b) \<Longrightarrow> sm_find (ps_serverPIDs p) n = Some pid"
  using assms unfolding procs_ok_def by blast+

lemma procs_okI:
  assumes "sm_wf (ps_serverPIDs p)" "sm_wf (ps_clientPIDs p)" "sm_wf (ps_children p)"
    "\<And>n pid. sm_find (ps_serverPIDs p) n = Some pid \<Longrightarrow>
      n \<in> set serverNames \<and> (\<exists>i a b. sm_find (ps_children p) pid = Some (Server_program i n a b))"
    "\<And>n pid. sm_find (ps_clientPIDs p) n = Some pid \<Longrightarrow>
      n \<in> sm_keys clientAddresses \<and> (\<exists>i a. sm_find (ps_children p) pid = Some (Client_program i n a))"
    "\<And>pid i n a b. sm_find (ps_children p) pid = Some (Server_program i n a b) \<Longrightarrow> sm_find (ps_serverPIDs p) n = Some pid"
  shows "procs_ok p"
  using assms unfolding procs_ok_def by blast

lemma procs_ok_wf: "procs_ok p \<Longrightarrow> sm_wf (ps_serverPIDs p) \<and> sm_wf (ps_clientPIDs p) \<and> sm_wf (ps_children p)"
  by (simp add: procs_ok_def)

text \<open>Removing a child together with its entry.\<close>

lemma erase_server_ok:
  assumes ok: "procs_ok p" and n: "sm_find (ps_serverPIDs p) n = Some pid"
    and q: "q = p\<lparr>ps_serverPIDs := sm_erase n (ps_serverPIDs p), ps_children := sm_erase pid (ps_children p)\<rparr>"
  shows "procs_ok q"
proof (rule procs_okI)
  obtain i a b where child: "sm_find (ps_children p) pid = Some (Server_program i n a b)"
    using procs_okD(1) [OF ok n] by blast
  note D = procs_okD [OF ok]
  show "m \<in> set serverNames \<and> (\<exists>i a b. sm_find (ps_children q) x = Some (Server_program i m a b))"
    if "sm_find (ps_serverPIDs q) m = Some x" for m x
    using that D(1) [of m x] child by (auto simp: q split: if_splits)
  show "m \<in> sm_keys clientAddresses \<and> (\<exists>i a. sm_find (ps_children q) x = Some (Client_program i m a))"
    if "sm_find (ps_clientPIDs q) m = Some x" for m x
    using that D(2) [of m x] child by (auto simp: q)
  show "sm_find (ps_serverPIDs q) m = Some x" if "sm_find (ps_children q) x = Some (Server_program j m c d)" for x j m c d
    using that D(3) [of x j m c d] n by (auto simp: q split: if_splits)
qed (use procs_ok_wf [OF ok] in \<open>simp_all add: q\<close>)

lemma erase_client_ok:
  assumes ok: "procs_ok p" and n: "sm_find (ps_clientPIDs p) n = Some pid"
    and q: "q = p\<lparr>ps_clientPIDs := sm_erase n (ps_clientPIDs p), ps_children := sm_erase pid (ps_children p)\<rparr>"
  shows "procs_ok q"
proof (rule procs_okI)
  obtain i a where child: "sm_find (ps_children p) pid = Some (Client_program i n a)"
    using procs_okD(2) [OF ok n] by blast
  note D = procs_okD [OF ok]
  show "m \<in> set serverNames \<and> (\<exists>i a b. sm_find (ps_children q) x = Some (Server_program i m a b))"
    if "sm_find (ps_serverPIDs q) m = Some x" for m x
    using that D(1) [of m x] child by (auto simp: q)
  show "m \<in> sm_keys clientAddresses \<and> (\<exists>i a. sm_find (ps_children q) x = Some (Client_program i m a))"
    if "sm_find (ps_clientPIDs q) m = Some x" for m x
    using that D(2) [of m x] child by (auto simp: q split: if_splits)
  show "sm_find (ps_serverPIDs q) m = Some x" if "sm_find (ps_children q) x = Some (Server_program j m c d)" for x j m c d
    using that D(3) [of x j m c d] by (simp add: q split: if_splits)
qed (use procs_ok_wf [OF ok] in \<open>simp_all add: q\<close>)

lemma no_procs_ok: "procs_ok no_procs" "no_orphans no_procs"
  by (simp_all add: procs_ok_def no_orphans_def no_procs_def)

text \<open>Orphans are neither made nor removed by what happens to servers; a client that is erased from its
  table together with its child leaves no new one.\<close>

lemma no_orphans_same:
  "(\<And>pid i n a. sm_find (ps_children q) pid = Some (Client_program i n a) \<longleftrightarrow>
      sm_find (ps_children p) pid = Some (Client_program i n a)) \<Longrightarrow>
     ps_clientPIDs q = ps_clientPIDs p \<Longrightarrow> no_orphans q = no_orphans p"
  by (simp add: no_orphans_def)

lemma no_orphans_erase:
  assumes ok: "procs_ok p" and n: "sm_find (ps_clientPIDs p) n = Some pid"
    and q: "q = p\<lparr>ps_clientPIDs := sm_erase n (ps_clientPIDs p), ps_children := sm_erase pid (ps_children p)\<rparr>"
  shows "no_orphans q = no_orphans p"
proof -
  obtain i a where child: "sm_find (ps_children p) pid = Some (Client_program i n a)"
    using procs_okD(2) [OF ok n] by blast
  have other: "m \<noteq> n" if "sm_find (ps_clientPIDs p) m = Some x" "x \<noteq> pid" for m x
    using that n by auto
  show ?thesis
  proof
    assume o: "no_orphans p"
    show "no_orphans q"
      unfolding no_orphans_def
    proof (intro allI impI)
      fix x j m c assume "sm_find (ps_children q) x = Some (Client_program j m c)"
      then have x: "x \<noteq> pid" "sm_find (ps_children p) x = Some (Client_program j m c)" by (auto simp: q split: if_splits)
      with no_orphansD [OF o x(2)] other [of m x] show "sm_find (ps_clientPIDs q) m = Some x" by (simp add: q)
    qed
  next
    assume o: "no_orphans q"
    show "no_orphans p"
      unfolding no_orphans_def
    proof (intro allI impI)
      fix x j m c assume x: "sm_find (ps_children p) x = Some (Client_program j m c)"
      show "sm_find (ps_clientPIDs p) m = Some x"
      proof (cases "x = pid")
        case True
        then show ?thesis using x child n by simp
      next
        case False
        then have "sm_find (ps_children q) x = Some (Client_program j m c)" using x by (simp add: q)
        from no_orphansD [OF o this] show ?thesis by (auto simp: q split: if_splits)
      qed
    qed
  qed
qed

lemma server_address: "sm_find serverAddresses n \<noteq> None \<longleftrightarrow> n \<in> set serverNames"
proof -
  have "fst ` set serverAddresses = set serverNames" by (auto simp: serverAddresses_def serverNames_def)
  then show ?thesis by (simp add: map_of_eq_None_iff)
qed

lemma string_at_Ok: "i \<le> length s \<Longrightarrow> \<exists>c. string_at s i = Inr c"
  by (auto simp: string_at_def)

lemma server_name_at: "n \<in> set serverNames \<Longrightarrow> \<exists>c. string_at n 1 = Inr c"
  by (rule string_at_Ok) (auto simp: serverNames_def)

lemma running_None: "procs_ok p \<Longrightarrow> running_servers p n = None \<longleftrightarrow> sm_find (ps_serverPIDs p) n = None"
  using procs_okD(1) [of p n] by (fastforce simp: running_servers_def split: option.splits)

text \<open>Starting a server.\<close>

lemma startServer_effect:
  assumes ok: "procs_ok p" and f: "fork_ok fork" and n: "n \<in> set serverNames"
  shows "\<exists>q. startServer fork n b p = (None, q) \<and> procs_ok q \<and> ps_clientPIDs q = ps_clientPIDs p \<and>
    no_orphans q = no_orphans p \<and> running_servers q = (if running_servers p n = None then (running_servers p)(n := Some b) else running_servers p)"
proof (cases "sm_find (ps_serverPIDs p) n")
  case (Some pid)
  with n ok running_None [OF ok, of n] server_address [of n] show ?thesis
    by (auto simp: startServer_def)
next
  case None
  obtain a where a: "sm_find serverAddresses n = Some a" using n server_address by fastforce
  obtain c where c: "string_at n 1 = Inr c" using server_name_at [OF n] by blast
  define pid where "pid = fork p"
  define i where "i = int (char_code c) - int (char_code (CHR ''1''))"
  have fresh: "0 < pid" "sm_find (ps_children p) pid = None" using f by (simp_all add: fork_ok_def pid_def)
  define q where "q = p\<lparr>ps_serverPIDs := sm_put n pid (ps_serverPIDs p),
      ps_children := sm_put pid (Server_program i n a b) (ps_children p),
      ps_forks := ps_forks p @ [(pid, Server_program i n a b)]\<rparr>"
  have st: "startServer fork n b p = (None, q)"
    using a c None fresh by (simp add: startServer_def Let_def sm_insert_def q_def i_def flip: pid_def)
  have other: "sm_find (ps_serverPIDs p) m \<noteq> Some pid" "sm_find (ps_clientPIDs p) m \<noteq> Some pid" for m
    using procs_okD(1,2) [OF ok, of m pid] fresh(2) by auto
  have "procs_ok q"
    using ok None n fresh other procs_okD [OF ok]
    by (auto simp: procs_ok_def q_def split: if_splits)
  moreover have "running_servers q = (running_servers p)(n := Some b)"
  proof
    fix m show "running_servers q m = ((running_servers p)(n := Some b)) m"
      using other(1) [of m] by (auto simp: running_servers_def q_def split: option.splits)
  qed
  moreover have "running_servers p n = None" using None by (simp add: running_servers_def)
  moreover have "no_orphans q = no_orphans p"
    using fresh(2) by (intro no_orphans_same) (auto simp: q_def)
  ultimately show ?thesis using st by (auto simp: q_def)
qed

lemma startServers_effect:
  assumes "procs_ok p" and f: "fork_ok fork" and "set ns \<subseteq> set serverNames"
  shows "\<exists>q. each_effect (\<lambda>n. startServer fork n b) ns p = (None, q) \<and> procs_ok q \<and> ps_clientPIDs q = ps_clientPIDs p \<and>
    no_orphans q = no_orphans p \<and> running_servers q = (\<lambda>n. if running_servers p n = None \<and> n \<in> set ns then Some b else running_servers p n)"
  using assms(1,3)
proof (induction ns arbitrary: p)
  case (Cons m ns)
  obtain q where q: "startServer fork m b p = (None, q)" "procs_ok q" "ps_clientPIDs q = ps_clientPIDs p"
    "no_orphans q = no_orphans p" "running_servers q = (if running_servers p m = None then (running_servers p)(m := Some b) else running_servers p)"
    using startServer_effect [OF Cons.prems(1) f, of m b] Cons.prems(2) by auto
  obtain r where "each_effect (\<lambda>n. startServer fork n b) ns q = (None, r)" "procs_ok r" "ps_clientPIDs r = ps_clientPIDs q"
    "no_orphans r = no_orphans q" "running_servers r = (\<lambda>n. if running_servers q n = None \<and> n \<in> set ns then Some b else running_servers q n)"
    using Cons.IH [OF q(2)] Cons.prems(2) by auto
  with q show ?case by (intro exI [of _ r]) (auto simp: fun_eq_iff)
qed simp

text \<open>Killing a server.\<close>

lemma killServer_effect:
  assumes ok: "procs_ok p" and n: "n \<in> set serverNames"
  shows "\<exists>q. killServer n p = (None, q) \<and> procs_ok q \<and> ps_clientPIDs q = ps_clientPIDs p \<and>
    no_orphans q = no_orphans p \<and> running_servers q = (running_servers p)(n := None)"
proof (cases "sm_find (ps_serverPIDs p) n")
  case None
  then have "running_servers p = (running_servers p)(n := None)" by (auto simp: running_servers_def)
  with None ok n server_address [of n] show ?thesis by (auto simp: killServer_def)
next
  case (Some pid)
  obtain i a b where child: "sm_find (ps_children p) pid = Some (Server_program i n a b)"
    using procs_okD(1) [OF ok Some] by blast
  define q where "q = p\<lparr>ps_serverPIDs := sm_erase n (ps_serverPIDs p), ps_children := sm_erase pid (ps_children p)\<rparr>"
  have "killServer n p = (None, q)"
    using Some child n server_address [of n] by (auto simp: killServer_def is_child_def wait_child_def q_def)
  moreover have "procs_ok q" by (rule erase_server_ok [OF ok Some q_def])
  moreover have "running_servers q = (running_servers p)(n := None)"
  proof
    fix m show "running_servers q m = ((running_servers p)(n := None)) m"
      using procs_okD(1) [OF ok, of m pid] child by (auto simp: running_servers_def q_def split: option.splits)
  qed
  moreover have "no_orphans q = no_orphans p"
    using child by (intro no_orphans_same) (auto simp: q_def)
  ultimately show ?thesis by (auto simp: q_def)
qed

lemma killServers_effect:
  assumes "procs_ok p" and "set ns \<subseteq> set serverNames"
  shows "\<exists>q. each_effect killServer ns p = (None, q) \<and> procs_ok q \<and> ps_clientPIDs q = ps_clientPIDs p \<and>
    no_orphans q = no_orphans p \<and> running_servers q = (\<lambda>n. if n \<in> set ns then None else running_servers p n)"
  using assms
proof (induction ns arbitrary: p)
  case (Cons m ns)
  obtain q where q: "killServer m p = (None, q)" "procs_ok q" "ps_clientPIDs q = ps_clientPIDs p"
    "no_orphans q = no_orphans p" "running_servers q = (running_servers p)(m := None)"
    using killServer_effect [OF Cons.prems(1), of m] Cons.prems(2) by auto
  obtain r where "each_effect killServer ns q = (None, r)" "procs_ok r" "ps_clientPIDs r = ps_clientPIDs q"
    "no_orphans r = no_orphans q" "running_servers r = (\<lambda>n. if n \<in> set ns then None else running_servers q n)"
    using Cons.IH [OF q(2)] Cons.prems(2) by auto
  with q show ?case by (intro exI [of _ r]) (auto simp: fun_eq_iff)
qed simp

lemma killAllServers_effect:
  assumes "procs_ok p"
  shows "\<exists>q. killAllServers p = (None, q) \<and> procs_ok q \<and> ps_clientPIDs q = ps_clientPIDs p \<and>
    no_orphans q = no_orphans p \<and> ps_serverPIDs q = []"
proof -
  obtain q where q: "killAllServers p = (None, q)" "procs_ok q" "ps_clientPIDs q = ps_clientPIDs p"
    "no_orphans q = no_orphans p"
    "running_servers q = (\<lambda>n. if n \<in> set serverNames then None else running_servers p n)"
    using killServers_effect [OF assms] unfolding killAllServers_def by blast
  have "sm_find (ps_serverPIDs q) n = None" for n
    using q(5) procs_okD(1) [OF q(2), of n] running_None [OF q(2), of n] by (cases "sm_find (ps_serverPIDs q) n") auto
  then have "ps_serverPIDs q = []" by (metis map_of_eq_None_iff list.set_intros(1) imageI neq_Nil_conv)
  with q show ?thesis by blast
qed

text \<open>Clients.\<close>

lemma startClient_effect:
  assumes ok: "procs_ok p" and f: "fork_ok fork" and n: "n \<in> sm_keys clientAddresses"
  shows "\<exists>q. startClient fork n p = (None, q) \<and> procs_ok q \<and> running_servers q = running_servers p \<and>
    ps_serverPIDs q = ps_serverPIDs p \<and> running_clients q = insert n (running_clients p) \<and>
    no_orphans q = (no_orphans p \<and> n \<notin> running_clients p)"
proof -
  obtain a where a: "sm_find clientAddresses n = Some a" using n by (auto simp: sm_keys_find)
  obtain c where c: "string_at n 0 = Inr c" using string_at_Ok by blast
  define pid where "pid = fork p"
  define i where "i = int (char_code c) - int (char_code (CHR ''A''))"
  have fresh: "0 < pid" "sm_find (ps_children p) pid = None" using f by (simp_all add: fork_ok_def pid_def)
  define q where "q = p\<lparr>ps_clientPIDs := sm_insert n pid (ps_clientPIDs p),
      ps_children := sm_put pid (Client_program i n a) (ps_children p),
      ps_forks := ps_forks p @ [(pid, Client_program i n a)]\<rparr>"
  have st: "startClient fork n p = (None, q)"
    using a c fresh by (simp add: startClient_def Let_def q_def i_def flip: pid_def)
  have other: "sm_find (ps_serverPIDs p) m \<noteq> Some pid" "sm_find (ps_clientPIDs p) m \<noteq> Some pid" for m
    using procs_okD(1,2) [OF ok, of m pid] fresh(2) by auto
  have "procs_ok q"
    using ok n fresh other procs_okD [OF ok]
    by (auto simp: procs_ok_def q_def sm_insert_def split: if_splits)
  moreover have "running_servers q = running_servers p"
  proof
    fix m show "running_servers q m = running_servers p m"
      using other(1) [of m] by (auto simp: running_servers_def q_def split: option.splits)
  qed
  moreover have "running_clients q = insert n (running_clients p)"
    by (auto simp: running_clients_def q_def sm_insert_def sm_keys_find)
  moreover have "no_orphans q = (no_orphans p \<and> n \<notin> running_clients p)"
  proof
    assume o: "no_orphans q"
    have "sm_find (ps_children q) pid = Some (Client_program i n a)" by (simp add: q_def)
    from no_orphansD [OF o this] have None: "sm_find (ps_clientPIDs p) n = None"
      using other(2) [of n] by (auto simp: q_def sm_insert_def split: if_splits)
    have "sm_find (ps_clientPIDs p) m = Some x" if "sm_find (ps_children p) x = Some (Client_program j m c)" for x j m c
      using no_orphansD [OF o, of x j m c] that fresh(2) None by (cases "x = pid") (auto simp: q_def sm_insert_def split: if_splits)
    then show "no_orphans p \<and> n \<notin> running_clients p"
      using None by (simp add: no_orphans_def running_clients_def sm_keys_find)
  next
    assume o: "no_orphans p \<and> n \<notin> running_clients p"
    then have None: "sm_find (ps_clientPIDs p) n = None" by (simp add: running_clients_def sm_keys_find)
    show "no_orphans q"
      unfolding no_orphans_def
    proof (intro allI impI)
      fix x j m c assume x: "sm_find (ps_children q) x = Some (Client_program j m c)"
      show "sm_find (ps_clientPIDs q) m = Some x"
      proof (cases "x = pid")
        case True
        with x None show ?thesis by (simp add: q_def sm_insert_def)
      next
        case False
        with x have "sm_find (ps_clientPIDs p) m = Some x"
          using o by (intro no_orphansD [of p x j m c]) (simp_all add: q_def)
        with None show ?thesis by (auto simp: q_def sm_insert_def)
      qed
    qed
  qed
  ultimately show ?thesis using st by (auto simp: q_def)
qed

lemma startClients_effect:
  assumes "procs_ok p" and f: "fork_ok fork" and "set ns \<subseteq> sm_keys clientAddresses" and "distinct ns"
  shows "\<exists>q. each_effect (startClient fork) ns p = (None, q) \<and> procs_ok q \<and> running_servers q = running_servers p \<and>
    ps_serverPIDs q = ps_serverPIDs p \<and> running_clients q = set ns \<union> running_clients p \<and>
    no_orphans q = (no_orphans p \<and> set ns \<inter> running_clients p = {})"
  using assms(1,3,4)
proof (induction ns arbitrary: p)
  case (Cons m ns)
  obtain q where q: "startClient fork m p = (None, q)" "procs_ok q" "running_servers q = running_servers p"
    "ps_serverPIDs q = ps_serverPIDs p" "running_clients q = insert m (running_clients p)"
    "no_orphans q = (no_orphans p \<and> m \<notin> running_clients p)"
    using startClient_effect [OF Cons.prems(1) f, of m] Cons.prems by auto
  obtain r where "each_effect (startClient fork) ns q = (None, r)" "procs_ok r" "running_servers r = running_servers q"
    "ps_serverPIDs r = ps_serverPIDs q" "running_clients r = set ns \<union> running_clients q"
    "no_orphans r = (no_orphans q \<and> set ns \<inter> running_clients q = {})"
    using Cons.IH [OF q(2)] Cons.prems q(5) by auto
  with q Cons.prems(3) show ?case by (intro exI [of _ r]) auto
qed simp

lemma killClient_effect:
  assumes ok: "procs_ok p" and n: "n \<in> running_clients p"
  shows "\<exists>q. killClient n p = (None, q) \<and> procs_ok q \<and> running_servers q = running_servers p \<and>
    ps_serverPIDs q = ps_serverPIDs p \<and> running_clients q = running_clients p - {n} \<and>
    no_orphans q = no_orphans p"
proof -
  obtain pid where pid: "sm_find (ps_clientPIDs p) n = Some pid" using n by (auto simp: running_clients_def sm_keys_find)
  obtain i a where child: "sm_find (ps_children p) pid = Some (Client_program i n a)"
    using procs_okD(2) [OF ok pid] by blast
  define q where "q = p\<lparr>ps_clientPIDs := sm_erase n (ps_clientPIDs p), ps_children := sm_erase pid (ps_children p)\<rparr>"
  have "killClient n p = (None, q)"
    using pid child by (simp add: killClient_def is_child_def wait_child_def q_def)
  moreover have "procs_ok q" by (rule erase_client_ok [OF ok pid q_def])
  moreover have "running_servers q = running_servers p"
  proof
    fix m show "running_servers q m = running_servers p m"
      using procs_okD(1) [OF ok, of m pid] child by (auto simp: running_servers_def q_def split: option.splits)
  qed
  moreover have "running_clients q = running_clients p - {n}" by (simp add: running_clients_def q_def)
  moreover have "no_orphans q = no_orphans p" by (rule no_orphans_erase [OF ok pid q_def])
  ultimately show ?thesis by (auto simp: q_def)
qed

lemma killClients_effect:
  assumes "procs_ok p" and "set ns \<subseteq> running_clients p" and "distinct ns"
  shows "\<exists>q. each_effect killClient ns p = (None, q) \<and> procs_ok q \<and> running_servers q = running_servers p \<and>
    ps_serverPIDs q = ps_serverPIDs p \<and> running_clients q = running_clients p - set ns \<and>
    no_orphans q = no_orphans p"
  using assms
proof (induction ns arbitrary: p)
  case (Cons m ns)
  obtain q where q: "killClient m p = (None, q)" "procs_ok q" "running_servers q = running_servers p"
    "ps_serverPIDs q = ps_serverPIDs p" "running_clients q = running_clients p - {m}"
    "no_orphans q = no_orphans p"
    using killClient_effect [OF Cons.prems(1), of m] Cons.prems(2) by auto
  obtain r where "each_effect killClient ns q = (None, r)" "procs_ok r" "running_servers r = running_servers q"
    "ps_serverPIDs r = ps_serverPIDs q" "running_clients r = running_clients q - set ns"
    "no_orphans r = no_orphans q"
    using Cons.IH [OF q(2)] Cons.prems q(5) by auto
  with q show ?case by (intro exI [of _ r]) auto
qed simp

text \<open>Starting servers by any names: an unknown name ends it with an exception that gives the name.\<close>

lemma startServer_left:
  assumes "startServer fork n b p = (r, q)" and ok: "procs_ok p" and f: "fork_ok fork"
  shows "procs_ok q \<and> ps_clientPIDs q = ps_clientPIDs p \<and> no_orphans q = no_orphans p \<and>
    r = (if n \<in> set serverNames then None else Some (Thrown (Invalid_argument (''Invalid server name: '' @ n))))"
proof (cases "n \<in> set serverNames")
  case True
  from startServer_effect [OF ok f this, of b] assms(1) True show ?thesis by auto
next
  case False
  then have "sm_find serverAddresses n = None" using server_address [of n] by auto
  with False assms ok show ?thesis by (auto simp: startServer_def)
qed

lemma startServers_left:
  assumes "each_effect (\<lambda>n. startServer fork n b) ns p = (r, q)" and "procs_ok p" and f: "fork_ok fork"
  shows "procs_ok q \<and> ps_clientPIDs q = ps_clientPIDs p \<and> no_orphans q = no_orphans p \<and>
    r = (case filter (\<lambda>n. n \<notin> set serverNames) ns of [] \<Rightarrow> None
         | n # _ \<Rightarrow> Some (Thrown (Invalid_argument (''Invalid server name: '' @ n))))"
  using assms(1,2)
proof (induction ns arbitrary: p)
  case (Cons m ns)
  obtain x t where m: "startServer fork m b p = (x, t)" by (cases "startServer fork m b p")
  note l = startServer_left [OF m Cons.prems(2) f]
  show ?case
  proof (cases "m \<in> set serverNames")
    case True
    then have "each_effect (\<lambda>n. startServer fork n b) ns t = (r, q)" using Cons.prems(1) l by (simp add: m)
    from Cons.IH [OF this] l True show ?thesis by simp
  next
    case False
    then show ?thesis using Cons.prems(1) l by (simp add: m)
  qed
qed simp

section \<open>Fresh processes and orphans\<close>

text \<open>The clients, or servers, in the table were all started after the first \<open>k\<close> forks.\<close>

definition fresh_clients :: "nat \<Rightarrow> procs \<Rightarrow> bool" where
  "fresh_clients k p \<longleftrightarrow> k \<le> length (ps_forks p) \<and> (\<forall>n pid. sm_find (ps_clientPIDs p) n = Some pid \<longrightarrow>
     (\<exists>i a. sm_find (ps_children p) pid = Some (Client_program i n a) \<and> (pid, Client_program i n a) \<in> set (drop k (ps_forks p))))"

definition fresh_servers :: "nat \<Rightarrow> procs \<Rightarrow> bool" where
  "fresh_servers k p \<longleftrightarrow> k \<le> length (ps_forks p) \<and> (\<forall>n pid. sm_find (ps_serverPIDs p) n = Some pid \<longrightarrow>
     (\<exists>i a b. sm_find (ps_children p) pid = Some (Server_program i n a b) \<and> (pid, Server_program i n a b) \<in> set (drop k (ps_forks p))))"

text \<open>A client of this name runs that its table does not know.\<close>

definition orphaned :: "string \<Rightarrow> procs \<Rightarrow> bool" where
  "orphaned n p \<longleftrightarrow> (\<exists>pid i a. sm_find (ps_children p) pid = Some (Client_program i n a) \<and> sm_find (ps_clientPIDs p) n \<noteq> Some pid)"

text \<open>An orphan stays one if it runs on and does not get into the table.\<close>

lemma orphaned_kept:
  assumes "orphaned n p"
    and "\<And>pid i a. sm_find (ps_children p) pid = Some (Client_program i n a) \<Longrightarrow> sm_find (ps_clientPIDs p) n \<noteq> Some pid \<Longrightarrow>
      sm_find (ps_children q) pid = Some (Client_program i n a) \<and> sm_find (ps_clientPIDs q) n \<noteq> Some pid"
  shows "orphaned n q"
  using assms unfolding orphaned_def by blast

lemma startServer_keeps:
  assumes "fork_ok fork"
  shows "fresh_clients k p \<Longrightarrow> fresh_clients k (snd (startServer fork n b p))"
    "fresh_servers k p \<Longrightarrow> fresh_servers k (snd (startServer fork n b p))"
    "orphaned m p \<Longrightarrow> orphaned m (snd (startServer fork n b p))"
proof -
  have new: "sm_find (ps_children p) (fork p) = None" using assms by (simp add: fork_ok_def)
  show "fresh_clients k p \<Longrightarrow> fresh_clients k (snd (startServer fork n b p))"
    using new by (fastforce simp: startServer_def fresh_clients_def Let_def split: option.split ebind_split)
  show "fresh_servers k p \<Longrightarrow> fresh_servers k (snd (startServer fork n b p))"
    using new by (fastforce simp: startServer_def fresh_servers_def Let_def sm_insert_def split: option.split ebind_split)
  show "orphaned m p \<Longrightarrow> orphaned m (snd (startServer fork n b p))"
    using new by (elim orphaned_kept) (auto simp: startServer_def Let_def  split: option.split ebind_split)
qed

lemma startClient_keeps:
  assumes "fork_ok fork"
  shows "fresh_clients k p \<Longrightarrow> fresh_clients k (snd (startClient fork n p))"
    "orphaned m p \<Longrightarrow> orphaned m (snd (startClient fork n p))"
proof -
  have new: "sm_find (ps_children p) (fork p) = None" using assms by (simp add: fork_ok_def)
  show "fresh_clients k p \<Longrightarrow> fresh_clients k (snd (startClient fork n p))"
    using new by (fastforce simp: startClient_def fresh_clients_def Let_def sm_insert_def split: option.split ebind_split)
  show "orphaned m p \<Longrightarrow> orphaned m (snd (startClient fork n p))"
    using new by (elim orphaned_kept) (auto simp: startClient_def Let_def sm_insert_def split: option.split ebind_split)
qed

text \<open>A client started in place of one that runs is an orphan.\<close>

lemma startClient_orphans:
  assumes ok: "procs_ok p" and f: "fork_ok fork" and n: "n \<in> running_clients p"
  shows "orphaned n (snd (startClient fork n p))"
proof -
  have new: "sm_find (ps_children p) (fork p) = None" "0 < fork p" using f by (simp_all add: fork_ok_def)
  obtain pid where pid: "sm_find (ps_clientPIDs p) n = Some pid" using n by (auto simp: running_clients_def sm_keys_find)
  obtain a where a: "sm_find clientAddresses n = Some a" using procs_okD(2) [OF ok pid] by (auto simp: sm_keys_find)
  obtain c where c: "string_at n 0 = Inr c" using string_at_Ok by blast
  have "pid \<noteq> fork p" using procs_okD(2) [OF ok pid] new(1) by auto
  then show ?thesis using a c new pid by (auto simp: startClient_def orphaned_def Let_def sm_insert_def)
qed

lemma killServer_keeps:
  assumes ok: "procs_ok p"
  shows "fresh_clients k p \<Longrightarrow> fresh_clients k (snd (killServer n p))"
    "orphaned m p \<Longrightarrow> orphaned m (snd (killServer n p))" "ps_forks (snd (killServer n p)) = ps_forks p"
proof -
  have server: "\<exists>i a b. sm_find (ps_children p) pid = Some (Server_program i n a b)" if "sm_find (ps_serverPIDs p) n = Some pid" for pid
    using procs_okD(1) [OF ok that] by blast
  show "fresh_clients k p \<Longrightarrow> fresh_clients k (snd (killServer n p))"
    using server by (fastforce simp: killServer_def wait_child_def is_child_def fresh_clients_def split: option.split)
  show "orphaned m p \<Longrightarrow> orphaned m (snd (killServer n p))"
    using server by (elim orphaned_kept) (auto simp: killServer_def wait_child_def is_child_def Let_def  split: option.split)
  show "ps_forks (snd (killServer n p)) = ps_forks p"
    by (simp add: killServer_def wait_child_def split: option.split)
qed

lemma killClient_keeps:
  assumes ok: "procs_ok p"
  shows "orphaned m p \<Longrightarrow> orphaned m (snd (killClient n p))" "ps_forks (snd (killClient n p)) = ps_forks p"
proof -
  have client: "\<exists>i a. sm_find (ps_children p) pid = Some (Client_program i n a)" if "sm_find (ps_clientPIDs p) n = Some pid" for pid
    using procs_okD(2) [OF ok that] by blast
  show "orphaned m p \<Longrightarrow> orphaned m (snd (killClient n p))"
    using client by (elim orphaned_kept) (auto simp: killClient_def wait_child_def is_child_def Let_def  split: option.split)
  show "ps_forks (snd (killClient n p)) = ps_forks p"
    by (simp add: killClient_def wait_child_def split: option.split)
qed

text \<open>Over a list of names.\<close>

lemma each_keeps:
  assumes "procs_ok p" and "X p"
    and "\<And>n q. n \<in> set ns \<Longrightarrow> procs_ok q \<Longrightarrow> procs_ok (snd (f n q))"
    and "\<And>n q. n \<in> set ns \<Longrightarrow> procs_ok q \<Longrightarrow> X q \<Longrightarrow> X (snd (f n q))"
  shows "X (snd (each_effect f ns p))"
  using each_effect_invariant [of "\<lambda>q. procs_ok q \<and> X q" p ns f] assms by blast

lemma startServer_ok: "procs_ok p \<Longrightarrow> fork_ok fork \<Longrightarrow> procs_ok (snd (startServer fork n b p))"
  using startServer_left [of fork n b p] by (cases "startServer fork n b p") auto

lemma startClient_ok: "procs_ok p \<Longrightarrow> fork_ok fork \<Longrightarrow> n \<in> sm_keys clientAddresses \<Longrightarrow> procs_ok (snd (startClient fork n p))"
  using startClient_effect [of p fork n] by auto

lemma killServer_ok: "procs_ok p \<Longrightarrow> n \<in> set serverNames \<Longrightarrow> procs_ok (snd (killServer n p))"
  using killServer_effect [of p n] by auto

lemma killClient_ok:
  assumes "procs_ok p"
  shows "procs_ok (snd (killClient n p))"
proof (cases "n \<in> running_clients p")
  case True
  obtain q where "killClient n p = (None, q)" "procs_ok q" using killClient_effect [OF assms True] by blast
  then show ?thesis by simp
next
  case False
  with assms show ?thesis by (simp add: killClient_def running_clients_def sm_keys_find)
qed

lemma startServers_keep:
  assumes "procs_ok p" and f: "fork_ok fork"
  shows "fresh_clients k p \<Longrightarrow> fresh_clients k (snd (each_effect (\<lambda>n. startServer fork n b) ns p))"
    "fresh_servers k p \<Longrightarrow> fresh_servers k (snd (each_effect (\<lambda>n. startServer fork n b) ns p))"
    "orphaned m p \<Longrightarrow> orphaned m (snd (each_effect (\<lambda>n. startServer fork n b) ns p))"
proof -
  note keeps = each_keeps [OF assms(1), of _ ns "\<lambda>n. startServer fork n b"]
  show "fresh_clients k p \<Longrightarrow> fresh_clients k (snd (each_effect (\<lambda>n. startServer fork n b) ns p))"
    by (rule keeps [of "fresh_clients k"]) (use f in \<open>simp_all add: startServer_ok startServer_keeps\<close>)
  show "fresh_servers k p \<Longrightarrow> fresh_servers k (snd (each_effect (\<lambda>n. startServer fork n b) ns p))"
    by (rule keeps [of "fresh_servers k"]) (use f in \<open>simp_all add: startServer_ok startServer_keeps\<close>)
  show "orphaned m p \<Longrightarrow> orphaned m (snd (each_effect (\<lambda>n. startServer fork n b) ns p))"
    by (rule keeps [of "orphaned m"]) (use f in \<open>simp_all add: startServer_ok startServer_keeps\<close>)
qed

lemma killAllServers_keeps:
  assumes "procs_ok p"
  shows "fresh_clients k p \<Longrightarrow> fresh_clients k (snd (killAllServers p))"
    "orphaned m p \<Longrightarrow> orphaned m (snd (killAllServers p))"
proof -
  note keeps = each_keeps [OF assms, of _ serverNames killServer]
  show "fresh_clients k p \<Longrightarrow> fresh_clients k (snd (killAllServers p))"
    unfolding killAllServers_def by (rule keeps [of "fresh_clients k"]) (simp_all add: killServer_ok killServer_keeps)
  show "orphaned m p \<Longrightarrow> orphaned m (snd (killAllServers p))"
    unfolding killAllServers_def by (rule keeps [of "orphaned m"]) (simp_all add: killServer_ok killServer_keeps)
qed

lemma killAllClients_keeps:
  assumes "procs_ok p"
  shows "orphaned m p \<Longrightarrow> orphaned m (snd (killAllClients p))" "ps_forks (snd (killAllClients p)) = ps_forks p"
proof -
  note keeps = each_keeps [OF assms, of _ "map fst clientAddresses" killClient]
  show "orphaned m p \<Longrightarrow> orphaned m (snd (killAllClients p))"
    unfolding killAllClients_def by (rule keeps [of "orphaned m"]) (simp_all add: killClient_ok killClient_keeps)
  show "ps_forks (snd (killAllClients p)) = ps_forks p"
    unfolding killAllClients_def by (rule keeps [of "\<lambda>q. ps_forks q = ps_forks p"]) (simp_all add: killClient_ok killClient_keeps)
qed

lemma client_keys: "set (map fst clientAddresses) = sm_keys clientAddresses"
  by (simp add: sm_keys_def)

lemma startClients_keep:
  assumes "procs_ok p" and f: "fork_ok fork" and ns: "set ns \<subseteq> sm_keys clientAddresses"
  shows "fresh_clients k p \<Longrightarrow> fresh_clients k (snd (each_effect (startClient fork) ns p))"
    "orphaned m p \<Longrightarrow> orphaned m (snd (each_effect (startClient fork) ns p))"
proof -
  note keeps = each_keeps [OF assms(1), of _ ns "startClient fork"]
  have names: "n \<in> sm_keys clientAddresses" if "n \<in> set ns" for n using that ns by blast
  show "fresh_clients k p \<Longrightarrow> fresh_clients k (snd (each_effect (startClient fork) ns p))"
    by (rule keeps [of "fresh_clients k"]) (use f in \<open>simp_all add: startClient_ok startClient_keeps names\<close>)
  show "orphaned m p \<Longrightarrow> orphaned m (snd (each_effect (startClient fork) ns p))"
    by (rule keeps [of "orphaned m"]) (use f in \<open>simp_all add: startClient_ok startClient_keeps names\<close>)
qed

lemma startClients_orphans:
  assumes "procs_ok p" and f: "fork_ok fork" and "set ns \<subseteq> sm_keys clientAddresses" and "n \<in> set ns" and "n \<in> running_clients p"
  shows "orphaned n (snd (each_effect (startClient fork) ns p))"
  using assms(1,3-5)
proof (induction ns arbitrary: p)
  case (Cons m ns)
  obtain q where q: "startClient fork m p = (None, q)" "procs_ok q" "running_clients q = insert m (running_clients p)"
    using startClient_effect [OF Cons.prems(1) f, of m] Cons.prems(2) by auto
  show ?case
  proof (cases "n \<in> set ns")
    case True
    with Cons.IH [OF q(2)] Cons.prems q show ?thesis by simp
  next
    case False
    then have "orphaned n q" using startClient_orphans [OF Cons.prems(1) f Cons.prems(4)] Cons.prems(3) q(1) by simp
    with startClients_keep(2) [OF q(2) f, of ns n] Cons.prems(2) q(1) show ?thesis by simp
  qed
qed simp

end
