(* ===== verification/Driver.thy ===== *)
theory Driver
  imports Complex_Main Client Commands Processes Component
begin

text \<open>
  The interactive driver (\<open>driver.cc\<close>) and the calls it makes to servers and clients
  (\<open>app_client.cc\<close>): reading the next transaction set, restarting the processes, sending the
  transactions, and printing what the servers report.
\<close>

section \<open>Data\<close>

record PbftLogEntry =
  pe_t :: Transaction
  pe_matchingPrepares :: int
  pe_matchingCommits :: int
  pe_valid :: bool

record ServerInfo =
  si_lastCommitted :: int
  si_lastExecuted :: int
  si_lastCheckpoint :: int
  si_lastStableCheckpoint :: int

record ViewChangeInfo =
  vi_viewNum :: int
  vi_stableCheckpoint :: int
  vi_initiator :: string

text \<open>
  What the servers answer, by the index of the stub: \<open>None\<close> stands for a call that fails or misses its
  deadline. A \<open>double\<close> is a rational number; \<open>nt_show\<close> prints the quotient of the two numbers that
  \<open>GetPerformance\<close> divides (the divisor may be 0).
\<close>

record net =
  nt_log :: "int \<Rightarrow> GetLogRes option"
  nt_db :: "int \<Rightarrow> int list option"
  nt_status :: "int \<Rightarrow> int \<Rightarrow> string option"
  nt_views :: "int \<Rightarrow> ViewChangesResEntry list option"
  nt_performance :: "int \<Rightarrow> rat option"
  nt_show :: "rat \<times> int \<Rightarrow> string"

section \<open>AppClient\<close>

text \<open>The stubs, each as the address it leads to, in the order of the address tables.\<close>

record app_client =
  ac_serverStubs :: "string list"
  ac_clientStubs :: "string list"
  ac_rpcTimeoutSeconds :: int

definition AppClient :: app_client where
  "AppClient = \<lparr>ac_serverStubs = map snd serverAddresses, ac_clientStubs = map snd clientAddresses,
     ac_rpcTimeoutSeconds = 2\<rparr>"

definition transaction_msg :: "Transaction \<Rightarrow> TransactionMsg" where
  "transaction_msg t = \<lparr>tx_sender = t_sender t, tx_receiver = t_receiver t, tx_amount = t_amount t\<rparr>"

text \<open>The calls that \<open>ProcessTransactions\<close> makes, one per client stub; their status is not looked at.\<close>

definition ProcessTransactions :: "Transaction list \<Rightarrow> (int \<times> TransactionMsg list) list" where
  "ProcessTransactions ts = map (\<lambda>j. (j, map transaction_msg ts)) [0..num_clients - 1]"

definition server_index :: "string \<Rightarrow> fault + int" where
  "server_index name = ebind (string_at name 1) (\<lambda>c. Ok (int (char_code c) - int (char_code (CHR ''1''))))"

fun log_entries :: "int \<Rightarrow> LogEntry list \<Rightarrow> PbftLogEntry list" where
  "log_entries i [] = []"
| "log_entries i (e # es) =
     \<lparr>pe_t = \<lparr>t_id = i, t_sender = td_sender (le_t e), t_receiver = td_receiver (le_t e), t_amount = td_amount (le_t e)\<rparr>,
      pe_matchingPrepares = le_matching_prepares e, pe_matchingCommits = le_matching_commits e,
      pe_valid = le_valid e\<rparr> # log_entries (i + 1) es"

definition GetLogs :: "net \<Rightarrow> string \<Rightarrow> PbftLogEntry list \<Rightarrow> ServerInfo \<Rightarrow> fault + PbftLogEntry list \<times> ServerInfo" where
  "GetLogs N server logs info =
     ebind (server_index server) (\<lambda>i. ebind (serverStub i) (\<lambda>j.
       case nt_log N j of
         None \<Rightarrow> Ok (logs, info)
       | Some reply \<Rightarrow>
           Ok (logs @ log_entries 0 (gl_entries reply),
               \<lparr>si_lastCommitted = gl_last_committed reply, si_lastExecuted = gl_last_executed reply,
                si_lastCheckpoint = gl_last_checkpoint reply,
                si_lastStableCheckpoint = gl_last_stable_checkpoint reply\<rparr>)))"

text \<open>A row of \<open>GetDb\<close>: \<open>reply.balances(j)\<close> for every client.\<close>

primrec db_row :: "int list \<Rightarrow> int list \<Rightarrow> fault + string list" where
  "db_row r [] = Ok []"
| "db_row r (j # js) = ebind (vec_get r j) (\<lambda>b. ebind (db_row r js) (\<lambda>rest. Ok (to_string b # rest)))"

primrec db_rows :: "net \<Rightarrow> int list \<Rightarrow> fault + string list list" where
  "db_rows N [] = Ok []"
| "db_rows N (i # is) =
     ebind (serverStub i) (\<lambda>j.
     ebind (case nt_db N j of
              Some r \<Rightarrow> db_row r [0..num_clients - 1]
            | None \<Rightarrow> Ok (map (\<lambda>_. ''-'') [0..num_clients - 1])) (\<lambda>r.
     ebind (db_rows N is) (\<lambda>rest. Ok (r # rest))))"

definition GetDb :: "net \<Rightarrow> string list list \<Rightarrow> fault + string list list" where
  "GetDb N db = ebind (db_rows N [0..int (length serverNames) - 1]) (\<lambda>rows. Ok (db @ rows))"

definition app_GetStatus :: "net \<Rightarrow> int \<Rightarrow> string list \<Rightarrow> string list" where
  "app_GetStatus N seqNum status =
     status @ map (\<lambda>i. case nt_status N i seqNum of Some s \<Rightarrow> s | None \<Rightarrow> ''-'') [0..num_servers - 1]"

text \<open>The second component is what the call prints when it fails.\<close>

definition app_GetViewChanges :: "net \<Rightarrow> string \<Rightarrow> fault + ViewChangeInfo list \<times> string list" where
  "app_GetViewChanges N server =
     ebind (server_index server) (\<lambda>i. ebind (serverStub i) (\<lambda>j.
       case nt_views N j of
         Some es \<Rightarrow> Ok (map (\<lambda>e. \<lparr>vi_viewNum = ve_view_num e, vi_stableCheckpoint = ve_stable_checkpoint e,
                                  vi_initiator = ve_initiator e\<rparr>) es, [])
       | None \<Rightarrow> Ok ([], [''GetViewChanges RPC failed''])))"

fun add_performance :: "rat option \<Rightarrow> rat \<times> int \<Rightarrow> rat \<times> int" where
  "add_performance (Some r) (res, count) = (if 0 < r then (res + r, count + 1) else (res, count))"
| "add_performance None acc = acc"

definition app_GetPerformance :: "net \<Rightarrow> rat \<times> int" where
  "app_GetPerformance N = fold (\<lambda>i. add_performance (nt_performance N i)) [0..num_servers - 1] (0, 0)"

section \<open>Printing\<close>

text \<open>\<open>std::setw\<close>: blanks on the left.\<close>

definition setw :: "nat \<Rightarrow> string \<Rightarrow> string" where
  "setw n s = replicate (n - length s) (CHR '' '') @ s"

definition set_header :: "int \<Rightarrow> string" where
  "set_header setNo = ''===== Set number '' @ to_string setNo @ '' =====''"

definition cells :: "(PbftLogEntry \<Rightarrow> string) \<Rightarrow> PbftLogEntry list \<Rightarrow> string" where
  "cells f logs = concat (map (\<lambda>e. setw 10 (f e) @ ''|'') logs)"

definition print_logs :: "int \<Rightarrow> string \<Rightarrow> PbftLogEntry list \<Rightarrow> ServerInfo \<Rightarrow> string list" where
  "print_logs setNo name logs info =
     [set_header setNo,
      ''Log on '' @ name @ '': '',
      setw 20 ''index|'' @ cells (\<lambda>e. to_string (t_id (pe_t e))) logs,
      setw 20 ''transaction|'' @ cells (\<lambda>e. ''('' @ t_sender (pe_t e) @ '', '' @ t_receiver (pe_t e) @ '', '' @
        to_string (t_amount (pe_t e)) @ '')'') logs,
      setw 20 ''prepares|'' @ cells (\<lambda>e. to_string (pe_matchingPrepares e)) logs,
      setw 20 ''commits|'' @ cells (\<lambda>e. to_string (pe_matchingCommits e)) logs,
      setw 20 ''valid(Y/N)|'' @ cells (\<lambda>e. if pe_valid e then ''Y'' else ''N'') logs,
      ''Last executed: '' @ to_string (si_lastExecuted info),
      ''Last stable checkpoint: '' @ to_string (si_lastStableCheckpoint info)]"

text \<open>\<open>db[i][j]\<close> for the rows and columns of the two address tables.\<close>

primrec db_cells :: "string list \<Rightarrow> int list \<Rightarrow> fault + string" where
  "db_cells r [] = Ok []"
| "db_cells r (j # js) =
     ebind (vec_get r j) (\<lambda>b. ebind (db_cells r js) (\<lambda>rest. Ok (setw 5 b @ ''|'' @ rest)))"

primrec db_lines :: "string list list \<Rightarrow> int list \<Rightarrow> fault + string list" where
  "db_lines db [] = Ok []"
| "db_lines db (i # is) =
     ebind (vec_get db i) (\<lambda>r.
     ebind (db_cells r [0..num_clients - 1]) (\<lambda>cs.
     ebind (db_lines db is) (\<lambda>rest. Ok ((setw 10 (''S'' @ to_string (i + 1)) @ ''|'' @ cs) # rest))))"

definition print_db :: "int \<Rightarrow> string list list \<Rightarrow> fault + string list" where
  "print_db setNo db =
     ebind (db_lines db [0..num_servers - 1]) (\<lambda>lines.
       Ok ([set_header setNo, ''DB:'',
            setw 11 ''Server|'' @ concat (map (\<lambda>i. setw 5 [char_of (65 + nat i)] @ ''|'') [0..num_clients - 1])] @
           lines @ [[]]))"

primrec status_cells :: "string list \<Rightarrow> int list \<Rightarrow> fault + string" where
  "status_cells status [] = Ok []"
| "status_cells status (i # is) =
     ebind (vec_get status i) (\<lambda>s. ebind (status_cells status is) (\<lambda>rest. Ok (setw 10 s @ ''|'' @ rest)))"

definition print_status :: "int \<Rightarrow> string list \<Rightarrow> fault + string list" where
  "print_status setNo status =
     ebind (status_cells status [0..num_servers - 1]) (\<lambda>cs.
       Ok [set_header setNo,
           setw 10 ''Server'' @ ''|'' @ concat (map (\<lambda>i. setw 10 (''S'' @ to_string (i + 1)) @ ''|'') [0..num_servers - 1]),
           setw 10 [] @ ''|'' @ cs])"

definition print_views :: "ViewChangeInfo list \<Rightarrow> string list" where
  "print_views vs =
     [setw 21 ''View num|'' @ setw 20 ''Initiator|'' @ setw 20 ''Last st. CP''] @
     map (\<lambda>v. setw 20 (to_string (vi_viewNum v)) @ ''|'' @ setw 20 (vi_initiator v @ ''|'') @
              setw 20 (to_string (vi_stableCheckpoint v))) vs @ [[]]"

section \<open>The main loop\<close>

text \<open>The variables of \<open>mainloop\<close>. \<open>setNo\<close> and the members of \<open>info\<close> have whatever value memory held
  until they are assigned.\<close>

record driver =
  dr_reader :: CSVReader
  dr_procs :: procs
  dr_set :: TransactionSet
  dr_setNo :: int
  dr_firstSet :: bool
  dr_serverName :: string
  dr_info :: ServerInfo
  dr_out :: "string list"
  dr_err :: "cpp_exn list"
  dr_calls :: "(int \<times> TransactionMsg list) list"

definition say :: "string list \<Rightarrow> driver \<Rightarrow> driver" where
  "say lines d = d\<lparr>dr_out := dr_out d @ lines\<rparr>"

text \<open>The processes of a new set: a command that throws leaves those that were started.\<close>

definition start_set :: "(procs \<Rightarrow> int) \<Rightarrow> bool \<Rightarrow> TransactionSet \<Rightarrow> procs \<Rightarrow> procs effect" where
  "start_set fork firstSet s p =
     andThen (if \<not> firstSet then killAllClients p else (None, p)) (\<lambda>p1.
     andThen (initializeClients fork p1) (\<lambda>p2.
     andThen (if \<not> firstSet then killAllServers p2 else (None, p2)) (\<lambda>p3.
     andThen (each_effect (\<lambda>n. startServer fork n True) (ts_byzantineServers s) p3) (\<lambda>p4.
       each_effect (\<lambda>n q. if n \<notin> set (ts_byzantineServers s) then startServer fork n False q else (None, q))
         (ts_aliveServers s) p4))))"

definition process_next_set :: "(procs \<Rightarrow> int) \<Rightarrow> driver \<Rightarrow> driver effect" where
  "process_next_set fork d =
     (let (n, s, reader) = readNextSet (dr_set d) (dr_reader d);
          d1 = d\<lparr>dr_set := s, dr_reader := reader\<rparr>
      in case n of
           Inl f \<Rightarrow> (Some f, d1)
         | Inr n \<Rightarrow>
             if n = 0 then (None, say [''No more transaction sets to read...''] d1)
             else (case start_set fork (dr_firstSet d1) s (dr_procs d1) of
                 (Some f, p) \<Rightarrow> (Some f, d1\<lparr>dr_setNo := ts_setNo s, dr_procs := p\<rparr>)
               | (None, p) \<Rightarrow>
                   (None, d1\<lparr>dr_setNo := ts_setNo s, dr_procs := p,
                            dr_calls := dr_calls d1 @ ProcessTransactions (ts_transactions s)\<rparr>)))"

text \<open>The first alive server that is not Byzantine.\<close>

definition pick_server :: "TransactionSet \<Rightarrow> string \<Rightarrow> string" where
  "pick_server s old =
     (case filter (\<lambda>n. n \<notin> set (ts_byzantineServers s)) (ts_aliveServers s) of [] \<Rightarrow> old | n # ns \<Rightarrow> n)"

text \<open>The switch, without the flag \<open>exit\<close>, which the last command sets. The commands that only ask and
  print change nothing before they can fail.\<close>

definition run_command :: "(procs \<Rightarrow> int) \<Rightarrow> net \<Rightarrow> AppCommand \<Rightarrow> driver \<Rightarrow> driver effect" where
  "run_command fork N c d =
     (case ac_command c of
        PROCESS_NEXT_SET \<Rightarrow> process_next_set fork d
      | PRINT_LOG \<Rightarrow>
          unchanged d (ebind (GetLogs N (ac_serverName c) [] (dr_info d)) (\<lambda>(logs, info).
            Ok (say (print_logs (dr_setNo d) (ac_serverName c) logs info) (d\<lparr>dr_info := info\<rparr>))))
      | PRINT_DB \<Rightarrow>
          unchanged d (ebind (GetDb N []) (\<lambda>db. ebind (print_db (dr_setNo d) db) (\<lambda>lines. Ok (say lines d))))
      | PRINT_STATUS \<Rightarrow>
          unchanged d (ebind (print_status (dr_setNo d) (app_GetStatus N (ac_sequenceNum c) [])) (\<lambda>lines. Ok (say lines d)))
      | PRINT_VIEW \<Rightarrow>
          let name = pick_server (dr_set d) (dr_serverName d)
          in unchanged d (ebind (app_GetViewChanges N name) (\<lambda>(vs, err).
               Ok (say ([set_header (dr_setNo d), ''querying '' @ name @ '' for view changes''] @ err @ print_views vs)
                     (d\<lparr>dr_serverName := name\<rparr>))))
      | PRINT_PERFORMANCE \<Rightarrow>
          (None, say [set_header (dr_setNo d), nt_show N (app_GetPerformance N) @ '' transactions/second''] d)
      | EXIT \<Rightarrow>
          let d1 = say [''Exiting...''] d; (r, p) = andThen (killAllServers (dr_procs d1)) killAllClients
          in (r, d1\<lparr>dr_procs := p\<rparr>))"

text \<open>
  One round of the loop, after the prompt. A malformed command is reported; an exception of the parser
  that is not \<open>std::invalid_argument\<close> leaves \<open>mainloop\<close>. An exception of the command is reported, and
  \<open>firstSet\<close> keeps its value then.
\<close>

datatype round = Next driver | Return driver | Throw cpp_exn driver

definition report :: "cpp_exn \<Rightarrow> driver \<Rightarrow> driver" where
  "report e d = d\<lparr>dr_err := dr_err d @ [e]\<rparr>"

definition loop_round :: "(procs \<Rightarrow> int) \<Rightarrow> net \<Rightarrow> string \<Rightarrow> driver \<Rightarrow> fault + round" where
  "loop_round fork N command d =
     (case parseCommand command of
        Inl (Thrown (Invalid_argument m)) \<Rightarrow> Ok (Next (say [''Invalid command. Try again. ''] d))
      | Inl (Thrown x) \<Rightarrow> Ok (Throw x d)
      | Inl f \<Rightarrow> Fault f
      | Inr c \<Rightarrow>
          (case run_command fork N c d of
             (Some (Thrown x), e) \<Rightarrow> Ok (Next (report x e))
           | (Some f, e) \<Rightarrow> Fault f
           | (None, e) \<Rightarrow>
               let e' = (if dr_firstSet e then e\<lparr>dr_firstSet := False\<rparr> else e)
               in Ok (if ac_command c = EXIT then Return e' else Next e')))"

definition new_driver :: "CSVReader \<Rightarrow> int \<Rightarrow> ServerInfo \<Rightarrow> driver" where
  "new_driver reader junk info =
     \<lparr>dr_reader = reader, dr_procs = no_procs, dr_set = empty_set, dr_setNo = junk, dr_firstSet = True,
      dr_serverName = [], dr_info = info, dr_out = [], dr_err = [], dr_calls = []\<rparr>"


text \<open>The loop, for at most \<open>k\<close> rounds: the standard input, the variable \<open>command\<close>, which keeps its value
  from one round to the next, and what the servers answer in each round.\<close>

primrec mainloop ::
  "nat \<Rightarrow> (procs \<Rightarrow> int) \<Rightarrow> (nat \<Rightarrow> net) \<Rightarrow> input_stream \<Rightarrow> string \<Rightarrow> driver \<Rightarrow> fault + round" where
  "mainloop 0 fork Ns stdin command d = Ok (Next d)"
| "mainloop (Suc k) fork Ns stdin command d =
     (let (command', stdin') = promptUserForCommand stdin command
      in ebind (loop_round fork (Ns k) command' (say prompt_text d)) (\<lambda>r.
           case r of Next e \<Rightarrow> mainloop k fork Ns stdin' command' e | _ \<Rightarrow> Ok r))"

text \<open>\<open>main\<close>: the arguments without the program's name, the contents of the files that can be opened,
  the characters on the standard input, and the values that \<open>setNo\<close> and \<open>info\<close> happen to have. The result is the exit status, or \<open>None\<close> while the
  loop goes on, and what is left.\<close>

definition driver_main ::
  "nat \<Rightarrow> (procs \<Rightarrow> int) \<Rightarrow> (nat \<Rightarrow> net) \<Rightarrow> (string \<Rightarrow> string list option) \<Rightarrow> int \<Rightarrow> ServerInfo \<Rightarrow> string list \<Rightarrow>
     string \<Rightarrow> fault + int option \<times> driver option" where
  "driver_main k fork Ns files junk info args stdin =
     (case args of
        [] \<Rightarrow> Ok (Some 1, None)
      | filename # _ \<Rightarrow>
          (case new_CSVReader filename (files filename) of
             Inl f \<Rightarrow> Ok (Some 1, None)
           | Inr reader \<Rightarrow>
               ebind (mainloop k fork Ns \<lparr>in_chars = stdin, in_good = True\<rparr> [] (new_driver reader junk info)) (\<lambda>r.
                 Ok (case r of Next d \<Rightarrow> (None, Some d) | Return d \<Rightarrow> (Some 0, Some d)
                     | Throw x d \<Rightarrow> (Some 1, Some (report x d))))))"

section \<open>Runs of the driver\<close>

definition driver_init :: "CSVReader \<Rightarrow> driver \<Rightarrow> bool" where
  "driver_init reader d \<longleftrightarrow> (\<exists>junk info. d = new_driver reader junk info)"

definition driver_step :: "(procs \<Rightarrow> int) \<Rightarrow> string \<Rightarrow> driver \<Rightarrow> driver \<Rightarrow> bool" where
  "driver_step fork command d e \<longleftrightarrow> (\<exists>N. loop_round fork N command d = Inr (Next e))"

abbreviation driver_run :: "(procs \<Rightarrow> int) \<Rightarrow> CSVReader \<Rightarrow> string list \<Rightarrow> driver \<Rightarrow> bool" where
  "driver_run fork reader \<equiv> run_of (driver_init reader) (driver_step fork)"

text \<open>
  The invariant: the tables and the children agree; either all the clients are in the table or none;
  and as long as no exception was reported, there are no orphans and nothing runs before the first set.
\<close>

definition driver_inv :: "string list \<Rightarrow> driver \<Rightarrow> bool" where
  "driver_inv commands d \<longleftrightarrow> procs_ok (dr_procs d) \<and>
     (running_clients (dr_procs d) = {} \<or> running_clients (dr_procs d) = sm_keys clientAddresses) \<and>
     (dr_calls d \<noteq> [] \<longrightarrow> running_clients (dr_procs d) = sm_keys clientAddresses) \<and>
     (dr_err d = [] \<longrightarrow> no_orphans (dr_procs d) \<and>
        (dr_firstSet d \<or> dr_calls d = [] \<longrightarrow> dr_procs d = no_procs \<and> dr_calls d = []))"

lemma all_clients: "[0..num_clients - 1] = [0, 1, 2, 3, 4, 5, 6, 7, 8, 9]"
  by code_simp

lemma client_names: "distinct (map fst clientAddresses)" "set (map fst clientAddresses) = sm_keys clientAddresses"
  "clientAddresses \<noteq> []"
  by (simp_all add: clientAddresses_def sm_keys_def)

lemma running_no_procs: "running_servers no_procs = (\<lambda>n. None)" "running_clients no_procs = {}"
  by (auto simp: running_servers_def running_clients_def no_procs_def sm_keys_def)

lemma no_servers: "ps_serverPIDs p = [] \<Longrightarrow> running_servers p = (\<lambda>n. None)"
  by (auto simp: running_servers_def)

definition modes :: "TransactionSet \<Rightarrow> string \<Rightarrow> bool option" where
  "modes s n = (if n \<in> set (ts_byzantineServers s) then Some True
                else if n \<in> set (ts_aliveServers s) then Some False else None)"

text \<open>The last two loops, and the name that ends them.\<close>

definition start_servers :: "(procs \<Rightarrow> int) \<Rightarrow> TransactionSet \<Rightarrow> procs \<Rightarrow> procs effect" where
  "start_servers fork s p =
     andThen (each_effect (\<lambda>n. startServer fork n True) (ts_byzantineServers s) p)
       (each_effect (\<lambda>n q. if n \<notin> set (ts_byzantineServers s) then startServer fork n False q else (None, q))
         (ts_aliveServers s))"

definition unknown_server :: "TransactionSet \<Rightarrow> fault option" where
  "unknown_server s =
     (case filter (\<lambda>n. n \<notin> set serverNames) (ts_byzantineServers s @ ts_aliveServers s) of [] \<Rightarrow> None
      | n # _ \<Rightarrow> Some (Thrown (Invalid_argument (''Invalid server name: '' @ n))))"

lemma unknown_server_None:
  "unknown_server s = None \<longleftrightarrow> set (ts_byzantineServers s) \<subseteq> set serverNames \<and> set (ts_aliveServers s) \<subseteq> set serverNames"
proof -
  have "unknown_server s = None \<longleftrightarrow> filter (\<lambda>n. n \<notin> set serverNames) (ts_byzantineServers s @ ts_aliveServers s) = []"
    unfolding unknown_server_def by (auto split: list.splits)
  then show ?thesis by (auto simp: filter_empty_conv)
qed


lemma filter_unknown:
  "list_all (\<lambda>n. n \<in> set serverNames) bs \<Longrightarrow>
     filter (\<lambda>n. n \<notin> set serverNames) (filter (\<lambda>n. n \<notin> set bs) ns) = filter (\<lambda>n. n \<notin> set serverNames) ns"
  by (auto simp: list_all_iff intro: filter_cong)

lemma start_servers_left:
  assumes st: "start_servers fork s p = (r, q)" and ok: "procs_ok p" and f: "fork_ok fork"
  shows "procs_ok q \<and> ps_clientPIDs q = ps_clientPIDs p \<and> no_orphans q = no_orphans p \<and> r = unknown_server s"
proof -
  obtain x t where b: "each_effect (\<lambda>n. startServer fork n True) (ts_byzantineServers s) p = (x, t)"
    by (cases "each_effect (\<lambda>n. startServer fork n True) (ts_byzantineServers s) p")
  note l = startServers_left [OF b ok f]
  show ?thesis
  proof (cases "filter (\<lambda>n. n \<notin> set serverNames) (ts_byzantineServers s)")
    case (Cons n ns)
    then show ?thesis using st l by (auto simp: start_servers_def b unknown_server_def)
  next
    case Nil
    then have all: "list_all (\<lambda>n. n \<in> set serverNames) (ts_byzantineServers s)"
      by (auto simp: filter_empty_conv list_all_iff)
    have "each_effect (\<lambda>n. startServer fork n False) (filter (\<lambda>n. n \<notin> set (ts_byzantineServers s)) (ts_aliveServers s)) t = (r, q)"
      using st l Nil by (simp add: start_servers_def b each_effect_filter)
    from startServers_left [OF this _ f] l Nil show ?thesis
      unfolding filter_unknown [OF all] by (simp add: unknown_server_def)
  qed
qed

text \<open>The servers of a set, started from a state in which no server runs.\<close>

lemma start_servers_effect:
  assumes ok: "procs_ok p" and f: "fork_ok fork" and none: "ps_serverPIDs p = []"
    and names: "set (ts_byzantineServers s) \<subseteq> set serverNames"
      "set (ts_aliveServers s) \<subseteq> set serverNames"
  shows "\<exists>q. start_servers fork s p = (None, q) \<and> procs_ok q \<and> ps_clientPIDs q = ps_clientPIDs p \<and>
    running_servers q = modes s"
proof -
  obtain q where q: "each_effect (\<lambda>n. startServer fork n True) (ts_byzantineServers s) p = (None, q)" "procs_ok q"
    "ps_clientPIDs q = ps_clientPIDs p"
    "running_servers q = (\<lambda>n. if n \<in> set (ts_byzantineServers s) then Some True else None)"
    using startServers_effect [OF ok f names(1), of True] no_servers [OF none] by (auto cong: if_cong)
  define alive where "alive = filter (\<lambda>n. n \<notin> set (ts_byzantineServers s)) (ts_aliveServers s)"
  have "set alive \<subseteq> set serverNames" using names(2) by (auto simp: alive_def)
  from startServers_effect [OF q(2) f this, of False] obtain r where
    r: "each_effect (\<lambda>n. startServer fork n False) alive q = (None, r)" "procs_ok r" "ps_clientPIDs r = ps_clientPIDs q"
    "running_servers r = (\<lambda>n. if running_servers q n = None \<and> n \<in> set alive then Some False else running_servers q n)"
    by blast
  have "running_servers r = modes s"
    unfolding r(4) q(4) by (auto simp: modes_def alive_def fun_eq_iff)
  with q r show ?thesis by (intro exI [of _ r]) (simp add: start_servers_def each_effect_filter flip: alive_def)
qed

text \<open>The processes of a set: all clients, and the servers up to the first unknown name.\<close>

lemma killAllClients_none:
  assumes "running_clients p = {}"
  shows "killAllClients p = (Some Null_deref, p)"
proof -
  obtain n ns where n: "map fst clientAddresses = n # ns" by (rule that [of "''A''" "map fst (tl clientAddresses)"]) (simp add: clientAddresses_def)
  have "sm_find (ps_clientPIDs p) n = None"
    using assms sm_keys_find [of n "ps_clientPIDs p"] by (simp add: running_clients_def)
  then show ?thesis by (simp add: killAllClients_def n killClient_def)
qed

lemma killAllClients_all:
  assumes "procs_ok p" and "running_clients p = sm_keys clientAddresses"
  shows "\<exists>q. killAllClients p = (None, q) \<and> procs_ok q \<and> ps_serverPIDs q = ps_serverPIDs p \<and>
    running_clients q = {} \<and> no_orphans q = no_orphans p"
  using killClients_effect [OF assms(1) _ client_names(1)] assms(2) client_names(2)
  unfolding killAllClients_def by auto

lemma initializeClients_effect:
  assumes "procs_ok p" and "fork_ok fork" and "running_clients p = {} \<or> running_clients p = sm_keys clientAddresses"
  shows "\<exists>q. initializeClients fork p = (None, q) \<and> procs_ok q \<and> ps_serverPIDs q = ps_serverPIDs p \<and>
    running_clients q = sm_keys clientAddresses \<and> no_orphans q = (no_orphans p \<and> running_clients p = {})"
proof -
  have ne: "sm_keys clientAddresses \<noteq> {}" by (simp add: clientAddresses_def sm_keys_def)
  show ?thesis
    using startClients_effect [OF assms(1,2) _ client_names(1)] client_names(2) assms(3) ne
    unfolding initializeClients_def by (auto simp: Int_absorb)
qed

lemma start_set_left:
  assumes st: "start_set fork firstSet s p = (r, q)" and ok: "procs_ok p" and f: "fork_ok fork"
    and start: "running_clients p = {} \<or> running_clients p = sm_keys clientAddresses"
  shows "if \<not> firstSet \<and> running_clients p = {} then r = Some Null_deref else
    procs_ok q \<and> running_clients q = sm_keys clientAddresses \<and> r = unknown_server s \<and>
    no_orphans q = (no_orphans p \<and> (firstSet \<longrightarrow> running_clients p = {})) \<and>
    (unknown_server s = None \<and> (firstSet \<longrightarrow> ps_serverPIDs p = []) \<longrightarrow> running_servers q = modes s)"
proof (cases "\<not> firstSet \<and> running_clients p = {}")
  case True
  with st killAllClients_none [of p] show ?thesis by (simp add: start_set_def)
next
  case False
  obtain p1 where p1: "(if \<not> firstSet then killAllClients p else (None, p)) = (None, p1)" "procs_ok p1"
    "ps_serverPIDs p1 = ps_serverPIDs p" "no_orphans p1 = no_orphans p"
    "running_clients p1 = (if firstSet then running_clients p else {})"
    using killAllClients_all [OF ok] False start ok by (cases firstSet) auto
  have cl: "running_clients p1 = {} \<or> running_clients p1 = sm_keys clientAddresses"
    using p1(5) start by simp
  obtain p2 where p2: "initializeClients fork p1 = (None, p2)" "procs_ok p2"
    "ps_serverPIDs p2 = ps_serverPIDs p1" "running_clients p2 = sm_keys clientAddresses"
    "no_orphans p2 = (no_orphans p1 \<and> running_clients p1 = {})"
    using initializeClients_effect [OF p1(2) f cl] by blast
  obtain p3 where p3: "(if \<not> firstSet then killAllServers p2 else (None, p2)) = (None, p3)" "procs_ok p3"
    "ps_clientPIDs p3 = ps_clientPIDs p2" "no_orphans p3 = no_orphans p2" "firstSet \<longrightarrow> p3 = p2"
    "\<not> firstSet \<longrightarrow> ps_serverPIDs p3 = []"
    using killAllServers_effect [OF p2(2)] p2(2) by (cases firstSet) auto
  have rest: "start_servers fork s p3 = (r, q)"
    using st unfolding start_set_def start_servers_def p1(1) andThen_simps p2(1) p3(1) .
  note l = start_servers_left [OF rest p3(2) f]
  have "running_servers q = modes s" if "unknown_server s = None" "firstSet \<longrightarrow> ps_serverPIDs p = []"
  proof -
    have "ps_serverPIDs p3 = []" using that(2) p3(5,6) p2(3) p1(3) by (cases firstSet) auto
    from start_servers_effect [OF p3(2) f this, of s] that(1) rest show ?thesis
      unfolding unknown_server_None by auto
  qed
  moreover have "running_clients q = sm_keys clientAddresses" using l p3(3) p2(4) by (simp add: running_clients_def)
  ultimately show ?thesis using False l p3(4) p2(5) p1(4,5) by auto
qed






lemma ProcessTransactions_calls:
  "ProcessTransactions ts = map (\<lambda>j. (j, map transaction_msg ts)) [0, 1, 2, 3, 4, 5, 6, 7, 8, 9]"
  by (simp only: ProcessTransactions_def all_clients)

text \<open>What one command does to the processes and to the calls: nothing, unless it starts a set.\<close>

lemma exit_throws_not:
  assumes "driver_inv cs d" and "run_command fork N c d = (Some (Thrown x), e)"
  shows "ac_command c \<noteq> EXIT"
proof
  assume c: "ac_command c = EXIT"
  have ok: "procs_ok (dr_procs d)" using assms(1) by (simp add: driver_inv_def)
  obtain p where p: "killAllServers (dr_procs d) = (None, p)" "procs_ok p" "ps_clientPIDs p = ps_clientPIDs (dr_procs d)"
    using killAllServers_effect [OF ok] by blast
  have cl: "running_clients p = {} \<or> running_clients p = sm_keys clientAddresses"
    using assms(1) p(3) by (simp add: driver_inv_def running_clients_def)
  have "fst (killAllClients p) \<noteq> Some (Thrown x)"
    using cl killAllClients_none [of p] killAllClients_all [OF p(2)] by auto
  then show False
    using assms(2) c p(1) by (auto simp: run_command_def say_def split: prod.splits)
qed

lemma loop_round_cases:
  assumes "loop_round fork N command d = Inr (Next e)" and inv: "driver_inv cs d"
  obtains (same) "dr_procs e = dr_procs d" "dr_calls e = dr_calls d" "dr_firstSet e \<longrightarrow> dr_firstSet d"
      "dr_err e = [] \<longrightarrow> dr_err d = []"
  | (set) n s r p where "readNextSet (dr_set d) (dr_reader d) = (Inr n, s, r)" "n \<noteq> 0"
      "start_set fork (dr_firstSet d) s (dr_procs d) = (None, p)" "dr_procs e = p"
      "dr_calls e = dr_calls d @ ProcessTransactions (ts_transactions s)" "\<not> dr_firstSet e" "dr_err e = dr_err d"
  | (broken) n s r x p where "readNextSet (dr_set d) (dr_reader d) = (Inr n, s, r)" "n \<noteq> 0"
      "start_set fork (dr_firstSet d) s (dr_procs d) = (Some (Thrown x), p)" "dr_procs e = p"
      "dr_calls e = dr_calls d" "dr_firstSet e = dr_firstSet d" "dr_err e = dr_err d @ [x]"
proof (cases "parseCommand command")
  case (Inl f)
  show ?thesis
  proof (rule same)
    show "dr_procs e = dr_procs d" "dr_calls e = dr_calls d" "dr_firstSet e \<longrightarrow> dr_firstSet d"
      "dr_err e = [] \<longrightarrow> dr_err d = []"
      using assms Inl by (auto simp: loop_round_def say_def split: fault.splits cpp_exn.splits)
  qed
next
  case (Inr c)
  obtain t b where b: "run_command fork N c d = (t, b)" by (cases "run_command fork N c d")
  have h: "(\<exists>x. t = Some (Thrown x) \<and> e = report x b) \<or>
      t = None \<and> ac_command c \<noteq> EXIT \<and> e = b\<lparr>dr_firstSet := False\<rparr>"
    using assms Inr by (auto simp: loop_round_def b Let_def split: option.splits fault.splits if_splits)
  show ?thesis
  proof (cases "ac_command c = PROCESS_NEXT_SET")
    case True
    then have run: "process_next_set fork d = (t, b)" using b by (simp add: run_command_def)
    obtain n s r where n: "readNextSet (dr_set d) (dr_reader d) = (n, s, r)"
      by (cases "readNextSet (dr_set d) (dr_reader d)")
    show ?thesis
    proof (cases "\<exists>m. n = Inr m \<and> m \<noteq> 0")
      case False
      with run n have "dr_procs b = dr_procs d \<and> dr_calls b = dr_calls d \<and> dr_firstSet b = dr_firstSet d \<and>
          dr_err b = dr_err d"
        by (cases n) (auto simp: process_next_set_def Let_def say_def)
      with h show ?thesis by (intro same) (auto simp: report_def)
    next
      case True
      then obtain m where m: "n = Inr m" "m \<noteq> 0" by blast
      obtain u p where p: "start_set fork (dr_firstSet d) s (dr_procs d) = (u, p)"
        by (cases "start_set fork (dr_firstSet d) s (dr_procs d)")
      show ?thesis
      proof (cases u)
        case None
        with run n m p h show ?thesis by (intro set [of m s r p]) (auto simp: process_next_set_def Let_def)
      next
        case (Some f)
        with run n m p have "t = Some f" "b = d\<lparr>dr_set := s, dr_reader := r, dr_setNo := ts_setNo s, dr_procs := p\<rparr>"
          by (auto simp: process_next_set_def Let_def)
        with h n m p Some show ?thesis by (auto simp: report_def intro: broken)
      qed
    qed
  next
    case False
    have "ac_command c \<noteq> EXIT" using h exit_throws_not [OF inv] b by blast
    with False have "dr_procs b = dr_procs d \<and> dr_calls b = dr_calls d \<and> dr_firstSet b = dr_firstSet d \<and> dr_err b = dr_err d"
      using b unfolding run_command_def
      by (cases "ac_command c") (auto simp: say_def Let_def unchanged_def split: prod.splits sum.splits)
    with h show ?thesis by (intro same) (auto simp: report_def)
  qed
qed

lemma driver_inv_step:
  assumes f: "fork_ok fork" and inv: "driver_inv cs d" and h: "driver_step fork c d e"
  shows "driver_inv (cs @ [c]) e"
proof -
  have p: "procs_ok (dr_procs d)" "running_clients (dr_procs d) = {} \<or> running_clients (dr_procs d) = sm_keys clientAddresses"
    using inv by (auto simp: driver_inv_def)
  obtain N where "loop_round fork N c d = Inr (Next e)" using h by (auto simp: driver_step_def)
  then show ?thesis using inv
  proof (cases rule: loop_round_cases)
    case same
    then show ?thesis using inv by (auto simp: driver_inv_def)
  next
    case (set n s r q)
    from start_set_left [OF set(3) p(1) f p(2)] set inv running_no_procs show ?thesis
      by (auto simp: driver_inv_def ProcessTransactions_calls split: if_splits)
  next
    case (broken n s r x q)
    from start_set_left [OF broken(3) p(1) f p(2)] broken inv show ?thesis
      by (auto simp: driver_inv_def split: if_splits)
  qed
qed

text \<open>The process table and the loop as a component, for any \<open>fork\<close> that works.\<close>

definition driver_works :: "(procs \<Rightarrow> int) \<Rightarrow> string \<Rightarrow> driver \<Rightarrow> driver \<Rightarrow> bool" where
  "driver_works fork command d e \<longleftrightarrow> fork_ok fork \<and> driver_step fork command d e"

interpretation driver: component "driver_init reader" "driver_works fork" driver_inv
proof unfold_locales
  show "driver_init reader d \<Longrightarrow> driver_inv [] d" for d
    by (auto simp: driver_init_def driver_inv_def new_driver_def no_procs_ok running_no_procs)
  show "driver_inv cs d \<Longrightarrow> driver_works fork c d e \<Longrightarrow> driver_inv (cs @ [c]) e" for cs d c e
    unfolding driver_works_def by (elim conjE) (rule driver_inv_step)
qed

lemma driver_run_inv:
  assumes "driver_run fork reader cs d" and "fork_ok fork"
  shows "driver_inv cs d"
proof -
  have "run_of (driver_init reader) (driver_works fork) cs d"
    using assms(1) by (induction rule: run_of.induct)
      (auto intro: run_of.intros simp: driver_works_def assms(2))
  then show ?thesis by (rule driver.run_inv)
qed

section \<open>What the commands do to the processes\<close>

text \<open>A working \<open>fork\<close>: an id above all the children's.\<close>

definition sample_fork :: "procs \<Rightarrow> int" where
  "sample_fork p = 1 + fold max (map fst (ps_children p)) 0"

lemma fold_max: "a \<le> fold max xs a \<and> (\<forall>x\<in>set xs. x \<le> fold max xs a)" for a :: int
proof (induction xs arbitrary: a)
  case (Cons x xs)
  from Cons.IH [of "max x a"] show ?case by auto
qed simp

lemma sample_fork_ok: "fork_ok sample_fork"
  unfolding fork_ok_def
proof
  fix p
  note m = fold_max [of 0 "map fst (ps_children p)"]
  have "sample_fork p \<notin> fst ` set (ps_children p)" using m by (fastforce simp: sample_fork_def)
  moreover have "0 < sample_fork p" unfolding sample_fork_def by (rule le_imp_0_less [OF conjunct1 [OF m]])
  ultimately show "0 < sample_fork p \<and> sm_find (ps_children p) (sample_fork p) = None"
    by (simp add: map_of_eq_None_iff)
qed


text \<open>A sample: the first set of the sample file.\<close>

definition sample_reader :: CSVReader where
  "sample_reader = \<lparr>cr_file = concat (map show_set sample_sets), cr_currentSetNo = 0, cr_current = empty_set,
     cr_next = empty_set\<rparr>"

definition sample_start :: driver where
  "sample_start = new_driver sample_reader 0 \<lparr>si_lastCommitted = 0, si_lastExecuted = 0, si_lastCheckpoint = 0, si_lastStableCheckpoint = 0\<rparr>"

lemma sample_first_set:
  "case readNextSet (dr_set sample_start) (dr_reader sample_start) of (n, s, r) \<Rightarrow>
     n = Ok 2 \<and> ts_aliveServers s = [''S1'', ''S2''] \<and> ts_byzantineServers s = []"
  by code_simp

lemma sample_processed:
  "case process_next_set sample_fork sample_start of (f, b) \<Rightarrow> f = None \<and> dr_calls b \<noteq> [] \<and> dr_err b = []"
  by code_simp

definition silent_net :: net where
  "silent_net = \<lparr>nt_log = \<lambda>_. None, nt_db = \<lambda>_. None, nt_status = \<lambda>_ _. None, nt_views = \<lambda>_. None,
     nt_performance = \<lambda>_. None, nt_show = \<lambda>_. []\<rparr>"

lemma sample_start_run: "driver_run sample_fork sample_reader [] sample_start"
  by (rule run_of.start) (auto simp: driver_init_def sample_start_def)

lemma sample_start_state: "dr_calls sample_start = []" "dr_serverName sample_start = []"
  "ts_aliveServers (dr_set sample_start) = []" "dr_firstSet sample_start" "dr_err sample_start = []"
  "dr_procs sample_start = no_procs"
  by (simp_all add: sample_start_def new_driver_def empty_set_def)

lemma sample_next:
  obtains e where "loop_round sample_fork silent_net ''processNextSet'' sample_start = Inr (Next e)"
    and "driver_run sample_fork sample_reader [''processNextSet''] e" and "dr_calls e \<noteq> []" and "dr_err e = []"
proof -
  obtain b where b: "process_next_set sample_fork sample_start = (None, b)" "dr_calls b \<noteq> []" "dr_err b = []"
    using sample_processed by (cases "process_next_set sample_fork sample_start") auto
  define e where "e = (if dr_firstSet b then b\<lparr>dr_firstSet := False\<rparr> else b)"
  have h: "loop_round sample_fork silent_net ''processNextSet'' sample_start = Inr (Next e)"
    using b(1) by (simp add: loop_round_def parse_plain run_command_def plain_def Let_def e_def)
  have "driver_run sample_fork sample_reader ([] @ [''processNextSet'']) e"
    by (rule run_of.step [OF sample_start_run]) (use h in \<open>auto simp: driver_step_def\<close>)
  with h b(2,3) show ?thesis by (intro that [of e]) (simp_all add: e_def)
qed



text \<open>What \<open>exit\<close> does when the clients run: only orphans are left.\<close>

lemma exit_run:
  assumes inv: "driver_inv cs d" and cl: "running_clients (dr_procs d) = sm_keys clientAddresses"
  shows "\<exists>e. loop_round fork N ''exit'' d = Inr (Return e) \<and>
    (ps_children (dr_procs e) = [] \<longleftrightarrow> no_orphans (dr_procs d)) \<and>
    (\<forall>n. orphaned n (dr_procs d) \<longrightarrow> orphaned n (dr_procs e))"
proof -
  have ok: "procs_ok (dr_procs d)" using inv by (simp add: driver_inv_def)
  obtain p1 where p1: "killAllServers (dr_procs d) = (None, p1)" "procs_ok p1"
    "ps_clientPIDs p1 = ps_clientPIDs (dr_procs d)" "no_orphans p1 = no_orphans (dr_procs d)" "ps_serverPIDs p1 = []"
    using killAllServers_effect [OF ok] by blast
  have "running_clients p1 = sm_keys clientAddresses" using p1(3) cl by (simp add: running_clients_def)
  from killAllClients_all [OF p1(2) this] obtain p2 where
    p2: "killAllClients p1 = (None, p2)" "procs_ok p2" "ps_serverPIDs p2 = []" "running_clients p2 = {}"
      "no_orphans p2 = no_orphans p1"
    using p1(5) by auto
  have none: "sm_find (ps_clientPIDs p2) n = None" for n
    using p2(4) sm_keys_find [of n "ps_clientPIDs p2"] by (simp add: running_clients_def)
  have "ps_children p2 = [] \<longleftrightarrow> no_orphans p2"
  proof
    assume o: "no_orphans p2"
    have "sm_find (ps_children p2) pid = None" for pid
    proof (cases "sm_find (ps_children p2) pid")
      case (Some c)
      with procs_okD(3) [OF p2(2)] no_orphansD [OF o] p2(3) none show ?thesis
        by (cases c) auto
    qed
    then show "ps_children p2 = []" by (metis map_of_eq_None_iff list.set_intros(1) imageI neq_Nil_conv)
  qed (simp add: no_orphans_def)
  moreover have "orphaned n p2" if "orphaned n (dr_procs d)" for n
    using killAllServers_keeps(2) [OF ok that] killAllClients_keeps(1) [OF p1(2), of n] p1(1) p2(1) by simp
  ultimately show ?thesis
    using p1(1,4) p2(1,5) by (simp add: loop_round_def parse_plain run_command_def plain_def say_def)
qed

text \<open>
  C36: The driver leaves no process behind when it is told to exit after a set was run and no exception
  was ever reported: it kills and waits for every child. (After an exception this is not so, as the
  next property shows.)
\<close>

theorem exit_kills_all:
  assumes "driver_run fork reader cs d" and "fork_ok fork" and "dr_calls d \<noteq> []" and "dr_err d = []"
  shows "\<exists>e. loop_round fork N ''exit'' d = Inr (Return e) \<and> ps_children (dr_procs e) = []"
proof -
  have inv: "driver_inv cs d" by (rule driver_run_inv [OF assms(1,2)])
  with assms(3,4) have "running_clients (dr_procs d) = sm_keys clientAddresses" "no_orphans (dr_procs d)"
    by (simp_all add: driver_inv_def)
  with exit_run [OF inv, of fork N] show ?thesis by blast
qed

theorem exit_kills_all_witness:
  "\<exists>d e. loop_round sample_fork silent_net ''exit'' d = Inr (Return e) \<and> dr_calls d \<noteq> [] \<and> ps_children (dr_procs e) = []"
proof (rule sample_next)
  fix e assume "driver_run sample_fork sample_reader [''processNextSet''] e" and c: "dr_calls e \<noteq> []" "dr_err e = []"
  from exit_kills_all [OF this(1) sample_fork_ok c] c show ?thesis by blast
qed







text \<open>
  The driver needs a set before anything else. \<open>exit\<close> when no clients were started makes
  \<open>killClient\<close> use the end iterator of an empty table; and any other command that is carried out first
  clears \<open>firstSet\<close>, after which the first set does the same.
\<close>

theorem early_command_faults:
  assumes "driver_run fork reader cs d" and "fork_ok fork" and none: "running_clients (dr_procs d) = {}"
  shows "loop_round fork N ''exit'' d = Inl Null_deref \<and>
    (\<not> dr_firstSet d \<and> (\<exists>n s r. readNextSet (dr_set d) (dr_reader d) = (Inr n, s, r) \<and> n \<noteq> 0) \<longrightarrow>
      loop_round fork N ''processNextSet'' d = Inl Null_deref)"
proof
  have ok: "procs_ok (dr_procs d)"
    using driver_run_inv [OF assms(1,2)] by (simp add: driver_inv_def)
  obtain p1 where p1: "killAllServers (dr_procs d) = (None, p1)" "ps_clientPIDs p1 = ps_clientPIDs (dr_procs d)"
    using killAllServers_effect [OF ok] by blast
  then have "killAllClients p1 = (Some Null_deref, p1)"
    using none by (intro killAllClients_none) (simp add: running_clients_def)
  with p1(1) show "loop_round fork N ''exit'' d = Inl Null_deref"
    by (simp add: loop_round_def parse_plain run_command_def plain_def say_def)
  show "\<not> dr_firstSet d \<and> (\<exists>n s r. readNextSet (dr_set d) (dr_reader d) = (Inr n, s, r) \<and> n \<noteq> 0) \<longrightarrow>
      loop_round fork N ''processNextSet'' d = Inl Null_deref"
    using killAllClients_none [OF none]
    by (auto simp: loop_round_def parse_plain run_command_def plain_def process_next_set_def start_set_def)
qed

theorem early_command_faults_witness:
  "loop_round sample_fork silent_net ''exit'' sample_start = Inl Null_deref \<and>
   (\<exists>d. loop_round sample_fork silent_net ''printPerformance'' sample_start = Inr (Next d) \<and>
     loop_round sample_fork silent_net ''processNextSet'' d = Inl Null_deref)"
proof
  have none: "running_clients (dr_procs sample_start) = {}" by (simp add: sample_start_state running_no_procs)
  show "loop_round sample_fork silent_net ''exit'' sample_start = Inl Null_deref"
    by (rule conjunct1 [OF early_command_faults [OF sample_start_run sample_fork_ok none]])
  obtain d where d: "loop_round sample_fork silent_net ''printPerformance'' sample_start = Inr (Next d)"
    "dr_set d = dr_set sample_start" "dr_reader d = dr_reader sample_start" "dr_procs d = dr_procs sample_start" "\<not> dr_firstSet d"
    using sample_start_state
    by (simp add: loop_round_def parse_plain run_command_def plain_def say_def Let_def)
  have run: "driver_run sample_fork sample_reader ([] @ [''printPerformance'']) d"
    by (rule run_of.step [OF sample_start_run]) (use d(1) in \<open>auto simp: driver_step_def\<close>)
  have "\<exists>n s r. readNextSet (dr_set d) (dr_reader d) = (Inr n, s, r) \<and> n \<noteq> 0"
    using sample_first_set unfolding d(2,3)
    by (cases "readNextSet (dr_set sample_start) (dr_reader sample_start)") auto
  with early_command_faults [OF run sample_fork_ok] none d(4,5)
  have "loop_round sample_fork silent_net ''processNextSet'' d = Inl Null_deref" by simp
  with d(1) show "\<exists>d. loop_round sample_fork silent_net ''printPerformance'' sample_start = Inr (Next d) \<and>
     loop_round sample_fork silent_net ''processNextSet'' d = Inl Null_deref" by blast
qed

text \<open>
  A number that is too large for \<open>int\<close> ends the driver at \<open>printStatus\<close>: the parser's exception
  is not the one that the loop handles. The processes of the last set are left running.
\<close>

theorem large_number_leaves_children:
  assumes "driver_run fork reader cs d" and "fork_ok fork" and "dr_calls d \<noteq> []"
    and "list_all (is_digit 10) ds" and "int32_max < int (digits_val 10 ds)"
  shows "loop_round fork N (''printStatus '' @ ds) d = Inr (Throw Std_out_of_range d) \<and> ps_children (dr_procs d) \<noteq> []"
proof
  have "ds \<noteq> []" using assms(5) by (auto simp: digits_val_def int32_max_def)
  from parse_status [OF this assms(4)] assms(5)
  show "loop_round fork N (''printStatus '' @ ds) d = Inr (Throw Std_out_of_range d)"
    unfolding loop_round_def by (simp only: not_le if_False) simp
  have inv: "procs_ok (dr_procs d)" "running_clients (dr_procs d) = sm_keys clientAddresses"
    using driver_run_inv [OF assms(1,2)] assms(3) by (simp_all add: driver_inv_def)
  have "''A'' \<in> sm_keys (ps_clientPIDs (dr_procs d))"
    using inv(2) by (simp add: running_clients_def clientAddresses_def sm_keys_def)
  then obtain pid where "sm_find (ps_clientPIDs (dr_procs d)) ''A'' = Some pid" by (auto simp: sm_keys_find)
  from procs_okD(2) [OF inv(1) this] show "ps_children (dr_procs d) \<noteq> []" by auto
qed

theorem large_number_leaves_children_witness:
  "\<exists>e. loop_round sample_fork silent_net (''printStatus '' @ ''99999999999'') e = Inr (Throw Std_out_of_range e) \<and>
     ps_children (dr_procs e) \<noteq> []"
proof (rule sample_next)
  fix e assume e: "driver_run sample_fork sample_reader [''processNextSet''] e" "dr_calls e \<noteq> []"
  have "list_all (is_digit 10) ''99999999999''" "int32_max < int (digits_val 10 ''99999999999'')"
    by (simp_all add: is_digit_def digit_val_def digits_val_def char_code_def int32_max_def Let_def)
  from large_number_leaves_children [OF e(1) sample_fork_ok e(2) this] show ?thesis by (rule exI)
qed

text \<open>Only \<open>exit\<close> leaves the loop.\<close>

lemma exit_only:
  assumes "loop_round fork N command d = Inr (Return e)"
  shows "command = ''exit''"
proof (cases "parseCommand command")
  case (Inl f)
  with assms show ?thesis by (auto simp: loop_round_def split: fault.splits cpp_exn.splits)
next
  case (Inr c)
  then have "ac_command c = EXIT"
    using assms by (auto simp: loop_round_def Let_def split: prod.splits option.splits fault.splits if_splits)
  with Inr show ?thesis by (rule parsed_exit)
qed

text \<open>
  C40: The driver does not end with its input. When everything on the standard input has been read, every
  further round carries out the same command again: the empty one if the input ended with a newline,
  otherwise the last line, which \<open>getline\<close> then leaves in its variable. Unless this command is \<open>exit\<close>, the
  loop never returns, however many rounds it makes (an exception may end it); and if the command is
  malformed, as the empty one is, the loop also never throws, but prompts and complains for ever while
  the processes stay as they are.
\<close>

theorem end_of_input_spins:
  assumes "in_chars stdin = []" and c: "c = (if in_good stdin then [] else command)" and "c \<noteq> ''exit''"
  shows "mainloop (Suc k) fork Ns stdin command d =
      ebind (loop_round fork (Ns k) c (say prompt_text d)) (\<lambda>r. case r of
        Next e \<Rightarrow> mainloop k fork Ns \<lparr>in_chars = [], in_good = False\<rparr> c e | _ \<Rightarrow> Ok r) \<and>
    mainloop k fork Ns stdin command d \<noteq> Inr (Return e) \<and>
    (\<not> isValidCommand c \<longrightarrow> (\<exists>e. mainloop k fork Ns stdin command d = Inr (Next e) \<and>
       dr_procs e = dr_procs d \<and> dr_calls e = dr_calls d \<and>
       dr_out e = dr_out d @ concat (replicate k (prompt_text @ [''Invalid command. Try again. '']))))"
proof (intro conjI impI)
  have again: "mainloop (Suc k) fork Ns stdin command d =
      ebind (loop_round fork (Ns k) c (say prompt_text d)) (\<lambda>r. case r of
        Next e \<Rightarrow> mainloop k fork Ns \<lparr>in_chars = [], in_good = False\<rparr> c e | _ \<Rightarrow> Ok r)"
    if "in_chars stdin = []" "c = (if in_good stdin then [] else command)" for k stdin command d
    using prompt_at_end [OF that(1), of command] unfolding that(2) [symmetric] by (simp del: ebind_split)
  show "mainloop (Suc k) fork Ns stdin command d =
      ebind (loop_round fork (Ns k) c (say prompt_text d)) (\<lambda>r. case r of
        Next e \<Rightarrow> mainloop k fork Ns \<lparr>in_chars = [], in_good = False\<rparr> c e | _ \<Rightarrow> Ok r)"
    by (rule again [OF assms(1) c])
  show "mainloop k fork Ns stdin command d \<noteq> Inr (Return e)"
    using assms(1) c
  proof (induction k arbitrary: stdin command d)
    case (Suc k)
    show ?case
      unfolding again [OF Suc.prems]
      using Suc.IH [of "\<lparr>in_chars = [], in_good = False\<rparr>" c] exit_only [of fork "Ns k" c "say prompt_text d"] assms(3)
      by (auto split: round.split)
  qed simp
  assume bad: "\<not> isValidCommand c"
  then have "loop_round fork N c d = Inr (Next (say [''Invalid command. Try again. ''] d))" for N d
    by (simp add: loop_round_def parseCommand_def)
  note round = this
  show "\<exists>e. mainloop k fork Ns stdin command d = Inr (Next e) \<and>
       dr_procs e = dr_procs d \<and> dr_calls e = dr_calls d \<and>
       dr_out e = dr_out d @ concat (replicate k (prompt_text @ [''Invalid command. Try again. '']))"
    using assms(1) c
  proof (induction k arbitrary: stdin command d)
    case (Suc k)
    show ?case
      unfolding again [OF Suc.prems] round
      using Suc.IH [of "\<lparr>in_chars = [], in_good = False\<rparr>" c "say [''Invalid command. Try again. ''] (say prompt_text d)"]
      by (simp add: say_def)
  qed simp
qed

text \<open>The input \<open>processNextSet\<close> without a newline: the second round starts the next set, unasked.\<close>

theorem end_of_input_spins_witness:
  "promptUserForCommand \<lparr>in_chars = ''processNextSet'', in_good = True\<rparr> [] =
     (''processNextSet'', \<lparr>in_chars = [], in_good = False\<rparr>) \<and>
   \<not> (\<exists>e. mainloop 5 sample_fork (\<lambda>_. silent_net) \<lparr>in_chars = [], in_good = False\<rparr> ''processNextSet'' sample_start = Inr (Return e))"
proof
  show "promptUserForCommand \<lparr>in_chars = ''processNextSet'', in_good = True\<rparr> [] =
     (''processNextSet'', \<lparr>in_chars = [], in_good = False\<rparr>)" by code_simp
  show "\<not> (\<exists>e. mainloop 5 sample_fork (\<lambda>_. silent_net) \<lparr>in_chars = [], in_good = False\<rparr> ''processNextSet'' sample_start = Inr (Return e))"
    using end_of_input_spins [of "\<lparr>in_chars = [], in_good = False\<rparr>" "''processNextSet''" "''processNextSet''" 5 sample_fork "\<lambda>_. silent_net" sample_start]
    by simp
qed

text \<open>
  Two commands index a vector beyond its end: \<open>printLog\<close> with the servers S8 and S9, which the
  parser accepts although there are seven stubs, and \<open>printView\<close> when no server that is not Byzantine
  has been alive in any set, in which case the name whose second character is taken is empty.
\<close>

theorem print_out_of_bounds:
  "loop_round fork N ''printLog S8'' d = Inl Out_of_bounds \<and>
   loop_round fork N ''printLog S9'' d = Inl Out_of_bounds \<and>
   (dr_serverName d = [] \<and> (\<forall>n\<in>set (ts_aliveServers (dr_set d)). n \<in> set (ts_byzantineServers (dr_set d))) \<longrightarrow>
     loop_round fork N ''printView'' d = Inl Out_of_bounds)"
proof (intro conjI impI)
  have log: "loop_round fork N (''printLog S'' @ [c]) d = Inl Out_of_bounds"
    if "is_digit 10 c" "c \<noteq> CHR ''0''" "server_index (''S'' @ [c]) = Inr i" "serverStub i = Inl Out_of_bounds" for c i
    unfolding loop_round_def parse_log [OF that(1,2)]
    by (simp add: run_command_def plain_def GetLogs_def that(3,4) [simplified])
  have "server_index ''S8'' = Inr 7" "serverStub 7 = Inl Out_of_bounds"
    "server_index ''S9'' = Inr 8" "serverStub 8 = Inl Out_of_bounds" by code_simp+
  with log [of "CHR ''8''" 7] log [of "CHR ''9''" 8] show
    "loop_round fork N ''printLog S8'' d = Inl Out_of_bounds" "loop_round fork N ''printLog S9'' d = Inl Out_of_bounds"
    by (simp_all add: is_digit_def digit_val_def char_code_def Let_def)
  assume a: "dr_serverName d = [] \<and> (\<forall>n\<in>set (ts_aliveServers (dr_set d)). n \<in> set (ts_byzantineServers (dr_set d)))"
  then have "filter (\<lambda>n. n \<notin> set (ts_byzantineServers (dr_set d))) (ts_aliveServers (dr_set d)) = []" by simp
  with a have "pick_server (dr_set d) (dr_serverName d) = []" unfolding pick_server_def by simp
  then show "loop_round fork N ''printView'' d = Inl Out_of_bounds"
    by (simp add: loop_round_def parse_plain run_command_def plain_def app_GetViewChanges_def server_index_def string_at_def Let_def)
qed

theorem print_out_of_bounds_witness:
  "loop_round sample_fork silent_net ''printView'' sample_start = Inl Out_of_bounds"
  using print_out_of_bounds [of sample_fork silent_net sample_start] sample_start_state by simp

end
