(* ===== verification/Server_Outgoing.thy ===== *)
theory Server_Outgoing
  imports Server_Proposals
begin

text \<open>
  The type of what a server sends: every call in its outbox is one that its receiver can take. It has a
  receiver that exists; a signature of the sender on it verifies under the sender's key; a vote or a
  proposal names the sender and carries, for each receiver, the code under the key that the two share; and
  a certificate has the vectors of distinct senders.
\<close>

section \<open>Well-typed calls\<close>

text \<open>The vector of codes of a request names server \<open>i\<close> and has a code for each of the seven receivers.\<close>

definition coded_by :: "int \<Rightarrow> Request \<Rightarrow> bool" where
  "coded_by i r \<longleftrightarrow> sv_server_id (rq_sig_vec r) = i \<and> 7 \<le> length (sv_signatures (rq_sig_vec r))"

text \<open>The codes of server \<open>i\<close> for some bytes, one for each receiver. A vote is coded as a whole, before its
  vector is filled in; a proposal is coded by its context. When a request is proposed again, the codes
  come after the old ones.\<close>

definition codes :: "env \<Rightarrow> int \<Rightarrow> string \<Rightarrow> string list" where
  "codes E i d = map (\<lambda>j. signMAC E d (macKeyPath i j)) [0..6]"

definition vote_of :: "env \<Rightarrow> int \<Rightarrow> Request \<Rightarrow> bool" where
  "vote_of E i r \<longleftrightarrow> rq_sig_vec r =
     \<lparr>sv_signatures = codes E i (ser_request E \<lparr>rq_data = rq_data r, rq_sig_vec = default_sigvec\<rparr>), sv_server_id = i\<rparr>"

definition proposal_of :: "env \<Rightarrow> int \<Rightarrow> Request \<Rightarrow> bool" where
  "proposal_of E i r \<longleftrightarrow> (\<exists>old. rq_sig_vec r =
     \<lparr>sv_signatures = old @ codes E i (ser_ctx E (rq_data r)), sv_server_id = i\<rparr>)"

text \<open>The senders of the vectors of a certificate.\<close>

definition senders :: "ProofRequest \<Rightarrow> int list" where
  "senders pf = map sv_server_id (pf_sig_vecs pf)"

definition signed_reply :: "env \<Rightarrow> int \<Rightarrow> Response \<Rightarrow> bool" where
  "signed_reply E i r \<longleftrightarrow> sg_server_id (rs_signature r) = i \<and>
     verifyECDSA E (ser_rd E (rs_data r)) (sg_sig (rs_signature r)) (serverPbECDSAKeyPath i)"

fun payload_ok :: "env \<Rightarrow> int \<Rightarrow> payload \<Rightarrow> bool" where
  "payload_ok E i (P_Transfer m) \<longleftrightarrow> verifySignature_Message E m"
| "payload_ok E i (P_PrePrepare q) \<longleftrightarrow> verifySignature_Message E (pp_m q) \<and> proposal_of E i (pp_r q) \<and>
     req_view (pp_r q) smod 7 = i"
| "payload_ok E i (P_PrePrepareOk r) \<longleftrightarrow> vote_of E i r"
| "payload_ok E i (P_Prepare pf) \<longleftrightarrow> distinct (senders pf)"
| "payload_ok E i (P_PrepareOk r) \<longleftrightarrow> vote_of E i r"
| "payload_ok E i (P_Commit pf) \<longleftrightarrow> 5 \<le> card (set (senders pf))"
| "payload_ok E i (P_ViewChange v) \<longleftrightarrow> sg_server_id (vc_signature v) = i \<and> verifySignature_ViewChangeReq E v"
| "payload_ok E i (P_NewView n) \<longleftrightarrow> sg_server_id (nv_signature n) = i \<and> verifySignature_NewViewReq E n"
| "payload_ok E i (P_Checkpoint c) \<longleftrightarrow> sg_server_id (cr_signature c) = i \<and> verifySignature_CheckpointReq E c"

fun call_ok :: "env \<Rightarrow> int \<Rightarrow> outcall \<Rightarrow> bool" where
  "call_ok E i (ToServer j p) \<longleftrightarrow> 0 \<le> j \<and> j < 7 \<and> payload_ok E i p"
| "call_ok E i (ToClient c r) \<longleftrightarrow> 0 \<le> c \<and> c < 10 \<and> signed_reply E i r"

text \<open>A server with its own pair of keys that has sent nothing else.\<close>

definition calls_ok :: "env \<Rightarrow> int \<Rightarrow> srv \<Rightarrow> bool" where
  "calls_ok E i s \<longleftrightarrow> (\<forall>x \<in> set (outbox s). call_ok E i x)"

definition sender :: "env \<Rightarrow> int \<Rightarrow> srv \<Rightarrow> bool" where
  "sender E i s \<longleftrightarrow> key_pair E (serverPrECDSAKeyPath i) (serverPbECDSAKeyPath i) \<and>
     serverId s = i \<and> clusterSize s = 7 \<and> pbft_f s = 2 \<and> calls_ok E i s"

lemma sender_cong:
  "serverId t = serverId s \<Longrightarrow> clusterSize t = clusterSize s \<Longrightarrow> pbft_f t = pbft_f s \<Longrightarrow>
     outbox t = outbox s \<Longrightarrow> sender E i t = sender E i s"
  by (simp add: sender_def calls_ok_def)

lemma sender_fields [simp]:
  "sender E i (start_timer x t) = sender E i t" "sender E i (t\<lparr>futures := fs\<rparr>) = sender E i t"
  "sender E i (t\<lparr>lastCommitted := n\<rparr>) = sender E i t" "sender E i (t\<lparr>lastProposedView := n\<rparr>) = sender E i t"
  "sender E i (t\<lparr>srvState := st\<rparr>) = sender E i t" "sender E i (t\<lparr>awaitedDigests := a\<rparr>) = sender E i t"
  "sender E i (t\<lparr>selfTriggeredViewChangeMessages := m\<rparr>) = sender E i t"
  "sender E i (t\<lparr>viewChangeMessages := m\<rparr>) = sender E i t" "sender E i (t\<lparr>balances := b\<rparr>) = sender E i t"
  "sender E i (t\<lparr>checkpoints := c\<rparr>) = sender E i t" "sender E i (t\<lparr>lastCheckpoint := n\<rparr>) = sender E i t"
  "sender E i (t\<lparr>lastExecuted := n\<rparr>) = sender E i t" "sender E i (t\<lparr>totalTimeTaken := tt\<rparr>) = sender E i t"
  "sender E i (t\<lparr>heap := h\<rparr>) = sender E i t" "sender E i (t\<lparr>log := l\<rparr>) = sender E i t"
  "sender E i (t\<lparr>digestToEntry := d\<rparr>) = sender E i t" "sender E i (t\<lparr>currentSequence := n\<rparr>) = sender E i t"
  "sender E i (t\<lparr>currentView := n\<rparr>) = sender E i t" "sender E i (put_entry p e t) = sender E i t"
  by (rule sender_cong; simp add: start_timer_def)+

lemma sender_emit [simp]: "sender E i (emit x s) \<longleftrightarrow> sender E i s \<and> call_ok E i x"
  by (auto simp: sender_def calls_ok_def)

lemma senderD:
  "sender E i s \<Longrightarrow> serverId s = i" "sender E i s \<Longrightarrow> clusterSize s = 7" "sender E i s \<Longrightarrow> pbft_f s = 2"
  "sender E i s \<Longrightarrow> key_pair E (serverPrECDSAKeyPath i) (serverPbECDSAKeyPath i)"
  by (simp_all add: sender_def)

section \<open>Sending\<close>

lemma sender_sendRequest:
  "sendRequest r j ty s = Inr t \<Longrightarrow> sender E i s \<Longrightarrow> vote_of E i r \<Longrightarrow> sender E i t"
  by (auto simp: sendRequest_def serverStub_at_def split: if_splits)

lemma sender_each:
  "each f is s = Inr t \<Longrightarrow> sender E i s \<Longrightarrow> (\<And>j u v. f j u = Inr v \<Longrightarrow> sender E i u \<Longrightarrow> sender E i v) \<Longrightarrow> sender E i t"
  by (rule each_invariant [where P = "sender E i"])

lemma sender_to_others:
  "to_others send s = Inr t \<Longrightarrow> sender E i s \<Longrightarrow>
     (\<And>j u v. send j u = Inr v \<Longrightarrow> sender E i u \<Longrightarrow> sender E i v) \<Longrightarrow> sender E i t"
  unfolding to_others_def by (erule sender_each) (auto split: if_splits)

lemma sender_payload:
  "to_others (send_payload p) s = Inr t \<Longrightarrow> sender E i s \<Longrightarrow> payload_ok E i p \<Longrightarrow> sender E i t"
  by (erule sender_to_others) (auto simp: send_payload_def serverStub_at_def)

lemma own_signature:
  "sender E i s \<Longrightarrow> verifyECDSA E d (sg_sig (addECDSASignature E s d)) (serverPbECDSAKeyPath i)"
  "sender E i s \<Longrightarrow> sg_server_id (addECDSASignature E s d) = i"
  using verify_sign [OF senderD(4)] by (simp_all add: addECDSASignature_def senderD(1))

lemma own_codes:
  "serverId s = i \<Longrightarrow> clusterSize s = 7 \<Longrightarrow> vote_of E i \<lparr>rq_data = d,
     rq_sig_vec = addMACSignature E s (ser_request E \<lparr>rq_data = d, rq_sig_vec = default_sigvec\<rparr>) default_sigvec\<rparr>"
  "serverId s = i \<Longrightarrow> clusterSize s = 7 \<Longrightarrow>
     proposal_of E i \<lparr>rq_data = d, rq_sig_vec = addMACSignature E s (ser_ctx E d) sv\<rparr>"
  by (simp_all add: vote_of_def proposal_of_def codes_def addMACSignature_def default_sigvec_def) (cases sv, auto)

text \<open>A certificate made of votes that are filed under their senders.\<close>

lemma senders_votes:
  assumes "votes_wf m"
  shows "map (\<lambda>x. sv_server_id (rq_sig_vec x)) (sm_vals m) = map fst m" "distinct (map fst m)"
    "card (fst ` set m) = length m"
proof -
  show "map (\<lambda>x. sv_server_id (rq_sig_vec x)) (sm_vals m) = map fst m"
    using assms by (auto simp: votes_wf_def sm_vals_def)
  show d: "distinct (map fst m)" by (rule sm_wf_distinct [OF votes_wfD [OF assms]])
  from distinct_card [OF d] show "card (fst ` set m) = length m" by simp
qed

lemma votes_certificate:
  assumes "votes_wf m"
  shows "distinct (senders \<lparr>pf_data = d, pf_sig_vecs = map rq_sig_vec (sm_vals m)\<rparr>)"
    "5 \<le> length m \<Longrightarrow> 5 \<le> card (set (senders \<lparr>pf_data = d, pf_sig_vecs = map rq_sig_vec (sm_vals m) @ svs\<rparr>))"
proof -
  have s: "senders \<lparr>pf_data = d, pf_sig_vecs = map rq_sig_vec (sm_vals m) @ svs\<rparr> = map fst m @ map sv_server_id svs" for svs
    using senders_votes(1) [OF assms] by (simp add: senders_def comp_def)
  from s [of "[]"] show "distinct (senders \<lparr>pf_data = d, pf_sig_vecs = map rq_sig_vec (sm_vals m)\<rparr>)"
    using senders_votes(2) [OF assms] by simp
  have "card (set (map fst m)) \<le> card (set (map fst m @ map sv_server_id svs))" by (rule card_mono) auto
  then show "5 \<le> length m \<Longrightarrow> 5 \<le> card (set (senders \<lparr>pf_data = d, pf_sig_vecs = map rq_sig_vec (sm_vals m) @ svs\<rparr>))"
    unfolding s using senders_votes(3) [OF assms] by simp
qed

lemma sender_broadcasts:
  "sendViewChangeToAll E v s = Inr t \<Longrightarrow> sender E i s \<Longrightarrow> sender E i t"
  "sendNewViewToAll E n s = Inr t \<Longrightarrow> sender E i s \<Longrightarrow> sender E i t"
  "sendCheckpointToAll E c s = Inr t \<Longrightarrow> sender E i s \<Longrightarrow> sender E i t"
  by (auto simp: sendViewChangeToAll_def sendNewViewToAll_def sendCheckpointToAll_def Let_def own_signature
      verifySignature_ViewChangeReq_def verifySignature_NewViewReq_def verifySignature_CheckpointReq_def
      elim!: sender_payload)

lemma sender_certificate:
  "sendRequestToAll pf ty s = Inr t \<Longrightarrow> sender E i s \<Longrightarrow>
     (ty = PREPARE \<Longrightarrow> distinct (senders pf)) \<Longrightarrow> (ty = COMMIT \<Longrightarrow> 5 \<le> card (set (senders pf))) \<Longrightarrow> sender E i t"
  unfolding sendRequestToAll_def
  by (erule sender_to_others) (auto simp: sendRequest_proof_def serverStub_at_def split: if_splits)

lemma sender_notify: "notifyClient E c m res s = Inr t \<Longrightarrow> sender E i s \<Longrightarrow> sender E i t"
  by (auto simp: notifyClient_def clientStub_def signed_reply_def own_signature Let_def)

section \<open>Execution\<close>

lemma sender_checkpoint: "checkpoint E s = Inr t \<Longrightarrow> sender E i s \<Longrightarrow> sender E i t"
  by (auto simp: checkpoint_def Let_def dest!: sender_broadcasts(3))

lemma sender_execute_slot:
  assumes "execute_slot E seq s = Inr (t, go)" and "sender E i s"
  shows "sender E i t"
  using assms unfolding execute_slot_def execute_entry_def Let_def
  by (auto split: option.splits if_splits dest!: sender_notify dest: sender_checkpoint)

lemma sender_execute_from: "execute_from E seq s = Inr t \<Longrightarrow> sender E i s \<Longrightarrow> sender E i t"
  by (erule execute_from_keeps) (auto intro: sender_execute_slot)

lemma sender_executePending: "executePending E s = Inr t \<Longrightarrow> sender E i s \<Longrightarrow> sender E i t"
  by (auto simp: executePending_def intro: sender_execute_from)

section \<open>The handlers\<close>

lemma sender_forward:
  "forward d m s = Inr t \<Longrightarrow> sender E i s \<Longrightarrow> verifySignature_Message E m \<Longrightarrow> sender E i t"
  by (auto simp: forward_def serverStub_def Let_def)

lemma sender_proposal:
  assumes "sendPrePrepareToAll q s = Inr t" and "sender E i s" and "verifySignature_Message E (pp_m q)"
    and "proposal_of E i (pp_r q)" and "req_view (pp_r q) smod 7 = i"
  shows "sender E i t"
  using assms unfolding sendPrePrepareToAll_def by (auto elim!: sender_payload)

lemma sender_propose:
  assumes "propose E m d s = Inr t" and "sender E i s" and "verifySignature_Message E m" and "getLeaderId s = i"
  shows "sender E i t"
  using assms unfolding propose_def new_proposal_def Let_def
  by (auto simp: req_view_def getLeaderId_def senderD intro!: own_codes(2) elim!: sender_proposal)

lemma sender_repropose:
  assumes "repropose E m p e s = Inr t" and "sender E i s" and "verifySignature_Message E m" and "getLeaderId s = i"
  shows "sender E i t"
  using assms unfolding repropose_def Let_def
  by (auto simp: req_view_def getLeaderId_def senderD intro!: own_codes(2) elim!: sender_proposal)

lemma sender_processTransfer:
  assumes "processTransfer E m s = Inr t" and s: "sender E i s"
  shows "sender E i t"
proof -
  have "t = s \<or> (\<exists>c res. notifyClient E c m res s = Inr t) \<or> verifySignature_Message E m \<and>
      (forward (message_digest E m) m s = Inr t \<or>
       getLeaderId s = i \<and> ((\<exists>p e. repropose E m p e s = Inr t) \<or> propose E m (message_digest E m) s = Inr t))"
    using assms(1) senderD(1) [OF s] unfolding processTransfer_def Let_def
    by (fastforce split: if_splits option.splits)
  then show ?thesis
    using s by (auto intro: sender_notify sender_forward sender_repropose sender_propose)
qed

lemma sender_accept:
  "accept_prePrepare E q n p s = Inr t \<Longrightarrow> sender E i s \<Longrightarrow> sender E i t"
  unfolding accept_prePrepare_def Let_def own_prePrepareOk_def
  by (auto split: if_splits elim!: sender_sendRequest simp: own_codes(1) senderD)

lemma sender_votes:
  "processPrePrepare E q s = Inr t \<Longrightarrow> sender E i s \<Longrightarrow> sender E i t"
  "processPrePrepareOk E r s = Inr t \<Longrightarrow> sender E i s \<Longrightarrow> sender E i t"
  "processPrepare E pf s = Inr t \<Longrightarrow> sender E i s \<Longrightarrow> sender E i t"
  by (auto simp: processPrePrepare_def processPrePrepareOk_def processPrepare_def Let_def own_codes(1) senderD
      split: if_splits option.splits elim!: sender_accept sender_sendRequest)

text \<open>The maps of votes that a certificate is made of are the ones of an entry of the log.\<close>

lemma log_entry_votes:
  assumes "log_entry s j = Inr (p, e)" and "srv_inv E s"
  shows "votes_wf (mi_prepareProofs e)" "votes_wf (mi_commitProofs e)"
proof -
  have "entry_ok E e" using assms srv_inv_entryD by (auto simp: log_entry_Ok_iff)
  then show "votes_wf (mi_prepareProofs e)" "votes_wf (mi_commitProofs e)" by (simp_all add: entry_ok_def)
qed

lemma sender_processPrepareOk:
  assumes "processPrepareOk E r s = Inr t" and "sender E i s" and "srv_inv E s"
  shows "sender E i t"
proof -
  have c: "5 \<le> card (set (senders \<lparr>pf_data = d, pf_sig_vecs = map rq_sig_vec (sm_vals
      (sm_put (sv_server_id (rq_sig_vec r)) r (mi_commitProofs e)))\<rparr>))"
    if "log_entry s j = Inr (p, e)"
      and "5 \<le> length (sm_put (sv_server_id (rq_sig_vec r)) r (mi_commitProofs e))" for d j p e
    using votes_certificate(2) [where svs = "[]", OF _ that(2)] log_entry_votes(2) [OF that(1) assms(3)] by simp
  show ?thesis
    using assms(1,2) unfolding processPrepareOk_def Let_def
    by (auto simp: senderD intro!: c split: if_splits dest!: sender_executePending elim!: sender_certificate)
qed

lemma sender_fire_OptimisticTimer:
  assumes f: "fire_OptimisticTimer E n s = Inr t" and s: "sender E i s" and "srv_inv E s"
  shows "sender E i t"
proof (cases "srvState s = VIEW_CHANGE_STATE")
  case True
  with f s show ?thesis by (simp add: fire_OptimisticTimer_def)
next
  case False
  then obtain p e where e: "log_entry s (n - lowWatermark s) = Inr (p, e)"
    using f unfolding fire_OptimisticTimer_def Let_def by auto
  note wf = log_entry_votes(1) [OF e assms(3)]
  have "length (mi_prepareProofs e) = 6 \<Longrightarrow> sendRequestToAll \<lparr>pf_data = d,
      pf_sig_vecs = map rq_sig_vec (sm_vals (mi_prepareProofs e)) @ svs\<rparr> COMMIT u = Inr v \<Longrightarrow> sender E i u \<Longrightarrow> sender E i v"
    "sendRequestToAll \<lparr>pf_data = d, pf_sig_vecs = map rq_sig_vec (sm_vals (mi_prepareProofs e))\<rparr> PREPARE u = Inr v \<Longrightarrow>
      sender E i u \<Longrightarrow> sender E i v" for d svs u v
    using votes_certificate [OF wf] by (auto elim!: sender_certificate)
  with False f s e show ?thesis
    unfolding fire_OptimisticTimer_def Let_def
    by (auto simp: senderD split: if_splits elim!: sender_executePending)
qed

lemma sender_processCommit: "processCommit E pf s = Inr t \<Longrightarrow> sender E i s \<Longrightarrow> sender E i t"
  unfolding processCommit_def Let_def by (auto split: if_splits option.splits elim!: sender_executePending)

lemma sender_processCheckpoint: "processCheckpoint E r s = Inr t \<Longrightarrow> sender E i s \<Longrightarrow> sender E i t"
  by (auto simp: processCheckpoint_def make_stable_def sender_def calls_ok_def Let_def split: if_splits option.splits)

lemma sender_trigger: "triggerViewChange E v s = Inr t \<Longrightarrow> sender E i s \<Longrightarrow> sender E i t"
  by (auto simp: triggerViewChange_def Let_def elim!: sender_broadcasts)

lemma sender_announce: "announce_view E v s = Inr t \<Longrightarrow> sender E i s \<Longrightarrow> sender E i t"
  by (auto simp: announce_view_def Let_def elim!: sender_broadcasts)

lemma sender_enter_view: "enter_view E d s = Inr t \<Longrightarrow> sender E i s \<Longrightarrow> sender E i t"
  unfolding enter_view_def
  by (erule sender_each) (auto simp: send_new_view_ok_def Let_def own_codes(1) senderD elim!: sender_sendRequest)

lemma sender_view_changes:
  "processNewView E n s = Inr t \<Longrightarrow> sender E i s \<Longrightarrow> sender E i t"
  "processViewChange E v s = Inr t \<Longrightarrow> sender E i s \<Longrightarrow> sender E i t"
  by (auto simp: processNewView_def processViewChange_def Let_def split: if_splits
      elim!: sender_enter_view sender_trigger sender_announce)

lemma sender_timers:
  "fire_DigestTimer E d v n s = Inr t \<Longrightarrow> sender E i s \<Longrightarrow> sender E i t"
  "fire_SeqTimer E q v n s = Inr t \<Longrightarrow> sender E i s \<Longrightarrow> sender E i t"
  "fire_ViewTimer v n s = Inr t \<Longrightarrow> sender E i s \<Longrightarrow> sender E i t"
  "fire_RetryTimer E nv s = Inr t \<Longrightarrow> sender E i s \<Longrightarrow> sender E i t"
  by (auto simp: fire_DigestTimer_def fire_SeqTimer_def fire_ViewTimer_def fire_RetryTimer_def
      split: if_splits elim!: sender_trigger intro: sender_view_changes)

lemmas sender_kept = sender_processTransfer sender_votes sender_processPrepareOk sender_processCommit
  sender_fire_OptimisticTimer sender_processCheckpoint
  sender_view_changes sender_timers

lemma sender_handle: "handle E ev s = Inr t \<Longrightarrow> sender E i s \<Longrightarrow> srv_inv E s \<Longrightarrow> sender E i t"
  by (induction E ev s rule: handle.induct)
    (auto simp: GetDB_def split: prod.splits elim!: handle_payload.elims fire_timer.elims intro: sender_kept)

section \<open>Every call of a server\<close>

lemma at_time_verifies [simp]:
  "verifySignature_ViewChangeReq (at_time E x j) v = verifySignature_ViewChangeReq E v"
  "verifySignature_NewViewReq (at_time E x j) n = verifySignature_NewViewReq E n"
  "signed_reply (at_time E x j) i r = signed_reply E i r"
  "key_pair (at_time E x j) a b = key_pair E a b"
  by (simp_all add: verifySignature_ViewChangeReq_def verifySignature_NewViewReq_def signed_reply_def
      key_pair_def verifyECDSA_def at_time_def split: option.split)

lemma verifySignature_CheckpointReq_at_time [simp]:
  "verifySignature_CheckpointReq (at_time E x j) r = verifySignature_CheckpointReq E r"
  by (simp add: verifySignature_CheckpointReq_def verifyECDSA_def at_time_def split: option.split)

lemma codes_at [simp]:
  "codes (at_time E x j) i d = codes E i d" "vote_of (at_time E x j) i r = vote_of E i r"
  "proposal_of (at_time E x j) i r = proposal_of E i r"
proof -
  show c: "codes (at_time E x j) i d = codes E i d" for d
    by (simp add: codes_def signMAC_def at_time_def cong: option.case_cong)
  show "vote_of (at_time E x j) i r = vote_of E i r" "proposal_of (at_time E x j) i r = proposal_of E i r"
    unfolding vote_of_def proposal_of_def c by (simp_all add: at_time_def)
qed

lemma call_ok_at [simp]: "call_ok (at_time E x j) i y = call_ok E i y"
proof -
  have "payload_ok (at_time E x j) i p = payload_ok E i p" for p by (cases p) simp_all
  then show ?thesis by (cases y) simp_all
qed

lemma sender_at [simp]: "sender (at_time E x j) i s = sender E i s"
  by (simp add: sender_def calls_ok_def)

lemma sender_reach:
  assumes "server_reach E i s" and "0 \<le> i" and "i < 7"
    and "key_pair E (serverPrECDSAKeyPath i) (serverPbECDSAKeyPath i)"
  shows "sender E i s"
  using assms(1)
proof induction
  case (start name byz lc lcp)
  then show ?case using assms(4) by (simp add: sender_def calls_ok_def PbftServerImpl_def)
next
  case (step s ev s')
  then obtain x j where "handle (at_time E x j) ev s = Inr s'" using server_step_handle by blast
  from sender_handle [OF this, of i] step.IH show ?case using server_reach_inv [OF step.hyps(1) assms(2,3)] by simp
qed

text \<open>The receiver of a vote or a proposal finds its own code in the vector.\<close>

lemma coded_by_read:
  "coded_by i r \<Longrightarrow> 0 \<le> serverId s \<Longrightarrow> serverId s < 7 \<Longrightarrow> verifySignature_Request E s r = Inr True"
  by (simp add: coded_by_def verifySignature_Request_def verifyMAC_def)

text \<open>
  C16: Every call in the outbox of a reachable server has a payload of the following type. It goes to one
  of the seven servers or of the ten clients. A request that is forwarded carries a client's valid
  signature. A proposal carries one too, is for a view that the server leads, names the server, and ends
  with the server's codes for the seven receivers over the proposal's context. A vote (of either phase)
  names the server and carries exactly the server's codes for the seven receivers over the vote. A prepare
  certificate has the vectors of distinct senders; a commit certificate has vectors of at least five
  distinct senders. A view-change, new-view or checkpoint message and a reply to a client name the server
  and verify under its public key. (What a server forwards unchecked is not claimed: the codes inside a
  certificate are the ones that were received, and \<open>verifyMAC\<close> accepts any.)
\<close>

theorem sent_calls_typed:
  assumes "server_reach E i s" and "0 \<le> i" and "i < 7"
    and "key_pair E (serverPrECDSAKeyPath i) (serverPbECDSAKeyPath i)"
  shows "calls_ok E i s"
  using sender_reach [OF assms] by (simp add: sender_def)

lemma sample_proposals:
  "holds (processTransfer sample_env request1 leader) (\<lambda>t. length (outbox t) = 6)"
  by code_simp

theorem sent_calls_typed_witness:
  "\<exists>s. server_reach sample_env 1 s \<and> length (outbox s) = 6 \<and> calls_ok sample_env 1 s"
proof -
  obtain t where t: "processTransfer sample_env request1 leader = Inr t" "length (outbox t) = 6"
    using sample_proposals unfolding holds_iff by blast
  have "server_step sample_env leader (Rpc (P_Transfer request1)) t"
    by (rule server_step.receive [where t = 0 and j = False]) (simp add: t(1))
  then have r: "server_reach sample_env 1 t"
    unfolding leader_def by (rule server_reach.step [OF server_reach.start])
  from r t(2) sent_calls_typed [OF r _ _ sample_key_pair] show ?thesis by auto
qed

end
