(* ===== verification/Server_Progress.thy ===== *)
theory Server_Progress
  imports Server_Outgoing
begin

text \<open>
  What a server without faults does with one more request, while nothing goes wrong: the states it goes
  through from the proposal to the execution, the checkpoint that every tenth request ends with, and that
  no handler on this way faults. The servers are in view 1, whose leader is server 1; \<open>l\<close> is the low
  watermark.
\<close>

section \<open>A server that has executed a list of requests\<close>

text \<open>The ledger that these requests leave, and the verdicts on them.\<close>

definition ledger_after :: "Message list \<Rightarrow> ledger" where
  "ledger_after ms = fst (run_ledger ms (ledger_of initial_balances))"

definition replies_after :: "Message list \<Rightarrow> (int \<times> TransactionData \<times> bool) list" where
  "replies_after ms = verdicts ms (snd (run_ledger ms (ledger_of initial_balances)))"

text \<open>The map of balances itself, which a checkpoint's digest is taken of.\<close>

definition balances_after :: "Message list \<Rightarrow> fault + (string, int) smap" where
  "balances_after ms =
     fold (\<lambda>m r. ebind r (\<lambda>b. ebind (transfer (ms_data m) b) (\<lambda>(b', res). Ok b'))) ms (Ok initial_balances)"

text \<open>The answers are those of a server in its first view, signed with its key.\<close>

definition answers_ok :: "env \<Rightarrow> int \<Rightarrow> srv \<Rightarrow> bool" where
  "answers_ok E i s \<longleftrightarrow> (\<forall>c r. ToClient c r \<in> set (outbox s) \<longrightarrow> rd_view_num (rs_data r) = 1 \<and>
     rs_signature r = \<lparr>sg_sig = signECDSA E (ser_rd E (rs_data r)) (serverPrECDSAKeyPath i), sg_server_id = i\<rparr>)"

definition after_requests :: "env \<Rightarrow> int \<Rightarrow> nat \<Rightarrow> Message list \<Rightarrow> srv \<Rightarrow> bool" where
  "after_requests E i l ms s \<longleftrightarrow> srv_inv E s \<and> solvent s \<and> serverId s = i \<and> currentView s = 1 \<and>
     srvState s = NORMAL_STATE \<and> \<not> isByzantine s \<and> lowWatermark s = int l \<and> l mod 10 = 0 \<and> l \<le> length ms \<and>
     lastExecuted s = int (length ms) - 1 \<and> balances_after ms = Ok (balances s) \<and>
     client_replies (outbox s) = replies_after ms \<and> answers_ok E i s"

definition executed_entries :: "Message list \<Rightarrow> MessageInfo list \<Rightarrow> bool" where
  "executed_entries ms h \<longleftrightarrow> map mi_m h = ms \<and> (\<forall>e \<in> set h. mi_mstatus e = EXECUTED)"

text \<open>The slots of the requests that are not yet behind the low watermark.\<close>

definition slots_from :: "nat \<Rightarrow> nat \<Rightarrow> srv \<Rightarrow> bool" where
  "slots_from l n s \<longleftrightarrow> (\<forall>k < n - l. log s ! k = Some (l + k))"

text \<open>Idle: all that the server knows is executed.\<close>

definition idle :: "env \<Rightarrow> int \<Rightarrow> nat \<Rightarrow> Message list \<Rightarrow> srv \<Rightarrow> bool" where
  "idle E i l ms s \<longleftrightarrow> after_requests E i l ms s \<and> currentSequence s = int (length ms) - 1 \<and>
     executed_entries ms (heap s) \<and> slots_from l (length ms) s \<and>
     sm_keys (digestToEntry s) \<subseteq> message_digest E ` set ms"

definition served :: "env \<Rightarrow> int \<Rightarrow> nat \<Rightarrow> Message list \<Rightarrow> srv \<Rightarrow> bool" where
  "served E i l ms s \<longleftrightarrow> idle E i l ms s \<and> length ms < l + 10 \<and> checkpoints s = []"

text \<open>
  After every tenth request the servers take a checkpoint: each has sent its digest of the balances to the
  others, and \<open>V\<close> are the messages about it that it has received.
\<close>

definition balances_digest :: "env \<Rightarrow> (string, int) smap \<Rightarrow> string" where
  "balances_digest E b = (case balancesString b of Inr cs \<Rightarrow> sha256Digest E cs | Inl _ \<Rightarrow> '''')"

definition checkpoint_request :: "env \<Rightarrow> int \<Rightarrow> int \<Rightarrow> (string, int) smap \<Rightarrow> CheckpointReq" where
  "checkpoint_request E i n b =
     (let cd = \<lparr>cd_c_seq_num = n, cd_c_digest = balances_digest E b\<rparr>
      in \<lparr>cr_data = cd, cr_signature =
            \<lparr>sg_sig = signECDSA E (ser_cd E cd) (serverPrECDSAKeyPath i), sg_server_id = i\<rparr>\<rparr>)"

definition checkpoint_taken :: "env \<Rightarrow> (string, int) smap \<Rightarrow> (int, CheckpointReq) smap \<Rightarrow> CheckpointInfo" where
  "checkpoint_taken E b V = \<lparr>ci_state = b, ci_digest = balances_digest E b, ci_checkpointProofs = V\<rparr>"

definition own_checkpoint :: "env \<Rightarrow> int \<Rightarrow> Message list \<Rightarrow> CheckpointReq" where
  "own_checkpoint E i ms = checkpoint_request E i (int (length ms) - 1) (projr (balances_after ms))"

definition checkpoint_sent :: "env \<Rightarrow> int \<Rightarrow> Message list \<Rightarrow> srv \<Rightarrow> bool" where
  "checkpoint_sent E i ms s \<longleftrightarrow> (\<forall>j \<in> {0..6} - {i}. ToServer j (P_Checkpoint (own_checkpoint E i ms)) \<in> set (outbox s))"

definition collecting :: "env \<Rightarrow> int \<Rightarrow> nat \<Rightarrow> Message list \<Rightarrow> (int, CheckpointReq) smap \<Rightarrow> srv \<Rightarrow> bool" where
  "collecting E i l ms V s \<longleftrightarrow> idle E i l ms s \<and> length ms = l + 10 \<and> checkpoint_sent E i ms s \<and>
     checkpoints s = [(int (length ms) - 1, checkpoint_taken E (balances s) V)]"

definition at_rest :: "env \<Rightarrow> int \<Rightarrow> nat \<Rightarrow> Message list \<Rightarrow> srv \<Rightarrow> bool" where
  "at_rest E i l ms s \<longleftrightarrow> (if length ms = l + 10 then collecting E i l ms [] s else served E i l ms s)"

text \<open>Busy with the request \<open>m\<close>, whose entry is \<open>e\<close>.\<close>

definition context_of :: "env \<Rightarrow> Message list \<Rightarrow> Message \<Rightarrow> Context" where
  "context_of E ms m = \<lparr>cx_view_num = 1, cx_sequence_num = int (length ms), cx_digest = message_digest E m\<rparr>"

definition working :: "env \<Rightarrow> int \<Rightarrow> nat \<Rightarrow> Message list \<Rightarrow> Message \<Rightarrow> MessageInfo \<Rightarrow> srv \<Rightarrow> bool" where
  "working E i l ms m e s \<longleftrightarrow> after_requests E i l ms s \<and> currentSequence s = int (length ms) \<and>
     (\<exists>h. heap s = h @ [e] \<and> executed_entries ms h) \<and> slots_from l (Suc (length ms)) s \<and>
     mi_m e = m \<and> rq_data (mi_prePrepare e) = context_of E ms m \<and>
     sm_keys (digestToEntry s) \<subseteq> message_digest E ` set (ms @ [m]) \<and>
     length ms < l + 10 \<and> checkpoints s = []"

definition next_request_ok :: "env \<Rightarrow> Message list \<Rightarrow> Message \<Rightarrow> bool" where
  "next_request_ok E ms m \<longleftrightarrow> verifySignature_Message E m \<and> payable m \<and>
     message_digest E m \<notin> message_digest E ` set ms"

lemma after_requestsD:
  assumes "after_requests E i l ms s"
  shows "srv_inv E s" "solvent s" "serverId s = i" "currentView s = 1" "srvState s = NORMAL_STATE"
    "\<not> isByzantine s" "lowWatermark s = int l" "lastExecuted s = int (length ms) - 1" "highWatermark s = int l + 19"
    "length (log s) = 20" "clusterSize s = 7" "pbft_f s = 2" "getLeaderId s = 1" "l \<le> length ms" "l mod 10 = 0"
    "checkpointStepSize s = 10" "pbft_k s = 20" "int l + 19 \<le> int32_max" "lastStableCheckpointSeqNum s = int l - 1"
    "in_int32 (int l)"
  using assms by (auto simp: after_requests_def srv_inv_def config_ok_def window_ok_def getLeaderId_def smod_nonneg
      in_int32_def int32_min_def int32_max_def)

lemma run_ledger_append:
  "run_ledger (ms @ ns) L =
     (let (L1, rs) = run_ledger ms L; (L2, qs) = run_ledger ns L1 in (L2, rs @ qs))"
  by (induction ms arbitrary: L) (simp_all add: Let_def split: prod.split)

lemma length_run_ledger: "run_ledger ms L = (L', rs) \<Longrightarrow> length rs = length ms"
  by (induction ms arbitrary: L L' rs) (auto simp: Let_def split: prod.splits)

lemma ledger_after_snoc:
  assumes "run_ledger [m] (ledger_after ms) = (L, rs)"
  shows "ledger_after (ms @ [m]) = L" "replies_after (ms @ [m]) = replies_after ms @ verdicts [m] rs"
proof -
  obtain L0 rs0 where r: "run_ledger ms (ledger_of initial_balances) = (L0, rs0)" by fastforce
  then have "run_ledger (ms @ [m]) (ledger_of initial_balances) = (L, rs0 @ rs)"
    using assms by (simp add: run_ledger_append ledger_after_def del: run_ledger.simps)
  then show "ledger_after (ms @ [m]) = L" "replies_after (ms @ [m]) = replies_after ms @ verdicts [m] rs"
    using r length_run_ledger [OF r] by (simp_all add: ledger_after_def replies_after_def verdicts_def)
qed

lemma balances_after_snoc [simp]:
  "balances_after (ms @ [m]) = ebind (balances_after ms) (\<lambda>b. ebind (transfer (ms_data m) b) (\<lambda>(b', res). Ok b'))"
  by (simp add: balances_after_def)

text \<open>The map holds the amounts of the ledger.\<close>

lemma balances_after_ledger: "balances_after ms = Inr b \<Longrightarrow> ledger_of b = ledger_after ms"
proof (induction ms arbitrary: b rule: rev_induct)
  case Nil
  then show ?case by (simp add: balances_after_def ledger_after_def)
next
  case (snoc m ms)
  then obtain b0 res where b0: "balances_after ms = Inr b0" "transfer (ms_data m) b0 = Inr (b, res)"
    by auto
  have "run_ledger [m] (ledger_after ms) = (ledger_of b, [res])"
    using transfer_refines [OF b0(2)] snoc.IH [OF b0(1)] by simp
  from ledger_after_snoc(1) [OF this] show ?case by simp
qed

lemma execd_messages:
  assumes "execd h h'"
  shows "map mi_m h' = map mi_m h"
proof (rule nth_equalityI)
  show "length (map mi_m h') = length (map mi_m h)" using assms by (simp add: execd_def)
next
  fix p assume "p < length (map mi_m h')"
  moreover have "mi_m (h' ! p) = mi_m (h ! p)"
    using assms unfolding execd_def by (cases "h' ! p = h ! p") fastforce+
  ultimately show "map mi_m h' ! p = map mi_m h ! p" using assms by (simp add: execd_def)
qed

section \<open>Execution\<close>

lemma working_entry:
  assumes "working E i l ms m e s"
  shows "length (heap s) = Suc (length ms)" "heap s ! length ms = e" "log s ! (length ms - l) = Some (length ms)"
    "entry_at s (int (length ms)) = Some e" "length ms < l + 10" "l \<le> length ms"
    "nat (int (length ms) - int l) = length ms - l" "in_int32 (int (length ms))"
    "in_int32 (int (length ms) - int l)"
proof -
  obtain h where h: "heap s = h @ [e]" "executed_entries ms h" using assms by (auto simp: working_def)
  then have "length h = length ms" by (auto simp: executed_entries_def)
  with h(1) show len: "length (heap s) = Suc (length ms)" "heap s ! length ms = e" by (simp_all add: nth_append)
  have a: "after_requests E i l ms s" "currentSequence s = int (length ms)" using assms by (simp_all add: working_def)
  show n: "length ms < l + 10" "l \<le> length ms" using assms by (simp_all add: working_def after_requests_def)
  then show g: "log s ! (length ms - l) = Some (length ms)" using assms by (simp add: working_def slots_from_def)
  show k: "nat (int (length ms) - int l) = length ms - l" using n(2) by simp
  show "entry_at s (int (length ms)) = Some e"
    using after_requestsD [OF a(1)] n g len k by (simp add: entry_at_def)
  show "in_int32 (int (length ms))" "in_int32 (int (length ms) - int l)" using after_requestsD(18) [OF a(1)] n by (simp_all add: in_int32_def int32_min_def int32_max_def)
qed

text \<open>When the checkpoint is taken.\<close>

lemma tenth:
  assumes "l mod 10 = 0" and "l \<le> n" and "n < l + 10"
  shows "int n smod 10 = 9 \<longleftrightarrow> Suc n = l + 10"
proof -
  obtain r where r: "n = l + r" "r < 10" using assms(2,3) less_imp_add_positive [of n "l + 10"]
    by (metis add_less_cancel_left le_Suc_ex)
  have "int n smod 10 = int n mod 10" by (rule smod_nonneg) simp_all
  moreover have "int n mod 10 = int (n mod 10)" by (simp add: zmod_int)
  moreover have "n mod 10 = r" using r assms(1) by (simp add: mod_add_left_eq [symmetric, of l])
  ultimately show ?thesis using r by auto
qed

lemma checkpoint_contents:
  assumes "checkpoint E s = Inr t" and "clusterSize s = 7" and "checkpoints s = []"
  shows "balances t = balances s" "checkpoints t = [(lastExecuted s, checkpoint_taken E (balances s) [])]"
    "\<And>j. j \<in> {0..6} - {serverId s} \<Longrightarrow>
       ToServer j (P_Checkpoint (checkpoint_request E (serverId s) (lastExecuted s) (balances s))) \<in> set (outbox t)"
  using assms
  by (auto simp: checkpoint_def sendCheckpointToAll_def to_others_payload new_CheckpointInfo_def checkpoint_taken_def
      balances_digest_def checkpoint_request_def addECDSASignature_def others_def Let_def)

lemma executePending_one:
  assumes "executePending E s = Inr t" and "lastExecuted s = int n - 1" and "currentSequence s = int n"
    and "in_int32 (int n)" and "entry_at s (int n) = Some e" and "mi_mstatus e = COMMITTED" and "lowWatermark s = int l"
    and "log s ! (n - l) = Some n" and "srv_inv E' s" and "l \<le> n"
  shows "execute_entry E (int n) n e s = Inr t"
proof -
  have len: "length (log s) = 20" and cur: "int n \<le> int l + 19" and n: "nat (int n - int l) = n - l" "in_int32 (int n - int l)"
    using assms(3,4,7,9,10) by (auto simp: srv_inv_def window_ok_def in_int32_def int32_min_def)
  have p: "n < length (heap s)" "heap s ! n = e"
    using assms(5,7,8,10) len n cur srv_inv_slotD(1) [OF assms(9) _ assms(8)] by (auto simp: entry_at_def)
  have slot: "execute_slot E (int n) s = ebind (execute_entry E (int n) n e s) (\<lambda>t. Ok (t, True))"
    using assms(6-8,10) len n cur p unfolding execute_slot_def
    by (simp add: isub_def cint_def vec_get_def deref_def)
  have "execute_from E (int n) s = Inr t" using assms(1,2,4) by (simp add: executePending_def iadd_def cint_def)
  then obtain u where u: "execute_entry E (int n) n e s = Inr u" "execute_from E (int n + 1) u = Inr t"
    using assms(3) slot by (auto simp: execute_from.simps [of E "int n"])
  have "currentSequence u = int n" using exec_frameD(6) [OF execute_entry_frame [OF u(1)]] assms(3) by simp
  then have "t = u" using u(2) by (simp add: execute_from.simps [of E "int n + 1"])
  with u(1) show ?thesis by simp
qed



lemma execute_entry_checkpoint:
  assumes "execute_entry E (int n) p e s = Inr t" and cfg: "clusterSize s = 7" "checkpointStepSize s = 10" "checkpoints s = []"
  shows "\<exists>b res. transfer (ms_data (mi_m e)) (balances s) = Inr (b, res) \<and> balances t = b \<and>
    (if int n smod 10 = 9 then checkpoints t = [(int n, checkpoint_taken E b [])] \<and>
       (\<forall>j \<in> {0..6} - {serverId s}. ToServer j (P_Checkpoint (checkpoint_request E (serverId s) (int n) b)) \<in> set (outbox t))
     else checkpoints t = [])"
proof -
  obtain b res e' tt s2 s3 where tr: "transfer (ms_data (mi_m e)) (balances s) = Inr (b, res)"
    and n: "notifyClient E (sg_server_id (ms_signature (mi_m e))) (mi_m e) res
        (put_entry p e' (s\<lparr>balances := b, lastExecuted := int n, totalTimeTaken := tt\<rparr>)) = Inr s2"
    and c: "(if int n smod checkpointStepSize s2 = checkpointStepSize s2 - 1 then checkpoint E s2 else Ok s2) = Inr s3"
    and t: "t = s3\<lparr>lastExecuted := int n\<rparr>"
    using assms(1) by (auto simp: execute_entry_def Let_def)
  obtain xs where s2: "s2 = sent xs (put_entry p e' (s\<lparr>balances := b, lastExecuted := int n, totalTimeTaken := tt\<rparr>))"
    using send_only(2) [OF n] by blast
  have eq: "clusterSize s2 = 7" "checkpoints s2 = []" "checkpointStepSize s2 = 10" "balances s2 = b" "lastExecuted s2 = int n"
    "serverId s2 = serverId s"
    using cfg by (simp_all add: s2)
  show ?thesis
  proof (cases "int n smod 10 = 9")
    case True
    then have "checkpoint E s2 = Inr s3" using c eq by simp
    note ef = checkpoint_contents [OF this eq(1,2)]
    with True tr show ?thesis by (simp add: t eq)
  next
    case False
    then have "s3 = s2" using c eq by simp
    with False tr eq show ?thesis by (simp add: t)
  qed
qed

lemma answers_ok_more:
  "answers_ok E i s \<Longrightarrow> (\<And>c r. ToClient c r \<in> set (outbox t) \<Longrightarrow> ToClient c r \<in> set (outbox s)) \<Longrightarrow> answers_ok E i t"
  unfolding answers_ok_def by blast

lemma checkpoint_no_answers:
  "checkpoint E s = Inr t \<Longrightarrow> clusterSize s = 7 \<Longrightarrow> ToClient c r \<in> set (outbox t) \<Longrightarrow> ToClient c r \<in> set (outbox s)"
  by (auto simp: checkpoint_def sendCheckpointToAll_def to_others_payload Let_def)

lemma execute_entry_answers:
  assumes "execute_entry E seq p e s = Inr t" and "answers_ok E (serverId s) s" and "currentView s = 1" "clusterSize s = 7"
  shows "answers_ok E (serverId s) t"
proof -
  obtain b res e' tt s2 s3 where
    n: "notifyClient E (sg_server_id (ms_signature (mi_m e))) (mi_m e) res
        (put_entry p e' (s\<lparr>balances := b, lastExecuted := seq, totalTimeTaken := tt\<rparr>)) = Inr s2"
    and c: "s3 = s2 \<or> checkpoint E s2 = Inr s3" and t: "t = s3\<lparr>lastExecuted := seq\<rparr>"
    using assms(1) by (fastforce simp: execute_entry_def Let_def split: if_splits)
  have s2: "answers_ok E (serverId s) s2" "clusterSize s2 = 7"
    using n assms(2-4) by (auto simp: notifyClient_def answers_ok_def addECDSASignature_def Let_def)
  have "answers_ok E (serverId s) s3"
    using c checkpoint_no_answers [of E s2 s3] s2 answers_ok_more [OF s2(1), of s3] by blast
  then show ?thesis by (simp add: t answers_ok_def)
qed

text \<open>The only committed entry is the new one; the loop executes it.\<close>

lemma executes_working:
  assumes w: "working E i l ms m e s" and c: "mi_mstatus e = COMMITTED"
  shows "\<exists>t. executePending E s = Inr t \<and> at_rest E i l (ms @ [m]) t \<and> set (outbox s) \<subseteq> set (outbox t)"
proof -
  let ?n = "length ms"
  have a: "after_requests E i l ms s" "currentSequence s = int ?n" "checkpoints s = []" using w by (simp_all add: working_def)
  note d = after_requestsD [OF a(1)] and e = working_entry [OF w]
  obtain t where t: "executePending E s = Inr t" and sol: "solvent t"
    using executePending_Ok [OF d(1,2)] by blast
  have m: "mi_m e = m" using w by (simp add: working_def)
  then have todo: "to_execute s = [(int ?n, ?n)]" and ms: "messages_at s (to_execute s) = [m]"
    using d a(2) e c by (simp_all add: to_execute_def slot_ptr_def messages_at_def)
  obtain L rs where run: "run_ledger [m] (ledger_after ms) = (L, rs)" by fastforce
  have led: "ledger_of (balances s) = ledger_after ms" "client_replies (outbox s) = replies_after ms"
    using a(1) by (auto simp: after_requests_def intro: balances_after_ledger)
  have ex: "client_replies (outbox t) = client_replies (outbox s) @ verdicts [m] rs"
    "lastExecuted t = int ?n" "\<And>p. mi_mstatus (heap t ! p) = (if p = ?n then EXECUTED else mi_mstatus (heap s ! p))"
    using executePending_spec [OF t d(1)] run led
    unfolding executes_def ms by (simp_all add: todo del: run_ledger.simps)
  note fr = exec_frameD [OF executePending_frame [OF t]]
  have one: "execute_entry E (int ?n) ?n e s = Inr t"
    by (rule executePending_one [OF t d(8) a(2) e(8,4) c d(7) e(3) d(1) e(6)])
  obtain b res where b: "transfer (ms_data m) (balances s) = Inr (b, res)" "balances t = b"
    and ck: "if int ?n smod 10 = 9 then checkpoints t = [(int ?n, checkpoint_taken E b [])] \<and>
       (\<forall>j \<in> {0..6} - {i}. ToServer j (P_Checkpoint (checkpoint_request E i (int ?n) b)) \<in> set (outbox t))
     else checkpoints t = []"
    using execute_entry_checkpoint [OF one d(11,16) a(3)] m d(3) by auto
  have bal: "balances_after (ms @ [m]) = Ok (balances t)" using a(1) b by (simp add: after_requests_def)
  have "answers_ok E i t"
    using execute_entry_answers [OF one] a(1) d(3,4,11) by (simp add: after_requests_def)
  then have "after_requests E i l (ms @ [m]) t"
    using executePending_inv [OF t d(1)] sol d ex ledger_after_snoc [OF run] fr led bal
    by (simp add: after_requests_def del: balances_after_snoc)
  moreover have "executed_entries (ms @ [m]) (heap t)"
  proof -
    obtain h where h: "heap s = h @ [e]" "executed_entries ms h" using w by (auto simp: working_def)
    have len: "length (heap t) = Suc ?n" and map: "map mi_m (heap t) = ms @ [m]"
      using executePending_execd [OF t] execd_messages [OF executePending_execd [OF t]] h \<open>mi_m e = m\<close> e(1)
      by (auto simp: execd_def executed_entries_def)
    have "mi_mstatus (heap t ! p) = EXECUTED" if "p < Suc ?n" for p
      using that ex(3) [of p] h e(1) by (auto simp: executed_entries_def nth_append less_Suc_eq)
    then show ?thesis using map len by (auto simp: executed_entries_def in_set_conv_nth)
  qed
  ultimately have idle: "idle E i l (ms @ [m]) t"
    using fr a(2) w by (simp add: idle_def working_def slots_from_def)
  have "at_rest E i l (ms @ [m]) t"
    using idle ck bal b(2) e(5) tenth [OF d(15,14) e(5)]
    by (cases "int ?n smod 10 = 9") (simp_all add: at_rest_def collecting_def served_def checkpoint_sent_def own_checkpoint_def del: balances_after_snoc)
  moreover have "set (outbox s) \<subseteq> set (outbox t)" using executePending_outbox [OF t] by auto
  ultimately show ?thesis using t by blast
qed

section \<open>The leader's proposal\<close>

lemma others_leader: "serverId s = i \<Longrightarrow> clusterSize s = 7 \<Longrightarrow> set (others s) = {0..6} - {i}"
  by (auto simp: others_def)

lemma served_entries:
  assumes "served E i l ms s"
  shows "length (heap s) = length ms" "\<forall>e \<in> set (heap s). payable (mi_m e)" "after_requests E i l ms s"
    "currentSequence s = int (length ms) - 1" "length ms < l + 10" "checkpoints s = []" "slots_from l (length ms) s"
    "executed_entries ms (heap s)" "sm_keys (digestToEntry s) \<subseteq> message_digest E ` set ms"
  using assms by (auto simp: served_def idle_def executed_entries_def after_requests_def solvent_def)

text \<open>The slot of the next request is inside the log, and free.\<close>

lemma free_slot_next:
  assumes "served E i l ms s"
  shows "log s ! (length ms - l) = None" "length ms - l < 20" "nat (int (length ms) - int l) = length ms - l"
    "in_int32 (int (length ms))" "in_int32 (int (length ms) - int l)"
proof -
  note a = served_entries [OF assms] and d = after_requestsD [OF served_entries(3) [OF assms]]
  show n: "length ms - l < 20" "nat (int (length ms) - int l) = length ms - l"
    "in_int32 (int (length ms))" "in_int32 (int (length ms) - int l)"
    using a(5) d(14,18) by (simp_all add: in_int32_def int32_min_def int32_max_def)
  show "log s ! (length ms - l) = None"
    using slot_beyond_free [OF d(1) n(1)] a(4) d(7,14) by simp
qed

text \<open>From idle to busy: the new entry is in the next slot, and nothing else that matters changes.\<close>

lemma working_start:
  assumes s: "served E i l ms s" and inv: "srv_inv E t" and m: "payable m"
    and t: "heap t = heap s @ [e]" "log t = (log s)[length ms - l := Some (length ms)]" "currentSequence t = int (length ms)"
    and keys: "sm_keys (digestToEntry t) = insert (message_digest E m) (sm_keys (digestToEntry s))"
    and e: "mi_m e = m" "rq_data (mi_prePrepare e) = context_of E ms m"
    and same: "serverId t = serverId s" "currentView t = currentView s" "srvState t = srvState s"
      "isByzantine t = isByzantine s" "lowWatermark t = lowWatermark s" "lastExecuted t = lastExecuted s"
      "balances t = balances s" "client_replies (outbox t) = client_replies (outbox s)" "checkpoints t = checkpoints s"
    and answers: "\<And>c r. ToClient c r \<in> set (outbox t) \<Longrightarrow> ToClient c r \<in> set (outbox s)"
  shows "working E i l ms m e t"
proof -
  note a = served_entries [OF s] and d = after_requestsD [OF served_entries(3) [OF s]]
  have "solvent t" using d(2,18) a(2,5) m e(1) by (simp add: solvent_def t same)
  then have "after_requests E i l ms t"
    using inv a(3) same answers_ok_more [OF _ answers] by (simp add: after_requests_def)
  moreover have "slots_from l (Suc (length ms)) t"
    using a(5,7) d(10,14) by (auto simp: slots_from_def t(2) nth_list_update less_Suc_eq Suc_diff_le)
  ultimately show ?thesis using t e keys a(5,6,8,9) same(9) unfolding working_def by auto
qed

lemma leader_proposes:
  assumes s: "served E 1 l ms s" and m: "next_request_ok E ms m"
  shows "\<exists>t r. processTransfer E m s = Inr t \<and> working E 1 l ms m (proposed_entry E m r) t \<and> coded_by 1 r \<and>
    (\<forall>j \<in> {0..6} - {1}. ToServer j (P_PrePrepare \<lparr>pp_r = r, pp_m = m\<rparr>) \<in> set (outbox t))"
proof -
  let ?n = "length ms" and ?d = "message_digest E m"
  note a = served_entries [OF s] and d = after_requestsD [OF served_entries(3) [OF s]]
  have m': "verifySignature_Message E m" "payable m" "?d \<notin> message_digest E ` set ms"
    using m by (simp_all add: next_request_ok_def)
  note free = free_slot_next [OF s]
  define s1 where "s1 = s\<lparr>currentSequence := int ?n\<rparr>"
  define r where "r = new_proposal E ?d s1"
  define u where "u = s1\<lparr>heap := heap s @ [proposed_entry E m r], log := (log s)[?n - l := Some ?n],
      digestToEntry := sm_put ?d ?n (digestToEntry s)\<rparr>"
  define t where "t = sent (map (\<lambda>i. ToServer i (P_PrePrepare \<lparr>pp_r = r, pp_m = m\<rparr>)) (others u)) u"
  have send: "sendPrePrepareToAll \<lparr>pp_r = r, pp_m = m\<rparr> u = Inr t"
    using d(11) unfolding sendPrePrepareToAll_def t_def by (simp add: to_others_payload u_def s1_def)
  have "?d \<notin> sm_keys (digestToEntry s)" using a(9) m'(3) by auto
  then have "find_entry s ?d = Ok None" by (auto simp: find_entry_def sm_keys_find split: option.split)
  then have "processTransfer E m s = propose E m ?d s"
    using d m'(1) by (simp add: processTransfer_def Let_def)
  also have "\<dots> = Inr t"
    using a d free send unfolding propose_def Let_def
    by (simp add: iadd_def isub_def cint_def vec_set_def u_def s1_def r_def)
  finally have step: "processTransfer E m s = Inr t" .
  have inv: "srv_inv E t" using processTransfer_keeps [OF step] d(1) by (simp add: keeps_def)
  have out: "outbox t = outbox s @ map (\<lambda>i. ToServer i (P_PrePrepare \<lparr>pp_r = r, pp_m = m\<rparr>)) (others u)"
    by (simp add: t_def u_def s1_def)
  have "client_replies (map (\<lambda>i. ToServer i p) is) = []" for p "is" by (induction "is") simp_all
  then have "working E 1 l ms m (proposed_entry E m r) t"
    by (intro working_start [OF s inv m'(2)])
      (simp_all add: t_def u_def s1_def r_def context_of_def d(4), auto)
  moreover have "coded_by 1 r"
    using d by (simp add: r_def coded_by_def new_proposal_def addMACSignature_def s1_def Let_def)
  moreover have "set (others u) = {0..6} - {1}" by (rule others_leader) (simp_all add: u_def s1_def d)
  ultimately show ?thesis using step out by (intro exI [of _ t] exI [of _ r]) auto
qed

section \<open>The replicas' votes\<close>

definition vote_for :: "env \<Rightarrow> Message list \<Rightarrow> Message \<Rightarrow> int \<Rightarrow> Request \<Rightarrow> bool" where
  "vote_for E ms m i ok \<longleftrightarrow> rq_data ok = context_of E ms m \<and> coded_by i ok"

lemma replica_accepts:
  assumes s: "served E i l ms s" and m: "next_request_ok E ms m"
    and r: "rq_data r = context_of E ms m" "coded_by 1 r"
  shows "\<exists>t e ok. processPrePrepare E \<lparr>pp_r = r, pp_m = m\<rparr> s = Inr t \<and> working E i l ms m e t \<and>
    mi_mstatus e = PRE_PREPARED \<and> mi_commitProofs e = [] \<and>
    vote_for E ms m i ok \<and> ToServer 1 (P_PrePrepareOk ok) \<in> set (outbox t)"
proof -
  let ?n = "length ms" and ?d = "message_digest E m" and ?q = "\<lparr>pp_r = r, pp_m = m\<rparr>"
  note a = served_entries [OF s] and d = after_requestsD [OF served_entries(3) [OF s]]
  have m': "verifySignature_Message E m" "payable m" "?d \<notin> message_digest E ` set ms"
    using m by (simp_all add: next_request_ok_def)
  note free = free_slot_next [OF s]
  define u where "u = free_slot E (?n - l) (note_proposal ?q s)"
  define ok where "ok = own_prePrepareOk E r u"
  define e where "e = accepted_entry E ?q ok u (new_MessageInfo E)"
  define t where "t = start_timer (SeqTimer (int ?n) 2 (viewChangeTimeoutDelta s))
    (emit (ToServer 1 (P_PrePrepareOk ok))
      (u\<lparr>heap := heap s @ [e], digestToEntry := sm_put ?d ?n (digestToEntry s)\<rparr>))"
  have u: "heap u = heap s @ [new_MessageInfo E]" "log u = (log s)[?n - l := Some ?n]" "currentSequence u = int ?n"
      "digestToEntry u = digestToEntry s" "serverId u = i" "clusterSize u = 7" "isByzantine u = isByzantine s"
      "currentView u = 1" "viewChangeTimeoutDelta u = viewChangeTimeoutDelta s"
    using a d r(1) by (simp_all add: u_def free_slot_def note_proposal_def context_of_def)
  have "put_entry ?n e u = u\<lparr>heap := heap s @ [e]\<rparr>" using u(1) a(1) by (simp add: put_entry_def list_update_append)
  moreover have "(heap s @ [new_MessageInfo E]) ! ?n = new_MessageInfo E" using a(1) by (simp add: nth_append)
  ultimately have acc: "accept_prePrepare E ?q (int ?n) ?n u = Inr t"
    using u a(1) d(6) r unfolding accept_prePrepare_def Let_def
    by (simp add: t_def e_def ok_def context_of_def coded_by_def sendRequest_def serverStub_at_def vec_at_def
        deref_def iadd_def cint_def emit_def)
  have v: "valid_proposal E ?q s"
    using d m' r a(5) by (simp add: valid_proposal_def context_of_def coded_by_def)
  have step: "processPrePrepare E ?q s = Inr t"
    using acc v free d a(1-5) r(1) unfolding processPrePrepare_def Let_def valid_proposal_def
    by (simp add: u_def free_slot_def note_proposal_def context_of_def isub_def cint_def vec_get_def vec_set_def)
  have inv: "srv_inv E t" using processPrePrepare_keeps [OF step] d(1) by (simp add: keeps_def)
  have "working E i l ms m e t"
    by (intro working_start [OF s inv m'(2)])
      (simp_all add: t_def start_timer_def e_def r u free_slot_def note_proposal_def u_def a(1,4) context_of_def)
  moreover have "vote_for E ms m i ok"
    using u r(1) by (simp add: vote_for_def coded_by_def ok_def own_prePrepareOk_def addMACSignature_def Let_def)
  moreover have "mi_mstatus e = PRE_PREPARED" "mi_commitProofs e = []" by (simp_all add: e_def)
  moreover have "ToServer 1 (P_PrePrepareOk ok) \<in> set (outbox t)" by (simp add: t_def start_timer_def)
  ultimately show ?thesis using step by blast
qed

section \<open>Counting the votes\<close>

text \<open>Busy before and after: only the new entry differs.\<close>

lemma working_step:
  assumes w: "working E i l ms m e s" and inv: "srv_inv E t" and t: "heap t = (heap s)[length ms := e']"
    and e: "mi_m e' = m" "rq_data (mi_prePrepare e') = context_of E ms m"
    and same: "serverId t = serverId s" "currentView t = currentView s" "srvState t = srvState s"
      "isByzantine t = isByzantine s" "lowWatermark t = lowWatermark s" "lastExecuted t = lastExecuted s"
      "balances t = balances s" "client_replies (outbox t) = client_replies (outbox s)" "log t = log s"
      "currentSequence t = currentSequence s" "digestToEntry t = digestToEntry s" "checkpoints t = checkpoints s"
    and answers: "\<And>c r. ToClient c r \<in> set (outbox t) \<Longrightarrow> ToClient c r \<in> set (outbox s)"
  shows "working E i l ms m e' t"
proof -
  obtain h where h: "heap s = h @ [e]" "executed_entries ms h" using w by (auto simp: working_def)
  then have "length h = length ms" by (auto simp: executed_entries_def)
  with h(1) t have ht: "heap t = h @ [e']" by (simp add: list_update_append)
  have "mi_m e = m" "after_requests E i l ms s" using w by (simp_all add: working_def)
  then have "solvent t" using e(1) by (simp add: after_requests_def solvent_def ht h(1) same)
  moreover have "answers_ok E i t"
    using w answers_ok_more [OF _ answers] by (simp add: working_def after_requests_def)
  ultimately show ?thesis using w inv h(2) e ht same by (auto simp: working_def after_requests_def slots_from_def)
qed

definition counting :: "env \<Rightarrow> nat \<Rightarrow> Message list \<Rightarrow> Message \<Rightarrow> (int, Request) smap \<Rightarrow> srv \<Rightarrow> bool" where
  "counting E l ms m V s \<longleftrightarrow> (\<exists>e. working E 1 l ms m e s \<and> mi_prepareProofs e = V \<and>
     mi_mstatus e = (if length V < 4 then PRE_PREPARED else PREPARED) \<and>
     (4 \<le> length V \<longrightarrow> OptimisticTimer (int (length ms)) \<in> set (futures s)))"

lemma leader_counts:
  assumes c: "counting E l ms m V s" and v: "vote_for E ms m i ok"
  shows "\<exists>t. processPrePrepareOk E ok s = Inr t \<and> counting E l ms m (sm_put i ok V) t \<and> outbox t = outbox s"
proof -
  let ?n = "length ms" and ?V = "sm_put i ok V"
  obtain e where w: "working E 1 l ms m e s" and V: "mi_prepareProofs e = V"
    and st: "mi_mstatus e = (if length V < 4 then PRE_PREPARED else PREPARED)"
    and tm: "4 \<le> length V \<longrightarrow> OptimisticTimer (int ?n) \<in> set (futures s)"
    using c by (auto simp: counting_def)
  have a: "after_requests E 1 l ms s" and data: "mi_m e = m" "rq_data (mi_prePrepare e) = context_of E ms m"
    using w by (simp_all add: working_def)
  note d = after_requestsD [OF a] and en = working_entry [OF w]
  have sig: "verifySignature_Request E s ok = Inr True" "sv_server_id (rq_sig_vec ok) = i"
    using v d(3) by (auto simp: vote_for_def coded_by_def intro: coded_by_read [of i])
  have le: "log_entry s (int ?n - int l) = Inr (?n, e)" using en d by (simp add: log_entry_Ok_iff)
  define e' where "e' = (if length V < 4 \<and> 4 \<le> length ?V then e\<lparr>mi_prepareProofs := ?V, mi_mstatus := PREPARED\<rparr>
    else e\<lparr>mi_prepareProofs := ?V\<rparr>)"
  define t where "t = (if length V < 4 \<and> 4 \<le> length ?V then start_timer (OptimisticTimer (int ?n)) (put_entry ?n e' s)
    else put_entry ?n e' s)"
  have step: "processPrePrepareOk E ok s = Inr t"
    using d sig v le V st data(2) en(5) unfolding processPrePrepareOk_def Let_def
    by (simp add: vote_for_def context_of_def isub_def cint_def t_def e'_def)
  have inv: "srv_inv E t" using processPrePrepareOk_keeps [OF step, of E] d(1) by (simp add: keeps_def)
  have "working E 1 l ms m e' t"
    by (rule working_step [OF w inv]) (simp_all add: t_def e'_def data start_timer_def split: if_splits)
  moreover have "length V \<le> length ?V" by (rule length_sm_put_ge)
  ultimately have "counting E l ms m ?V t"
    using V st tm unfolding counting_def
    by (intro exI [of _ e']) (auto simp: e'_def t_def start_timer_def)
  then show ?thesis using step by (auto simp: t_def start_timer_def)
qed

section \<open>The certificate\<close>

definition certificate_for :: "env \<Rightarrow> Message list \<Rightarrow> Message \<Rightarrow> ProofRequest \<Rightarrow> bool" where
  "certificate_for E ms m pf \<longleftrightarrow> pf_data pf = context_of E ms m \<and>
     (\<forall>sv \<in> set (pf_sig_vecs pf). 7 \<le> length (sv_signatures sv)) \<and> 5 \<le> card (sv_server_id ` set (pf_sig_vecs pf))"

lemma leader_commits:
  assumes c: "counting E l ms m V s" and V: "length V = 6" "sm_wf V" "\<forall>(i, ok) \<in> set V. vote_for E ms m i ok"
  shows "\<exists>t pf. fire_OptimisticTimer E (int (length ms)) s = Inr t \<and> at_rest E 1 l (ms @ [m]) t \<and>
    certificate_for E ms m pf \<and> (\<forall>j \<in> {0..6} - {1}. ToServer j (P_Commit pf) \<in> set (outbox t))"
proof -
  let ?n = "length ms"
  obtain e where w: "working E 1 l ms m e s" and pr: "mi_prepareProofs e = V"
    using c by (auto simp: counting_def)
  have a: "after_requests E 1 l ms s" and data: "mi_m e = m" "rq_data (mi_prePrepare e) = context_of E ms m"
    using w by (simp_all add: working_def)
  note d = after_requestsD [OF a] and en = working_entry [OF w]
  have le: "log_entry s (int ?n - int l) = Inr (?n, e)" using en d by (simp add: log_entry_Ok_iff)
  define own where "own = own_commit_proof E e s"
  define pf where "pf = \<lparr>pf_data = rq_data (mi_prePrepare e), pf_sig_vecs = map rq_sig_vec (sm_vals V) @ [rq_sig_vec own]\<rparr>"
  define e1 where "e1 = e\<lparr>mi_mstatus := COMMITTED, mi_commitProofs := sm_put (serverId s) own V\<rparr>"
  define u where "u = (put_entry ?n e1 s)\<lparr>lastCommitted := int ?n\<rparr>"
  define x where "x = sent (map (\<lambda>i. ToServer i (P_Commit pf)) (others u)) u"
  have send: "sendRequestToAll pf COMMIT u = Inr x"
    unfolding x_def by (rule sendRequestToAll_sent(2)) (simp add: u_def d(11))
  have fire: "fire_OptimisticTimer E (int ?n) s = executePending E x"
    using d le V(1) pr send en(5) unfolding fire_OptimisticTimer_def Let_def
    by (simp add: isub_def cint_def own_def pf_def e1_def u_def)
  have "entry_ok E e \<and> entry_view e \<le> currentView s" using srv_inv_entryD [OF d(1), of ?n] en by simp
  then have "srv_inv E (put_entry ?n e1 s)"
    using en pr own_votes(1) [of E e s]
    by (intro srv_inv_put_entry [OF d(1)]) (simp_all add: e1_def entry_ok_def entry_view_def entry_seq_def own_def)
  then have inv: "srv_inv E x" by (simp add: x_def u_def srv_inv_sent srv_inv_lastCommitted)
  have "client_replies (map (\<lambda>i. ToServer i p) is) = []" for p "is" by (induction "is") simp_all
  then have "working E 1 l ms m e1 x"
    by (intro working_step [OF w inv]) (simp_all add: x_def u_def e1_def data, auto)
  then obtain t where t: "executePending E x = Inr t" "at_rest E 1 l (ms @ [m]) t" "set (outbox x) \<subseteq> set (outbox t)"
    using executes_working [of E 1 l ms m e1 x] by (auto simp: e1_def)
  have "set (others u) = {0..6} - {1}" by (rule others_leader) (simp_all add: u_def d)
  then have out: "\<forall>j \<in> {0..6} - {1}. ToServer j (P_Commit pf) \<in> set (outbox t)" using t(3) by (auto simp: x_def)
  have votes: "\<forall>sv \<in> set (pf_sig_vecs pf). 7 \<le> length (sv_signatures sv)"
    using V(3) d(11) by (auto simp: pf_def sm_vals_def vote_for_def coded_by_def own_def own_commit_proof_def addMACSignature_def)
  have "sv_server_id (rq_sig_vec (snd y)) = fst y" if "y \<in> set V" for y
    using V(3) that by (cases y) (auto simp: vote_for_def coded_by_def)
  then have "sm_keys V \<subseteq> sv_server_id ` set (pf_sig_vecs pf)"
    by (force simp: pf_def sm_vals_def sm_keys_def)
  then have "5 \<le> card (sv_server_id ` set (pf_sig_vecs pf))"
    using V(1) sm_size_keys [OF V(2)] card_mono [of "sv_server_id ` set (pf_sig_vecs pf)" "sm_keys V"] by simp
  with votes have "certificate_for E ms m pf" by (simp add: certificate_for_def pf_def data)
  with fire t out show ?thesis by auto
qed

text \<open>A replica with the proposal executes it when the certificate comes.\<close>

lemma replica_commits:
  assumes w: "working E i l ms m e s" and st: "mi_mstatus e = PRE_PREPARED" and pf: "certificate_for E ms m pf"
  shows "\<exists>t. processCommit E pf s = Inr t \<and> at_rest E i l (ms @ [m]) t"
proof -
  let ?n = "length ms" and ?d = "context_of E ms m"
  have a: "after_requests E i l ms s" and data: "mi_m e = m" "rq_data (mi_prePrepare e) = ?d"
    using w by (simp_all add: working_def)
  note d = after_requestsD [OF a] and en = working_entry [OF w]
  have id: "0 \<le> serverId s" "serverId s < 7" using d(1) by (simp_all add: srv_inv_def config_ok_def)
  obtain M where M: "add_proofs E s ?d ?d (pf_sig_vecs pf) (mi_commitProofs e) = Inr M"
    and keys: "sm_keys M = sv_server_id ` set (pf_sig_vecs pf) \<union> sm_keys (mi_commitProofs e)"
    using add_proofs_all [of ?d ?d s "pf_sig_vecs pf" E "mi_commitProofs e"] id pf
    by (force simp: certificate_for_def)
  have ok: "entry_ok E e \<and> entry_view e \<le> currentView s" using srv_inv_entryD [OF d(1), of ?n] en by simp
  then have wf: "votes_wf M" using add_proofs_wf [OF M] by (simp add: entry_ok_def)
  have "5 \<le> length M"
    using pf keys votes_wfD [OF wf] card_mono [of "sm_keys M" "sv_server_id ` set (pf_sig_vecs pf)"]
    by (simp add: sm_size_keys certificate_for_def)
  define e1 where "e1 = e\<lparr>mi_commitProofs := M, mi_mstatus := COMMITTED\<rparr>"
  define u where "u = (put_entry ?n e1 s)\<lparr>lastCommitted := max (int ?n) (lastCommitted s)\<rparr>"
  have step: "processCommit E pf s = executePending E u"
    using d pf en M data st \<open>5 \<le> length M\<close> unfolding processCommit_def Let_def
    by (simp add: certificate_for_def context_of_def isub_def cint_def vec_get_def deref_def u_def e1_def)
  have "srv_inv E (put_entry ?n e1 s)"
    using ok en wf by (intro srv_inv_put_entry [OF d(1)]) (simp_all add: e1_def entry_ok_def entry_view_def entry_seq_def)
  then have inv: "srv_inv E u" by (simp add: u_def srv_inv_lastCommitted)
  have "working E i l ms m e1 u"
    by (rule working_step [OF w inv]) (simp_all add: u_def e1_def data)
  then show ?thesis using executes_working [of E i l ms m e1 u] step by (auto simp: e1_def)
qed

section \<open>The checkpoint\<close>

lemma checkpoint_request_sel [simp]:
  "cd_c_seq_num (cr_data (checkpoint_request E j n b)) = n" "cd_c_digest (cr_data (checkpoint_request E j n b)) = balances_digest E b"
  "sg_server_id (cr_signature (checkpoint_request E j n b)) = j"
  by (simp_all add: checkpoint_request_def Let_def)

definition keyed :: "env \<Rightarrow> bool" where
  "keyed E \<longleftrightarrow> (\<forall>i \<in> {0..6}. key_pair E (serverPrECDSAKeyPath i) (serverPbECDSAKeyPath i))"

lemma checkpoint_request_signed:
  "keyed E \<Longrightarrow> j \<in> {0..6} \<Longrightarrow> verifySignature_CheckpointReq E (checkpoint_request E j n b)"
  using verify_sign [of E] by (auto simp: keyed_def verifySignature_CheckpointReq_def checkpoint_request_def Let_def)

lemma erase_digests_Ok:
  "(\<And>i. i \<in> set is \<Longrightarrow> \<exists>p e. log_entry s i = Inr (p, e)) \<Longrightarrow> \<exists>d'. erase_digests s is d = Inr d'"
proof (induction "is" arbitrary: d)
  case (Cons i "is")
  obtain p e where "log_entry s i = Inr (p, e)" using Cons.prems [of i] by auto
  moreover have "\<exists>d'. erase_digests s is (sm_erase (cx_digest (rq_data (mi_prePrepare e))) d) = Inr d'"
    using Cons by auto
  ultimately show ?case by auto
qed simp

lemma collectingD:
  assumes "collecting E i l ms V s"
  shows "idle E i l ms s" "length ms = l + 10" "after_requests E i l ms s" "balances_after ms = Inr (balances s)"
    "checkpoints s = [(9 + int l, checkpoint_taken E (balances s) V)]" "currentSequence s = 9 + int l"
  using assms by (auto simp: collecting_def idle_def after_requests_def)

text \<open>Ten slots leave the log; every one of them holds an entry.\<close>

lemma make_stable_Ok:
  assumes c: "idle E i l ms s" and ms: "length ms = l + 10" and room: "int l + 30 \<le> int32_max"
  shows "\<exists>t. make_stable (9 + int l) ci (s\<lparr>checkpoints := m\<rparr>) = Inr t"
proof -
  have a: "after_requests E i l ms s" using c by (simp add: idle_def)
  note d = after_requestsD [OF a]
  have slot: "log s ! k = Some (l + k) \<and> l + k < length (heap s)" if "k < 10" for k
    using that c ms srv_inv_slotD(1) [OF d(1), of k "l + k"] by (auto simp: idle_def slots_from_def)
  define s1 where "s1 = s\<lparr>checkpoints := m, lastStableCheckpointSeqNum := 9 + int l, lastStableCheckpointDigest := ci_digest ci,
      lastStableCheckpointState := ci_state ci, lastStableCheckpointProofs := ci_checkpointProofs ci,
      checkpoints := sm_erase (9 + int l) m, lowWatermark := 10 + int l, highWatermark := 29 + int l\<rparr>"
  have "\<exists>p e. log_entry s1 k = Inr (p, e)" if "k \<in> set [0..9]" for k
    using that slot [of "nat k"] d(10) by (auto simp: log_entry_Ok_iff s1_def)
  then obtain d' where d': "erase_digests s1 [0..9] (digestToEntry s1) = Inr d'" using erase_digests_Ok by blast
  show ?thesis
    using d d' room unfolding make_stable_def Let_def
    by (simp add: isub_def iadd_def cint_def in_int32_def int32_min_def int32_max_def s1_def vec_erase_front_def)
qed

lemma idle_step:
  assumes s: "idle E i l ms s" and inv: "srv_inv E t"
    and low: "lowWatermark t = int l'" "l' mod 10 = 0" "l' \<le> length ms" "slots_from l' (length ms) t"
    and same: "serverId t = serverId s" "currentView t = currentView s" "srvState t = srvState s"
      "isByzantine t = isByzantine s" "lastExecuted t = lastExecuted s" "balances t = balances s"
      "outbox t = outbox s" "heap t = heap s" "currentSequence t = currentSequence s"
    and keys: "sm_keys (digestToEntry t) \<subseteq> sm_keys (digestToEntry s)"
  shows "idle E i l' ms t"
  using assms unfolding idle_def after_requests_def solvent_def answers_ok_def by auto

lemma checkpoint_received:
  assumes c: "collecting E i l ms V s" and k: "keyed E" "j \<in> {0..6}" and room: "int l + 30 \<le> int32_max"
    and V: "sm_wf V"
  shows "\<exists>t. processCheckpoint E (own_checkpoint E j ms) s = Inr t \<and> checkpoint_sent E i ms t \<and>
    (if length (sm_put j (own_checkpoint E j ms) V) < 5 then collecting E i l ms (sm_put j (own_checkpoint E j ms) V) t else served E i (l + 10) ms t)"
proof -
  note x = collectingD [OF c] and d = after_requestsD [OF collectingD(3) [OF c]]
  define W where "W = sm_put j (own_checkpoint E j ms) V"
  define ci where "ci = checkpoint_taken E (balances s) W"
  define s1 where "s1 = s\<lparr>checkpoints := [(9 + int l, ci)]\<rparr>"
  have r: "own_checkpoint E j ms = checkpoint_request E j (9 + int l) (balances s)" using x(2,4) by (simp add: own_checkpoint_def)
  have step: "processCheckpoint E (own_checkpoint E j ms) s = (if length W < 5 then Ok s1 else make_stable (9 + int l) ci s1)"
    using x(5) d(8,12,19) x(2) checkpoint_request_signed [OF k]
    unfolding processCheckpoint_def Let_def r
    by (simp add: checkpoint_taken_def W_def r s1_def ci_def)
  have sent: "checkpoint_sent E i ms s" using c by (simp add: collecting_def)
  show ?thesis
  proof (cases "length W < 5")
    case True
    with step have st: "processCheckpoint E (own_checkpoint E j ms) s = Inr s1" by simp
    have "srv_inv E s1" using processCheckpoint_keeps [OF st] d(1) by (simp add: keeps_def)
    then have "idle E i l ms s1"
      by (rule idle_step [OF x(1)]) (use x(1) d in \<open>simp_all add: s1_def idle_def slots_from_def\<close>)
    then show ?thesis using st True sent x(2)
      by (simp add: W_def [symmetric] collecting_def s1_def checkpoint_sent_def ci_def)
  next
    case False
    obtain t where t: "make_stable (9 + int l) ci s1 = Inr t"
      using make_stable_Ok [OF x(1,2) room] unfolding s1_def by blast
    with step False have st: "processCheckpoint E (own_checkpoint E j ms) s = Inr t" by simp
    have inv: "srv_inv E t" using processCheckpoint_keeps [OF st] d(1) by (simp add: keeps_def)
    from make_stable_cases [OF t] obtain dg high where
      eq: "t = s1\<lparr>lastStableCheckpointSeqNum := 9 + int l, lastStableCheckpointDigest := ci_digest ci,
        lastStableCheckpointState := ci_state ci, lastStableCheckpointProofs := ci_checkpointProofs ci,
        checkpoints := sm_erase (9 + int l) (checkpoints s1), lowWatermark := 9 + int l + 1, highWatermark := high,
        digestToEntry := dg, log := drop (nat (9 + int l - lowWatermark s1 + 1)) (log s1) @
          replicate (nat (9 + int l - lowWatermark s1 + 1)) None\<rparr>" and dg: "set dg \<subseteq> set (digestToEntry s1)"
      by blast
    have "idle E i (l + 10) ms t"
      by (rule idle_step [OF x(1) inv])
        (use x(2) d(15) dg in \<open>auto simp: eq s1_def slots_from_def sm_keys_def mod_add_right_eq\<close>)
    moreover have "checkpoints t = []" by (simp add: eq s1_def sm_erase_def)
    ultimately show ?thesis using st False x(2) sent
      by (simp add: W_def [symmetric] served_def checkpoint_sent_def eq s1_def)
  qed
qed

end
