(* ===== verification/Progress.thy ===== *)
theory Progress
  imports Cluster Server_Progress
begin

text \<open>
  That the protocol gets somewhere: from its start, a cluster without faults can execute any
  number of requests, in order, on every server. Each request takes its normal course: proposal, votes,
  the leader's timer, commit certificate; after every ten requests the servers exchange a checkpoint,
  which becomes stable and moves the window on.
\<close>

section \<open>Steps of several servers\<close>

text \<open>The steps of the cluster in which no other requests of clients arrive than those in \<open>T\<close>, pairs of a
  server and a message.\<close>

inductive relayed :: "env \<Rightarrow> (int \<times> Message) set \<Rightarrow> cluster \<Rightarrow> cluster \<Rightarrow> bool" for E T where
  deliver: "i \<in> server_ids \<Longrightarrow>
     (\<exists>m. p = P_Transfer m \<and> (i, m) \<in> T) \<or> (\<exists>j \<in> server_ids. ToServer i p \<in> set (outbox (C j))) \<Longrightarrow>
     server_step E (C i) (Rpc p) t \<Longrightarrow> relayed E T C (C(i := t))"
| expire: "i \<in> server_ids \<Longrightarrow> server_step E (C i) (Fire x) t \<Longrightarrow> relayed E T C (C(i := t))"

lemma relayed_cluster_step: "relayed E T C D \<Longrightarrow> cluster_step E C D"
proof (induction rule: relayed.induct)
  case (deliver i p C t)
  show ?case by (rule cluster_step.deliver) (use deliver in \<open>auto simp: in_transit_def\<close>)
qed (rule cluster_step.expire)

lemma relayed_run: "rtranclp (relayed E T) C D \<Longrightarrow> rtranclp (cluster_step E) C D"
  by (erule rtranclp_mono [THEN predicate2D, rotated]) (blast intro: relayed_cluster_step)

lemma deliver_now:
  assumes "i \<in> server_ids"
    and "(\<exists>m. p = P_Transfer m \<and> (i, m) \<in> T) \<or> (\<exists>j \<in> server_ids. ToServer i p \<in> set (outbox (C j)))"
    and "handle_payload E p (C i) = Inr t"
  shows "relayed E T C (C(i := t))"
  by (rule relayed.deliver [OF assms(1,2)], rule server_step_now) (use assms(3) in auto)

lemma deliver_sent:
  "i \<in> server_ids \<Longrightarrow> j \<in> server_ids \<Longrightarrow> ToServer i p \<in> set (outbox (C j)) \<Longrightarrow> handle_payload E p (C i) = Inr t \<Longrightarrow>
     relayed E T C (C(i := t))"
  by (rule deliver_now) auto

text \<open>Each server of a list makes a run of its own, on what is true of the other servers before and after
  theirs.\<close>

lemma each_server_runs:
  assumes "distinct is" and "\<forall>j. R j (C j)"
    and step: "\<And>D i. \<forall>j. R j (D j) \<Longrightarrow> D i = C i \<Longrightarrow> i \<in> set is \<Longrightarrow>
      \<exists>t. rtranclp (relayed E T) D (D(i := t)) \<and> Q i t \<and> R i t"
  shows "\<exists>D. rtranclp (relayed E T) C D \<and> (\<forall>i \<in> set is. Q i (D i)) \<and> (\<forall>i. i \<notin> set is \<longrightarrow> D i = C i) \<and> (\<forall>j. R j (D j))"
  using assms
proof (induction "is" rule: rev_induct)
  case (snoc i "is")
  have "\<exists>D. rtranclp (relayed E T) C D \<and> (\<forall>i \<in> set is. Q i (D i)) \<and> (\<forall>i. i \<notin> set is \<longrightarrow> D i = C i) \<and> (\<forall>j. R j (D j))"
    by (rule snoc.IH) (use snoc.prems in auto)
  then obtain D where D: "rtranclp (relayed E T) C D" "\<forall>i \<in> set is. Q i (D i)" "\<forall>i. i \<notin> set is \<longrightarrow> D i = C i"
      "\<forall>j. R j (D j)" by blast
  have "D i = C i" "i \<in> set (is @ [i])" using D(3) snoc.prems(1) by auto
  from snoc.prems(3) [of D i, OF D(4) this] obtain t where
    t: "rtranclp (relayed E T) D (D(i := t))" "Q i t" "R i t" by blast
  have "rtranclp (relayed E T) C (D(i := t))" by (rule rtranclp_trans [OF D(1) t(1)])
  moreover have "\<forall>k \<in> set (is @ [i]). Q k ((D(i := t)) k)" "\<forall>k. k \<notin> set (is @ [i]) \<longrightarrow> (D(i := t)) k = C k"
    "\<forall>j. R j ((D(i := t)) j)"
    using D(2-4) t(2,3) by simp_all
  ultimately show ?case by blast
qed auto

text \<open>In particular, each may move once on something that server 1 has sent.\<close>

lemma each_server_moves:
  assumes "distinct is" and "1 \<notin> set is"
    and step: "\<And>D i. D 1 = C 1 \<Longrightarrow> D i = C i \<Longrightarrow> i \<in> set is \<Longrightarrow> \<exists>t. relayed E T D (D(i := t)) \<and> Q i t"
  shows "\<exists>D. rtranclp (relayed E T) C D \<and> (\<forall>i \<in> set is. Q i (D i)) \<and> (\<forall>i. i \<notin> set is \<longrightarrow> D i = C i)"
proof -
  have "\<exists>t. rtranclp (relayed E T) D (D(i := t)) \<and> Q i t \<and> (i = 1 \<longrightarrow> t = C 1)"
    if "\<forall>j. j = 1 \<longrightarrow> D j = C 1" "D i = C i" "i \<in> set is" for D i
    using step [of D i] that assms(2) by (metis r_into_rtranclp)
  from each_server_runs [of "is" "\<lambda>j t. j = 1 \<longrightarrow> t = C 1" C E T Q, OF assms(1) _ this] show ?thesis by blast
qed

text \<open>The votes arrive one after the other.\<close>

lemma votes_arrive:
  assumes "set is \<subseteq> server_ids - {1}"
    and "\<forall>i \<in> set is. vote_for E ms m i (ok i) \<and> ToServer 1 (P_PrePrepareOk (ok i)) \<in> set (outbox (C i))"
    and "counting E l ms m V (C 1)"
  shows "\<exists>t. rtranclp (relayed E T) C (C(1 := t)) \<and> counting E l ms m (fold (\<lambda>i. sm_put i (ok i)) is V) t"
  using assms
proof (induction "is" arbitrary: C V)
  case Nil
  then show ?case by (intro exI [of _ "C 1"]) simp
next
  case (Cons i "is")
  obtain t where t: "processPrePrepareOk E (ok i) (C 1) = Inr t" "counting E l ms m (sm_put i (ok i) V) t"
    using leader_counts [OF Cons.prems(3)] Cons.prems(2) by fastforce
  have "relayed E T C (C(1 := t))"
    by (rule deliver_sent [of _ i]) (use t(1) Cons.prems(1,2) in \<open>auto simp: server_ids_def\<close>)
  moreover have "\<exists>u. rtranclp (relayed E T) (C(1 := t)) (C(1 := t, 1 := u)) \<and>
      counting E l ms m (fold (\<lambda>i. sm_put i (ok i)) is (sm_put i (ok i) V)) u"
    by (rule Cons.IH) (use Cons.prems t(2) in auto)
  then obtain u where "rtranclp (relayed E T) (C(1 := t)) (C(1 := u))"
      "counting E l ms m (fold (\<lambda>i. sm_put i (ok i)) (i # is) V) u" by auto
  ultimately show ?case by (intro exI [of _ u] conjI) (rule converse_rtranclp_into_rtranclp)
qed

lemma votes_map:
  "sm_wf V \<Longrightarrow> sm_wf (fold (\<lambda>i. sm_put i (ok i)) is V)"
  "sm_keys (fold (\<lambda>i. sm_put i (ok i)) is V) = set is \<union> sm_keys V"
  by (induction "is" arbitrary: V) (auto simp: sm_wf_put sm_keys_put)

lemma votes_own:
  "(\<And>x. x \<in> set V \<Longrightarrow> snd x = ok (fst x)) \<Longrightarrow> x \<in> set (fold (\<lambda>i. sm_put i (ok i)) is V) \<Longrightarrow> snd x = ok (fst x)"
proof (induction "is" arbitrary: V)
  case (Cons i "is")
  have "snd y = ok (fst y)" if "y \<in> set (sm_put i (ok i) V)" for y
    using sm_put_mem [of y i "ok i" V] that Cons.prems(1) [of y] by auto
  from Cons.IH [OF this] Cons.prems(2) show ?case by simp
qed simp

section \<open>One more request\<close>

definition replicas :: "int list" where "replicas = [0, 2, 3, 4, 5, 6]"

lemma replicas_ids: "set replicas = server_ids - {1}" "distinct replicas" "1 \<notin> set replicas" "card (set replicas) = 6"
  by (auto simp: server_ids_def replicas_def)

lemma request_at_rest:
  assumes C: "\<forall>i \<in> server_ids. served E i l ms (C i)" and m: "next_request_ok E ms m" "(1, m) \<in> T"
  shows "\<exists>D. rtranclp (relayed E T) C D \<and> (\<forall>i \<in> server_ids. at_rest E i l (ms @ [m]) (D i))"
proof -
  have one: "1 \<in> server_ids" by (simp add: server_ids_def)
  obtain t r where t: "processTransfer E m (C 1) = Inr t" "working E 1 l ms m (proposed_entry E m r) t" "coded_by 1 r"
    "\<forall>j \<in> {0..6} - {1}. ToServer j (P_PrePrepare \<lparr>pp_r = r, pp_m = m\<rparr>) \<in> set (outbox t)"
    using leader_proposes [OF _ m(1), of l "C 1"] C one by blast
  define C1 where "C1 = C(1 := t)"
  have s1: "relayed E T C C1" unfolding C1_def
    by (rule deliver_now [OF one, where p = "P_Transfer m"]) (use t(1) m(2) in auto)
  define accepted where "accepted = (\<lambda>i u. \<exists>e ok. working E i l ms m e u \<and> mi_mstatus e = PRE_PREPARED \<and>
      vote_for E ms m i ok \<and> ToServer 1 (P_PrePrepareOk ok) \<in> set (outbox u))"
  have r: "rq_data r = context_of E ms m" using t(2) by (simp add: working_def)
  have "\<exists>u. relayed E T D (D(i := u)) \<and> accepted i u"
    if D: "D 1 = C1 1" "D i = C1 i" "i \<in> set replicas" for D i
  proof -
    have i: "i \<in> server_ids" "i \<noteq> 1" using D(3) by (simp_all add: replicas_ids(1))
    then have "served E i l ms (D i)" using C D(2) by (simp add: C1_def)
    from replica_accepts [OF this m(1) r t(3)] obtain u e ok where
      u: "processPrePrepare E \<lparr>pp_r = r, pp_m = m\<rparr> (D i) = Inr u" "accepted i u"
      unfolding accepted_def by blast
    have "ToServer i (P_PrePrepare \<lparr>pp_r = r, pp_m = m\<rparr>) \<in> set (outbox (D 1))"
      using D t(4) i by (auto simp: C1_def server_ids_def)
    from deliver_sent [of i 1 _ D, OF i(1) one this] u show ?thesis by auto
  qed
  from each_server_moves [of replicas C1 E T accepted, OF replicas_ids(2,3) this] obtain C2 where
    C2: "rtranclp (relayed E T) C1 C2" "\<forall>i \<in> set replicas. accepted i (C2 i)" "C2 1 = C1 1"
    using replicas_ids(3) by blast
  then obtain e ok where e: "\<forall>i \<in> set replicas. working E i l ms m (e i) (C2 i) \<and> mi_mstatus (e i) = PRE_PREPARED"
    and ok: "\<forall>i \<in> set replicas. vote_for E ms m i (ok i) \<and> ToServer 1 (P_PrePrepareOk (ok i)) \<in> set (outbox (C2 i))"
    unfolding accepted_def by metis
  have "counting E l ms m [] (C2 1)" using t(2) C2(3) by (auto simp: counting_def C1_def)
  from votes_arrive [OF _ ok this] obtain u where u: "rtranclp (relayed E T) C2 (C2(1 := u))"
    and cnt: "counting E l ms m (fold (\<lambda>i. sm_put i (ok i)) replicas []) u"
    using replicas_ids(1) by blast
  define V where "V = fold (\<lambda>i. sm_put i (ok i)) replicas []"
  have V: "sm_wf V" "sm_keys V = set replicas"
    using votes_map(1) [of "[]" ok replicas] votes_map(2) [of ok replicas "[]"]
    unfolding V_def [symmetric] by (simp_all only: sm_wf_Nil sm_keys_Nil Un_empty_right)
  have "length V = 6" using sm_size_keys [OF V(1)] V(2) replicas_ids(4) by simp
  moreover have "\<forall>(i, x) \<in> set V. vote_for E ms m i x"
  proof clarify
    fix i x assume x: "(i, x) \<in> set V"
    then have "x = ok i" using votes_own [of "[]" ok "(i, x)" replicas] by (simp add: V_def)
    moreover have "i \<in> set replicas" using x unfolding V(2) [symmetric] sm_keys_def by force
    ultimately show "vote_for E ms m i x" using ok by blast
  qed
  ultimately obtain w pf where w: "fire_OptimisticTimer E (int (length ms)) u = Inr w" "at_rest E 1 l (ms @ [m]) w"
    "certificate_for E ms m pf" "\<forall>j \<in> {0..6} - {1}. ToServer j (P_Commit pf) \<in> set (outbox w)"
    using leader_commits [OF cnt [folded V_def] _ V(1)] by blast
  have "4 \<le> length V \<Longrightarrow> OptimisticTimer (int (length ms)) \<in> set (futures u)"
    using cnt by (auto simp: counting_def V_def)
  then have "relayed E T (C2(1 := u)) (C2(1 := u, 1 := w))" using \<open>length V = 6\<close> w(1)
    by (intro relayed.expire [OF one, where x = "OptimisticTimer (int (length ms))"] server_step_now) auto
  then have s3: "relayed E T (C2(1 := u)) (C2(1 := w))" by simp
  have "\<exists>x. relayed E T D (D(i := x)) \<and> at_rest E i l (ms @ [m]) x"
    if D: "D 1 = (C2(1 := w)) 1" "D i = (C2(1 := w)) i" "i \<in> set replicas" for D i
  proof -
    have i: "i \<in> server_ids" "i \<noteq> 1" using D(3) by (simp_all add: replicas_ids(1))
    obtain x where x: "processCommit E pf (D i) = Inr x" "at_rest E i l (ms @ [m]) x"
      using replica_commits [of E i l ms m "e i" "C2 i" pf] e w(3) D i(2) by auto
    have "ToServer i (P_Commit pf) \<in> set (outbox (D 1))" using D w(4) i by (auto simp: server_ids_def)
    from deliver_sent [of i 1 _ D, OF i(1) one this] x show ?thesis by auto
  qed
  from each_server_moves [of replicas "C2(1 := w)" E T "\<lambda>i. at_rest E i l (ms @ [m])", OF replicas_ids(2,3) this] obtain C3 where
    C3: "rtranclp (relayed E T) (C2(1 := w)) C3" "\<forall>i \<in> set replicas. at_rest E i l (ms @ [m]) (C3 i)" "C3 1 = w"
    using replicas_ids(3) by force
  have "rtranclp (relayed E T) C C3"
    using s1 C2(1) u s3 C3(1) by (meson converse_rtranclp_into_rtranclp rtranclp_trans)
  moreover have "at_rest E i l (ms @ [m]) (C3 i)" if "i \<in> server_ids" for i
    using that C3(2,3) w(2) replicas_ids(1) by (cases "i = 1") auto
  ultimately show ?thesis by blast
qed

section \<open>The checkpoint\<close>

text \<open>A server takes the checkpoint messages of the others one after the other. The fifth makes its checkpoint
  stable; it does not need the sixth.\<close>

lemma proofs_arrive:
  assumes "set is \<subseteq> server_ids - {i}" and "distinct is" and "i \<in> server_ids" and "keyed E" and "int l + 30 \<le> int32_max"
    and "\<forall>j \<in> server_ids. checkpoint_sent E j ms (C j)" and "collecting E i l ms V (C i)"
    and "sm_wf V" and "sm_keys V \<inter> set is = {}" and "length V < 5" and "length V + length is = 5"
  shows "\<exists>t. rtranclp (relayed E T) C (C(i := t)) \<and> served E i (l + 10) ms t \<and> checkpoint_sent E i ms t"
  using assms
proof (induction "is" arbitrary: C V)
  case (Cons j "is")
  let ?r = "own_checkpoint E j ms"
  have j: "j \<in> server_ids" "i \<noteq> j" using Cons.prems(1) by auto
  then obtain t where t: "processCheckpoint E ?r (C i) = Inr t" "checkpoint_sent E i ms t"
    and next_state: "if length (sm_put j ?r V) < 5 then collecting E i l ms (sm_put j ?r V) t else served E i (l + 10) ms t"
    using checkpoint_received [OF Cons.prems(7,4) _ Cons.prems(5,8), of j] by (auto simp: server_ids_def)
  have "ToServer i (P_Checkpoint ?r) \<in> set (outbox (C j))"
    using Cons.prems(3,6) j by (auto simp: checkpoint_sent_def server_ids_def)
  then have move: "relayed E T C (C(i := t))"
    by (rule deliver_sent [OF Cons.prems(3) j(1)]) (use t(1) in simp)
  have len: "length (sm_put j ?r V) = Suc (length V)" using Cons.prems(8,9) by (simp add: length_sm_put)
  show ?case
  proof (cases "is = []")
    case True
    then have "served E i (l + 10) ms t" using next_state len Cons.prems(11) by simp
    with move t(2) show ?thesis by blast
  next
    case False
    then have "length (sm_put j ?r V) < 5" using len Cons.prems(11) by (cases "is") simp_all
    then have less: "length (sm_put j ?r V) < 5" and c: "collecting E i l ms (sm_put j ?r V) t"
      using next_state by simp_all
    have "\<exists>u. rtranclp (relayed E T) (C(i := t)) (C(i := t, i := u)) \<and> served E i (l + 10) ms u \<and> checkpoint_sent E i ms u"
      by (rule Cons.IH [where V = "sm_put j ?r V"]) (use Cons.prems c less len t(2) in \<open>auto simp: sm_wf_put\<close>)
    then obtain u where "rtranclp (relayed E T) (C(i := t)) (C(i := u))" "served E i (l + 10) ms u"
      "checkpoint_sent E i ms u" by auto
    with move show ?thesis by (blast intro: converse_rtranclp_into_rtranclp)
  qed
qed simp

definition five_others :: "int \<Rightarrow> int list" where
  "five_others i = take 5 (filter (\<lambda>j. j \<noteq> i) [0..6])"

lemma five_others:
  assumes "i \<in> server_ids"
  shows "set (five_others i) \<subseteq> server_ids - {i}" "distinct (five_others i)" "length (five_others i) = 5"
proof -
  have i: "i \<in> {0, 1, 2, 3, 4, 5, 6}" using assms by (auto simp: server_ids_def)
  have "[0..6] = [0, 1, 2, 3, 4, 5, 6 :: int]" by code_simp
  with i show "set (five_others i) \<subseteq> server_ids - {i}" "distinct (five_others i)" "length (five_others i) = 5"
    by (auto simp: five_others_def server_ids_def)
qed

definition window_of :: "Message list \<Rightarrow> nat" where "window_of ms = 10 * (length ms div 10)"

definition all_served :: "env \<Rightarrow> Message list \<Rightarrow> cluster \<Rightarrow> bool" where
  "all_served E ms C \<longleftrightarrow> (\<forall>i \<in> server_ids. served E i (window_of ms) ms (C i))"

lemma checkpoint_round:
  assumes C: "\<forall>i \<in> server_ids. collecting E i l ms [] (C i)" and k: "keyed E" "int l + 30 \<le> int32_max"
  shows "\<exists>D. rtranclp (relayed E T) C D \<and> (\<forall>i \<in> server_ids. served E i (l + 10) ms (D i))"
proof -
  let ?R = "\<lambda>j s. j \<in> server_ids \<longrightarrow> checkpoint_sent E j ms s"
  have ids: "set [0..6] = server_ids" "distinct [0..6 :: int]" by (auto simp: server_ids_def)
  have "\<exists>t. rtranclp (relayed E T) D (D(i := t)) \<and> served E i (l + 10) ms t \<and> ?R i t"
    if D: "\<forall>j. ?R j (D j)" "D i = C i" "i \<in> set [0..6]" for D i
  proof -
    have i: "i \<in> server_ids" using D(3) unfolding ids(1) .
    have "\<exists>t. rtranclp (relayed E T) D (D(i := t)) \<and> served E i (l + 10) ms t \<and> checkpoint_sent E i ms t"
      by (rule proofs_arrive [OF five_others(1,2) [OF i] i k, where V = "[]"])
        (use D C i five_others(3) [OF i] in \<open>auto simp: sm_keys_def\<close>)
    then show ?thesis by blast
  qed
  from each_server_runs [of "[0..6]" ?R C E T "\<lambda>i. served E i (l + 10) ms", OF ids(2) _ this] C
  show ?thesis by (auto simp: collecting_def server_ids_def)
qed

lemma request_served:
  assumes C: "all_served E ms C" and m: "next_request_ok E ms m" "(1, m) \<in> T" and k: "keyed E" "int (length ms) + 30 \<le> int32_max"
  shows "\<exists>D. rtranclp (relayed E T) C D \<and> all_served E (ms @ [m]) D"
proof -
  let ?l = "window_of ms"
  obtain D where D: "rtranclp (relayed E T) C D" "\<forall>i \<in> server_ids. at_rest E i ?l (ms @ [m]) (D i)"
    using request_at_rest [OF _ m] C unfolding all_served_def by blast
  show ?thesis
  proof (cases "length (ms @ [m]) = ?l + 10")
    case True
    then have "length ms = 10 * (length ms div 10) + 9" by (simp add: window_of_def)
    then have "?l + 10 = window_of (ms @ [m])" unfolding window_of_def length_append by (simp only: list.size) (presburger?)
    moreover have "int ?l + 30 \<le> int32_max" using k(2) unfolding window_of_def by presburger
    moreover have "\<forall>i \<in> server_ids. collecting E i ?l (ms @ [m]) [] (D i)" using D(2) True by (simp add: at_rest_def)
    ultimately show ?thesis using checkpoint_round [OF _ k(1)] D(1) rtranclp_trans unfolding all_served_def by metis
  next
    case False
    then have "?l = window_of (ms @ [m])" unfolding window_of_def by simp
    then show ?thesis using D False unfolding all_served_def at_rest_def by metis
  qed
qed

section \<open>Any number of requests\<close>

definition requests_ok :: "env \<Rightarrow> Message list \<Rightarrow> bool" where
  "requests_ok E ms \<longleftrightarrow> int (length ms) + 30 \<le> int32_max \<and> distinct (map (message_digest E) ms) \<and>
     list_all (\<lambda>m. verifySignature_Message E m \<and> payable m) ms"

lemma requests_ok_snoc:
  "requests_ok E (ms @ [m]) \<Longrightarrow> requests_ok E ms \<and> next_request_ok E ms m \<and> int (length ms) + 30 \<le> int32_max"
  by (auto simp: requests_ok_def next_request_ok_def)

lemma served_init: "i \<in> server_ids \<Longrightarrow> served E i 0 [] (PbftServerImpl i name False lc lcp)"
  using srv_inv_init [of i E name False lc lcp]
  by (auto simp: served_def idle_def after_requests_def executed_entries_def balances_after_def replies_after_def verdicts_def
      server_ids_def solvent_def PbftServerImpl_def nonneg_def initial_balances_eq sm_total_def sm_vals_def int32_max_def
      slots_from_def answers_ok_def)

text \<open>
  C5: Progress. From its start, a cluster of seven honest servers, whose key pairs belong together, can
  execute any list of requests that carry valid signatures of the ten clients, with amounts that are not
  negative and different digests, as long as sequence numbers fit into 32 bits: there is a run, made only
  of calls that were sent and timers that were started, after which every server has executed exactly
  these requests in their order, its balances are those of the ledger, it has answered each request with
  the ledger's verdict, and its window of sequence numbers has moved on by ten for every ten requests,
  because the checkpoints on the way became stable. (Ten is \<open>checkpointStepSize\<close> in the code. The
  \<open>README\<close> says that checkpointing is initiated every 50 transactions; it disagrees with the code.)
\<close>

theorem requests_executed:
  assumes "\<And>i. \<exists>name lc lcp. C i = PbftServerImpl i name False lc lcp" and "requests_ok E ms" and "keyed E"
  shows "\<exists>D. rtranclp (cluster_step E) C D \<and> (\<forall>i \<in> server_ids. executed_entries ms (heap (D i)) \<and>
    lastExecuted (D i) = int (length ms) - 1 \<and> lowWatermark (D i) = 10 * (int (length ms) div 10) \<and>
    ledger_of (balances (D i)) = ledger_after ms \<and> client_replies (outbox (D i)) = replies_after ms)"
proof -
  have "\<exists>D. rtranclp (relayed E T) C D \<and> all_served E ms D" if "requests_ok E ms" "Pair 1 ` set ms \<subseteq> T" for ms T
    using that
  proof (induction ms rule: rev_induct)
    case Nil
    have "served E i 0 [] (C i)" if "i \<in> server_ids" for i using assms(1) [of i] served_init [OF that] by auto
    then have "all_served E [] C" by (simp add: all_served_def window_of_def)
    then show ?case by blast
  next
    case (snoc m ms)
    note ok = requests_ok_snoc [OF snoc.prems(1)]
    have T: "(1, m) \<in> T" "Pair 1 ` set ms \<subseteq> T" using snoc.prems(2) by auto
    obtain D where D: "rtranclp (relayed E T) C D" "all_served E ms D" using snoc.IH ok T(2) by blast
    obtain F where "rtranclp (relayed E T) D F" "all_served E (ms @ [m]) F"
      using request_served [OF D(2) _ T(1) assms(3)] ok by blast
    with D(1) show ?case by (meson rtranclp_trans)
  qed
  from this [OF assms(2) order_refl] have "\<exists>D. rtranclp (cluster_step E) C D \<and> all_served E ms D"
    using relayed_run by blast
  then show ?thesis
    unfolding all_served_def served_def idle_def after_requests_def
    by (auto simp: window_of_def zdiv_int dest: balances_after_ledger)
qed

text \<open>
  Twenty-five requests, more than the window of sequence numbers holds: A pays 1 to B as long as it
  can, and goes on asking.
\<close>

definition many_requests :: "Message list" where
  "many_requests = map (\<lambda>n. signed_by 0 \<lparr>td_sender = ''A'', td_receiver = ''B'', td_amount = 1, td_timestamp = n\<rparr>) ([1..9] @ [10..19] @ [100..105])"

lemma many_ok: "requests_ok sample_env many_requests"
proof -
  have "list_all (\<lambda>m. verifySignature_Message sample_env m \<and> payable m) many_requests"
    by (simp add: many_requests_def payable_def list_all_iff)
  moreover have "length many_requests = 25" by code_simp
  moreover have "distinct (map (message_digest sample_env) many_requests)" by code_simp
  ultimately show ?thesis by (simp add: requests_ok_def int32_max_def)
qed

theorem requests_executed_witness:
  "\<exists>D. rtranclp (cluster_step sample_env) (\<lambda>i. PbftServerImpl i ''S'' False 0 0) D \<and>
     lowWatermark (D 3) = 20 \<and> length (client_replies (outbox (D 3))) = 25"
proof -
  have r: "length (replies_after many_requests) = 25" "length many_requests = 25" by code_simp+
  have "3 \<in> server_ids" by (simp add: server_ids_def)
  moreover have "keyed sample_env" by (simp add: keyed_def sample_key_pair)
  ultimately show ?thesis using requests_executed [OF _ many_ok, of "\<lambda>i. PbftServerImpl i ''S'' False 0 0"] r by fastforce
qed

end
