(* ===== verification/Liveness.thy ===== *)
theory Liveness
  imports Driver Progress "HOL-Library.Multiset"
begin

text \<open>
  The servers and the clients together get somewhere: what the driver asks the clients to transfer is sent,
  executed by every server, answered, and counted as processed. The servers take their requests from the
  calls that the clients have made, the clients take their replies from the outboxes of the servers.
\<close>

section \<open>The system\<close>

type_synonym system = "cluster \<times> (int \<Rightarrow> client)"

definition client_ids :: "int set" where "client_ids = {0..9}"

definition all_calls :: "(int \<Rightarrow> client) \<Rightarrow> (int \<times> Message) set" where
  "all_calls K = (\<Union>i \<in> client_ids. set (pc_calls (K i)))"

text \<open>A server moves on what a client or a server has sent, or on a timer; a client moves on a reply that a
  server has sent to it, on a call of the driver, which is one of \<open>requested\<close>, or on a timer.\<close>

inductive system_step :: "env \<Rightarrow> (int \<times> TransactionMsg list) set \<Rightarrow> system \<Rightarrow> system \<Rightarrow> bool" for E requested where
  servers: "relayed E (all_calls K) C D \<Longrightarrow> system_step E requested (C, K) (D, K)"
| reply: "i \<in> client_ids \<Longrightarrow> j \<in> server_ids \<Longrightarrow> ToClient i r \<in> set (outbox (C j)) \<Longrightarrow>
     client_step E (Notify r) (K i) c \<Longrightarrow> system_step E requested (C, K) (C, K(i := c))"
| ask: "i \<in> client_ids \<Longrightarrow> (i, ts) \<in> requested \<Longrightarrow> client_step E (Process clock ts) (K i) c \<Longrightarrow>
     system_step E requested (C, K) (C, K(i := c))"
| expire: "i \<in> client_ids \<Longrightarrow> client_step E (Expire k) (K i) c \<Longrightarrow> system_step E requested (C, K) (C, K(i := c))"

lemma servers_run:
  "rtranclp (relayed E (all_calls K)) C D \<Longrightarrow> rtranclp (system_step E requested) (C, K) (D, K)"
  by (induction rule: rtranclp_induct) (auto intro: rtranclp.rtrancl_into_rtrancl system_step.servers)

lemma client_now: "client_handle E ev c = Inr d \<Longrightarrow> client_step E ev c d"
  unfolding client_step_def by (rule exI [of _ "env_now E"]) simp

section \<open>The servers' answers\<close>

lemma client_reply_sent:
  "(c, td, a) \<in> set (client_replies xs) \<Longrightarrow> \<exists>r. ToClient c r \<in> set xs \<and> rd_tdata (rs_data r) = td \<and> rd_ack (rs_data r) = a"
  by (induction xs rule: client_replies.induct) auto

lemma replies_after_snoc:
  "\<exists>a. replies_after (ms @ [m]) = replies_after ms @ [(sg_server_id (ms_signature m), ms_data m, a)]"
proof -
  obtain L res where "ledger_apply (ms_data m) (ledger_after ms) = (L, res)" by fastforce
  then have "run_ledger [m] (ledger_after ms) = (L, [res])" by simp
  from ledger_after_snoc(2) [OF this] show ?thesis by (simp add: verdicts_def)
qed

text \<open>Every server has answered the last request, all with the same verdict, and their answers verify.\<close>

definition answer_to :: "env \<Rightarrow> Message \<Rightarrow> bool \<Rightarrow> int \<Rightarrow> Response \<Rightarrow> bool" where
  "answer_to E m a j r \<longleftrightarrow> valid_reply E r \<and> sg_server_id (rs_signature r) = j \<and> rd_tdata (rs_data r) = ms_data m \<and>
     rd_ack (rs_data r) = a \<and> rd_view_num (rs_data r) = 1"

lemma all_answered:
  assumes "all_served E (ms @ [m]) D" and "keyed E"
  shows "\<exists>a. \<forall>j \<in> server_ids. \<exists>r. ToClient (sg_server_id (ms_signature m)) r \<in> set (outbox (D j)) \<and> answer_to E m a j r"
proof -
  obtain a where a: "replies_after (ms @ [m]) = replies_after ms @ [(sg_server_id (ms_signature m), ms_data m, a)]"
    using replies_after_snoc by blast
  have "\<exists>r. ToClient (sg_server_id (ms_signature m)) r \<in> set (outbox (D j)) \<and> answer_to E m a j r" if j: "j \<in> server_ids" for j
  proof -
    have s: "client_replies (outbox (D j)) = replies_after (ms @ [m])" "answers_ok E j (D j)"
      using assms(1) j by (auto simp: all_served_def served_def idle_def after_requests_def)
    have "(sg_server_id (ms_signature m), ms_data m, a) \<in> set (client_replies (outbox (D j)))" using s(1) a by simp
    from client_reply_sent [OF this] obtain r where r: "ToClient (sg_server_id (ms_signature m)) r \<in> set (outbox (D j))"
      "rd_tdata (rs_data r) = ms_data m" "rd_ack (rs_data r) = a" by blast
    have sig: "rd_view_num (rs_data r) = 1"
      "rs_signature r = \<lparr>sg_sig = signECDSA E (ser_rd E (rs_data r)) (serverPrECDSAKeyPath j), sg_server_id = j\<rparr>"
      using s(2) r(1) unfolding answers_ok_def by blast+
    have "key_pair E (serverPrECDSAKeyPath j) (serverPbECDSAKeyPath j)"
      using assms(2) j by (simp add: keyed_def server_ids_def)
    then have "valid_reply E r" by (simp add: valid_reply_def sig(2) verify_sign)
    with r sig show ?thesis by (auto simp: answer_to_def)
  qed
  then show ?thesis by blast
qed

section \<open>The client's progress\<close>

text \<open>The client has had \<open>n\<close> requests processed, and those of \<open>rest\<close> are in its queue; the first of them
  it has sent to the leader of view 1.\<close>

definition queued :: "env \<Rightarrow> int \<Rightarrow> nat \<Rightarrow> Message list \<Rightarrow> client \<Rightarrow> bool" where
  "queued E i n rest c \<longleftrightarrow> pc_clientId c = i \<and> pc_f c = 2 \<and> pc_clusterSize c = 7 \<and> pc_currentView c = 1 \<and>
     pc_transactionsProcessed c = int n \<and> map (transfer_request E c) (pc_transfers c) = rest \<and>
     list_all (\<lambda>info. ti_successes info = {} \<and> ti_failures info = {}) (pc_transfers c)"

definition requesting :: "env \<Rightarrow> int \<Rightarrow> nat \<Rightarrow> Message list \<Rightarrow> client \<Rightarrow> bool" where
  "requesting E i n rest c \<longleftrightarrow> queued E i n rest c \<and> (rest \<noteq> [] \<longrightarrow> (1, hd rest) \<in> set (pc_calls c))"

lemma transfer_request_cong: "pc_clientId d = pc_clientId c \<Longrightarrow> transfer_request E d = transfer_request E c"
  by (simp add: transfer_request_def fun_eq_iff)

lemma transfer_request_time [simp]: "transfer_request E c (info\<lparr>ti_startTime := n\<rparr>) = transfer_request E c info"
  by (simp add: transfer_request_def)

text \<open>The first transfer of the queue is sent.\<close>

lemma doTransfers_requests:
  assumes "queued E i n rest c"
  shows "\<exists>d. doTransfers E c = Inr d \<and> requesting E i n rest d"
proof (cases "pc_transfers c")
  case Nil
  with assms show ?thesis by (auto simp: doTransfers_def requesting_def queued_def)
next
  case (Cons info infos)
  let ?d = "client_send 1 (transfer_request E c info)
    ((setTransferTimer info (pc_transferTimeoutSeconds c) c)\<lparr>pc_transfers := info\<lparr>ti_startTime := env_now E\<rparr> # infos\<rparr>)"
  have c: "pc_clientId c = i" "pc_clusterSize c = 7" "pc_currentView c = 1" using assms by (simp_all add: queued_def)
  then have "client_getLeaderId c = 1" by (simp add: client_getLeaderId_def smod_nonneg)
  moreover have stub: "serverStub 1 = Inr 1" by simp
  ultimately have "doTransfers E c = Inr ?d" using Cons by (simp add: doTransfers_def Let_def stub)
  moreover have req: "transfer_request E ?d = transfer_request E c"
    by (rule transfer_request_cong) (simp add: client_send_def setTransferTimer_def)
  have "queued E i n rest ?d"
    using assms Cons unfolding queued_def req by (simp add: client_send_def setTransferTimer_def)
  moreover have "hd rest = transfer_request E c info" using assms Cons by (auto simp: queued_def)
  ultimately show ?thesis by (auto simp: requesting_def client_send_def)
qed

lemma processNotify_vote:
  assumes "answer_to E m a j r" and "pc_transfers c = info # infos" and "ti_timestamp info = td_timestamp (ms_data m)"
    and "pc_f c = 2" and "pc_currentView c = 1" and "in_int32 (pc_transactionsProcessed c + 1)"
  shows "\<exists>total out. processNotify E r c = (if decided (counted j a info)
    then doTransfers E (c\<lparr>pc_transfers := infos, pc_transactionsProcessed := pc_transactionsProcessed c + 1,
      pc_totalTimeTaken := total, pc_out := out\<rparr>)
    else Ok (c\<lparr>pc_transfers := counted j a info # infos\<rparr>))"
proof -
  have same: "seen_view r c = c" using assms(1,5) by (cases c) (simp add: answer_to_def seen_view_def)
  have r: "valid_reply E r" "sg_server_id (rs_signature r) = j" "rd_tdata (rs_data r) = ms_data m" "rd_ack (rs_data r) = a"
    using assms(1) by (auto simp: answer_to_def)
  have add: "iadd (pc_transactionsProcessed c) 1 = Inr (pc_transactionsProcessed c + 1)" using assms(6) by simp
  have "ti_timestamp info = td_timestamp (rd_tdata (rs_data r))" using assms(3) r(3) by simp
  from processNotify_counts [OF r(1) assms(2) this assms(4)]
  have "processNotify E r c = (if decided (counted j a info)
    then doTransfers E (c\<lparr>pc_transfers := infos, pc_transactionsProcessed := pc_transactionsProcessed c + 1,
      pc_totalTimeTaken := pc_totalTimeTaken c + millis (env_now E - ti_startTime (counted j a info)),
      pc_out := pc_out c @ (if 3 \<le> card (ti_failures (counted j a info)) then [failed_text (ms_data m)] else [])\<rparr>)
    else Ok (c\<lparr>pc_transfers := counted j a info # infos\<rparr>))"
    unfolding same Let_def r(2-4) add by (simp only: ebind.simps)
  then show ?thesis by blast
qed

text \<open>Three answers decide the first transfer.\<close>

lemma three_answers:
  assumes c: "queued E i n (m # rest) c" and r: "\<And>j. j \<in> {0, 1, 2} \<Longrightarrow> answer_to E m a j (r j)"
    and n: "int n < int32_max"
  shows "\<exists>c1 c2 d. processNotify E (r 0) c = Inr c1 \<and> processNotify E (r 1) c1 = Inr c2 \<and>
    processNotify E (r 2) c2 = Inr d \<and> requesting E i (Suc n) rest d"
proof -
  obtain info infos where tr: "pc_transfers c = info # infos" and m: "m = transfer_request E c info"
    and empty: "ti_successes info = {}" "ti_failures info = {}"
    using c by (cases "pc_transfers c") (auto simp: queued_def)
  have ts: "ti_timestamp info = td_timestamp (ms_data m)" by (simp add: m transfer_request_def Let_def)
  have f: "pc_f c = 2" "pc_currentView c = 1" "in_int32 (pc_transactionsProcessed c + 1)"
    using c n by (simp_all add: queued_def in_int32_def int32_min_def int32_max_def)
  define i1 where "i1 = counted 0 a info"
  define i2 where "i2 = counted 1 a i1"
  define c1 where "c1 = c\<lparr>pc_transfers := i1 # infos\<rparr>"
  define c2 where "c2 = c\<lparr>pc_transfers := i2 # infos\<rparr>"
  have no: "\<not> decided i1" "\<not> decided i2" and yes: "decided (counted 2 a i2)"
    using empty by (auto simp: decided_def counted_def i1_def i2_def)
  have p1: "processNotify E (r 0) c = Inr c1"
    using processNotify_vote [OF r [of 0] tr ts f] no(1) by (auto simp: i1_def c1_def)
  have p2: "processNotify E (r 1) c1 = Inr c2"
    using processNotify_vote [OF r [of 1], of c1 i1 infos] ts f no(2) by (auto simp: i1_def i2_def c1_def c2_def)
  obtain total out where p3: "processNotify E (r 2) c2 = doTransfers E (c\<lparr>pc_transfers := infos,
      pc_transactionsProcessed := pc_transactionsProcessed c + 1, pc_totalTimeTaken := total, pc_out := out\<rparr>)"
    (is "_ = doTransfers E ?e")
    using processNotify_vote [OF r [of 2], of c2 i2 infos] ts f yes by (auto simp: i1_def i2_def c2_def)
  have "transfer_request E ?e = transfer_request E c" by (rule transfer_request_cong) simp
  then have "queued E i (Suc n) rest ?e" using c tr by (auto simp: queued_def)
  from doTransfers_requests [OF this] p1 p2 p3 show ?thesis by metis
qed

section \<open>Until the queues are empty\<close>

lemma queue_advances:
  assumes C: "all_served E ms C" and i: "i \<in> client_ids" and c: "requesting E i n (m # rest) (K i)"
    and ok: "requests_ok E (ms @ [m])" and k: "keyed E" and n: "n \<le> length ms"
  shows "\<exists>D d. rtranclp (system_step E requested) (C, K) (D, K(i := d)) \<and> all_served E (ms @ [m]) D \<and>
    requesting E i (Suc n) rest d"
proof -
  note next_ok = requests_ok_snoc [OF ok]
  have q: "queued E i n (m # rest) (K i)" and call: "(1, m) \<in> all_calls K"
    using c i by (auto simp: requesting_def all_calls_def)
  have id: "sg_server_id (ms_signature m) = i" using q by (auto simp: queued_def transfer_request_def Let_def)
  obtain D where D: "rtranclp (relayed E (all_calls K)) C D" "all_served E (ms @ [m]) D"
    using request_served [OF C _ call k] next_ok by blast
  obtain a r where r: "\<And>j. j \<in> server_ids \<Longrightarrow> ToClient i (r j) \<in> set (outbox (D j)) \<and> answer_to E m a j (r j)"
    using all_answered [OF D(2) k] unfolding id by metis
  have ids: "0 \<in> server_ids" "1 \<in> server_ids" "2 \<in> server_ids" by (simp_all add: server_ids_def)
  have n': "int n < int32_max" using next_ok n by simp
  have "answer_to E m a j (r j)" if "j \<in> {0, 1, 2}" for j
  proof -
    have "j \<in> server_ids" using that ids by auto
    with r show ?thesis by blast
  qed
  then obtain c1 c2 d where p: "processNotify E (r 0) (K i) = Inr c1" "processNotify E (r 1) c1 = Inr c2"
    "processNotify E (r 2) c2 = Inr d" and d: "requesting E i (Suc n) rest d"
    using three_answers [OF q _ n', of a r] by blast
  have step: "system_step E requested (D, K') (D, K'(i := y))" if "j \<in> server_ids" "processNotify E (r j) (K' i) = Inr y" for j K' y
    by (rule system_step.reply [where j = j and r = "r j"]) (use that r i in \<open>auto intro: client_now\<close>)
  have s1: "system_step E requested (D, K) (D, K(i := c1))" by (rule step [where K' = K, OF ids(1) p(1)])
  have s2: "system_step E requested (D, K(i := c1)) (D, K(i := c2))" using step [where K' = "K(i := c1)" and y = c2, OF ids(2)] p(2) by simp
  have s3: "system_step E requested (D, K(i := c2)) (D, K(i := d))" using step [where K' = "K(i := c2)" and y = d, OF ids(3)] p(3) by simp
  note after = rtranclp.rtrancl_into_rtrancl [of "system_step E requested" "(D, K)"]
  have "rtranclp (system_step E requested) (D, K) (D, K(i := d))"
    by (rule after [OF after [OF after [OF rtranclp.rtrancl_refl s1] s2] s3])
  with servers_run [OF D(1), of requested] D(2) d show ?thesis by (meson rtranclp_trans)
qed

lemma queue_empties:
  assumes "all_served E ms C" and "i \<in> client_ids" and "requesting E i n rest (K i)" and "requests_ok E (ms @ rest)"
    and "keyed E" and "n \<le> length ms"
  shows "\<exists>D d. rtranclp (system_step E requested) (C, K) (D, K(i := d)) \<and> all_served E (ms @ rest) D \<and>
    requesting E i (n + length rest) [] d"
  using assms
proof (induction rest arbitrary: ms n C K)
  case Nil
  then show ?case by (intro exI [of _ C] exI [of _ "K i"]) simp
next
  case (Cons m rest)
  have "requests_ok E (ms @ [m])" using Cons.prems(4) by (auto simp: requests_ok_def)
  from queue_advances [where K = K, OF Cons.prems(1-3) this Cons.prems(5,6)] obtain D d where
    D: "rtranclp (system_step E requested) (C, K) (D, K(i := d))" "all_served E (ms @ [m]) D" "requesting E i (Suc n) rest d"
    by blast
  have "\<exists>F f. rtranclp (system_step E requested) (D, K(i := d)) (F, (K(i := d))(i := f)) \<and> all_served E ((ms @ [m]) @ rest) F \<and>
      requesting E i (Suc n + length rest) [] f"
    by (rule Cons.IH) (use Cons.prems D in auto)
  then obtain F f where F: "rtranclp (system_step E requested) (D, K(i := d)) (F, K(i := f))" "all_served E (ms @ m # rest) F"
    "requesting E i (n + length (m # rest)) [] f" by auto
  have "rtranclp (system_step E requested) (C, K) (F, K(i := f))" using D(1) F(1) by (rule rtranclp_trans)
  with F(2,3) show ?case by blast
qed

text \<open>One client after the other.\<close>

lemma queues_empty:
  assumes "all_served E ms C" and "distinct is" and "set is \<subseteq> client_ids" and "\<forall>i \<in> set is. requesting E i 0 (rs i) (K i)"
    and "requests_ok E (ms @ concat (map rs is))" and "keyed E"
  shows "\<exists>D L. rtranclp (system_step E requested) (C, K) (D, L) \<and> all_served E (ms @ concat (map rs is)) D \<and>
    (\<forall>i \<in> set is. requesting E i (length (rs i)) [] (L i)) \<and> (\<forall>i. i \<notin> set is \<longrightarrow> L i = K i)"
  using assms
proof (induction "is" arbitrary: ms C K)
  case Nil
  then show ?case by (intro exI [of _ C] exI [of _ K]) simp
next
  case (Cons i "is")
  have i: "i \<in> client_ids" "requesting E i 0 (rs i) (K i)" "requests_ok E (ms @ rs i)"
    using Cons.prems(3-5) by (auto simp: requests_ok_def)
  obtain D d where D: "rtranclp (system_step E requested) (C, K) (D, K(i := d))" "all_served E (ms @ rs i) D"
    "requesting E i (length (rs i)) [] d"
    using queue_empties [where K = K, OF Cons.prems(1) i Cons.prems(6)] by fastforce
  have "\<exists>F L. rtranclp (system_step E requested) (D, K(i := d)) (F, L) \<and> all_served E ((ms @ rs i) @ concat (map rs is)) F \<and>
      (\<forall>j \<in> set is. requesting E j (length (rs j)) [] (L j)) \<and> (\<forall>j. j \<notin> set is \<longrightarrow> L j = (K(i := d)) j)"
    by (rule Cons.IH) (use Cons.prems D(2) in auto)
  then obtain F L where F: "rtranclp (system_step E requested) (D, K(i := d)) (F, L)"
    "all_served E (ms @ concat (map rs (i # is))) F" "\<forall>j \<in> set is. requesting E j (length (rs j)) [] (L j)"
    "\<forall>j. j \<notin> set is \<longrightarrow> L j = (K(i := d)) j" by auto
  have "rtranclp (system_step E requested) (C, K) (F, L)" using D(1) F(1) by (rule rtranclp_trans)
  moreover have "L i = d" using F(4) Cons.prems(2) by simp
  ultimately show ?case using F(2-4) D(3) by (intro exI [of _ F] exI [of _ L]) auto
qed

section \<open>The driver's call\<close>

text \<open>The requests of a client that is asked for the transactions \<open>ts\<close>, with the clock's readings.\<close>

definition requests_of :: "env \<Rightarrow> int \<Rightarrow> string \<Rightarrow> (int \<Rightarrow> int) \<Rightarrow> TransactionMsg list \<Rightarrow> Message list" where
  "requests_of E i name clock ts =
     (let c = PbftClientImpl i name in map (transfer_request E c) (pc_transfers (push_transfers clock 0 ts c)))"

lemma process_requests:
  "\<exists>d. client_handle E (Process clock ts) (PbftClientImpl i name) = Inr d \<and>
     requesting E i 0 (requests_of E i name clock ts) d"
proof -
  let ?c = "PbftClientImpl i name"
  define c where "c = push_transfers clock 0 ts ?c"
  obtain new where new: "c = ?c\<lparr>pc_transfers := new\<rparr>" "list_all (transfer_ok E []) new"
    using push_transfers_effect [of clock 0 ts ?c E "[]"] by (auto simp: c_def PbftClientImpl_def)
  have fresh: "list_all (\<lambda>info. ti_successes info = {} \<and> ti_failures info = {}) new"
    using new(2) by (auto simp: list_all_iff transfer_ok_def repliers_def)
  have "transfer_request E c = transfer_request E ?c" by (rule transfer_request_cong) (simp add: new)
  then have "queued E i 0 (requests_of E i name clock ts) c"
    using fresh new(1) by (simp add: queued_def requests_of_def Let_def c_def [symmetric]) (simp add: PbftClientImpl_def)
  from doTransfers_requests [OF this] show ?thesis by (simp add: processProcess_def c_def)
qed

text \<open>All clients are asked.\<close>

lemma clients_asked:
  assumes "distinct is" and "set is \<subseteq> client_ids" and "\<forall>i \<in> set is. K i = PbftClientImpl i (name i) \<and> (i, ts) \<in> requested"
  shows "\<exists>L. rtranclp (system_step E requested) (C, K) (C, L) \<and> (\<forall>i. i \<notin> set is \<longrightarrow> L i = K i) \<and>
    (\<forall>i \<in> set is. requesting E i 0 (requests_of E i (name i) (clock i) ts) (L i))"
  using assms
proof (induction "is" arbitrary: K)
  case Nil
  then show ?case by (intro exI [of _ K]) simp
next
  case (Cons i "is")
  obtain d where d: "client_handle E (Process (clock i) ts) (K i) = Inr d"
    "requesting E i 0 (requests_of E i (name i) (clock i) ts) d"
    using process_requests [of E "clock i" ts i "name i"] Cons.prems(3) by auto
  have st: "system_step E requested (C, K) (C, K(i := d))"
    by (rule system_step.ask [where ts = ts and clock = "clock i"]) (use Cons.prems(2,3) client_now [OF d(1)] in auto)
  have "\<exists>L. rtranclp (system_step E requested) (C, K(i := d)) (C, L) \<and> (\<forall>j. j \<notin> set is \<longrightarrow> L j = (K(i := d)) j) \<and>
      (\<forall>j \<in> set is. requesting E j 0 (requests_of E j (name j) (clock j) ts) (L j))"
    by (rule Cons.IH) (use Cons.prems in auto)
  then obtain L where L: "rtranclp (system_step E requested) (C, K(i := d)) (C, L)" "\<forall>j. j \<notin> set is \<longrightarrow> L j = (K(i := d)) j"
    "\<forall>j \<in> set is. requesting E j 0 (requests_of E j (name j) (clock j) ts) (L j)" by blast
  have "rtranclp (system_step E requested) (C, K) (C, L)" using st L(1) by (rule converse_rtranclp_into_rtranclp)
  moreover have "L i = d" using L(2) Cons.prems(1) by simp
  ultimately show ?case using L(2,3) d(2) by (intro exI [of _ L]) auto
qed

text \<open>The requests of all clients, the first client's first.\<close>

definition all_requests :: "env \<Rightarrow> (int \<Rightarrow> int \<Rightarrow> int) \<Rightarrow> TransactionMsg list \<Rightarrow> Message list" where
  "all_requests E clock ts = concat (map (\<lambda>i. requests_of E i (client_letter (nat i)) (clock i) ts) [0..9])"

text \<open>They are made of the transactions: each client makes a request of each transaction that names it as
  the sender, with its signature.\<close>

definition payment :: "Message \<Rightarrow> string \<times> string \<times> int" where
  "payment m = (td_sender (ms_data m), td_receiver (ms_data m), td_amount (ms_data m))"

definition pays :: "Transaction \<Rightarrow> string \<times> string \<times> int" where
  "pays t = (t_sender t, t_receiver t, t_amount t)"

lemma own_transfers_pays:
  "map (pays \<circ> fst) (own_transfers name clock k (map transaction_msg ts)) =
     map pays (filter (\<lambda>t. t_sender t = name) ts)"
  by (induction ts arbitrary: k) (simp_all add: transaction_msg_def pays_def)

lemma requests_of_own:
  "\<exists>infos. requests_of E i name clock ts = map (transfer_request E (PbftClientImpl i name)) infos \<and>
     map transfer_key infos = own_transfers name clock 0 ts"
proof -
  obtain new where "push_transfers clock 0 ts (PbftClientImpl i name) =
      (PbftClientImpl i name)\<lparr>pc_transfers := pc_transfers (PbftClientImpl i name) @ new\<rparr>"
    "map transfer_key new = own_transfers (pc_clientName (PbftClientImpl i name)) clock 0 ts"
    using push_transfers_effect by blast
  then show ?thesis by (intro exI [of _ new]) (simp add: requests_of_def Let_def PbftClientImpl_def)
qed

lemma requests_of_pays:
  "map payment (requests_of E i name clock (map transaction_msg ts)) = map pays (filter (\<lambda>t. t_sender t = name) ts)"
proof -
  obtain infos where r: "requests_of E i name clock (map transaction_msg ts) =
      map (transfer_request E (PbftClientImpl i name)) infos"
    and k: "map transfer_key infos = own_transfers name clock 0 (map transaction_msg ts)"
    using requests_of_own by blast
  have "payment (transfer_request E c info) = pays (fst (transfer_key info))" for c info
    by (simp add: payment_def pays_def transfer_request_def transfer_key_def Let_def)
  then have "map payment (requests_of E i name clock (map transaction_msg ts)) = map (pays \<circ> fst) (map transfer_key infos)"
    by (simp add: r)
  then show ?thesis unfolding k own_transfers_pays .
qed

lemma requests_of_length:
  "length (requests_of E i name clock (map transaction_msg ts)) = length (filter (\<lambda>t. t_sender t = name) ts)"
  using arg_cong [OF requests_of_pays, of length] by (simp only: length_map)

lemma requests_of_signed:
  assumes "key_pair E (clientPrECDSAKeyPath i) (clientPbECDSAKeyPath i)"
    and "m \<in> set (requests_of E i name clock ts)"
  shows "verifySignature_Message E m \<and> sg_server_id (ms_signature m) = i"
proof -
  obtain info where m: "m = transfer_request E (PbftClientImpl i name) info"
    using requests_of_own [of E i name clock ts] assms(2) by auto
  have i: "pc_clientId (PbftClientImpl i name) = i" by (simp add: PbftClientImpl_def)
  show ?thesis using verify_sign [OF assms(1)]
    by (simp add: m verifySignature_Message_def transfer_request_def Let_def i)
qed

text \<open>Sorting a list by a key loses nothing, if every key is looked for once.\<close>

lemma mset_by_key:
  assumes "distinct ks"
  shows "mset (concat (map (\<lambda>k. filter (\<lambda>t. f t = k) ts) ks)) = filter_mset (\<lambda>t. f t \<in> set ks) (mset ts)"
  using assms
proof (induction ks)
  case (Cons k ks)
  then have "mset (concat (map (\<lambda>k. filter (\<lambda>t. f t = k) ts) (k # ks))) =
      filter_mset (\<lambda>t. f t = k) (mset ts) + filter_mset (\<lambda>t. f t \<in> set ks) (mset ts)" by simp
  also have "\<dots> = filter_mset (\<lambda>t. f t \<in> set (k # ks)) (mset ts)"
    by (rule multiset_eqI) (use Cons.prems in auto)
  finally show ?case .
qed simp

definition account_names :: "string list" where
  "account_names = [''A'', ''B'', ''C'', ''D'', ''E'', ''F'', ''G'', ''H'', ''I'', ''J'']"

lemma account_names_letters: "map (\<lambda>i. client_letter (nat i)) [0..9] = account_names"
  by code_simp

text \<open>The transactions of a set that can be executed to the end: the senders are accounts of the ten
  clients, no amount is negative, and there are not so many that the servers' numbers overflow.\<close>

definition transactions_ok :: "Transaction list \<Rightarrow> bool" where
  "transactions_ok ts \<longleftrightarrow> int (length ts) + 30 \<le> int32_max \<and>
     list_all (\<lambda>t. t_sender t \<in> set account_names \<and> 0 \<le> t_amount t) ts"

definition clients_keyed :: "env \<Rightarrow> bool" where
  "clients_keyed E \<longleftrightarrow> (\<forall>i \<in> client_ids. key_pair E (clientPrECDSAKeyPath i) (clientPbECDSAKeyPath i))"

lemma all_requests_pay:
  assumes "transactions_ok ts"
  shows "image_mset payment (mset (all_requests E clock (map transaction_msg ts))) = image_mset pays (mset ts)"
proof -
  have "map payment (all_requests E clock (map transaction_msg ts)) =
      concat (map (\<lambda>i. map pays (filter (\<lambda>t. t_sender t = client_letter (nat i)) ts)) [0..9])"
    by (simp add: all_requests_def map_concat comp_def requests_of_pays)
  also have "\<dots> = map pays (concat (map (\<lambda>n. filter (\<lambda>t. t_sender t = n) ts) account_names))"
    by (simp add: account_names_letters [symmetric] map_concat comp_def)
  finally have "image_mset payment (mset (all_requests E clock (map transaction_msg ts))) =
      image_mset pays (mset (concat (map (\<lambda>n. filter (\<lambda>t. t_sender t = n) ts) account_names)))"
    by (simp flip: mset_map)
  also have "mset (concat (map (\<lambda>n. filter (\<lambda>t. t_sender t = n) ts) account_names)) =
      filter_mset (\<lambda>t. t_sender t \<in> set account_names) (mset ts)"
    by (rule mset_by_key) (simp add: account_names_def)
  also have "\<dots> = mset ts"
    using assms unfolding transactions_ok_def list_all_iff by (simp flip: mset_filter)
  finally show ?thesis .
qed

lemma all_requests_ok:
  assumes ts: "transactions_ok ts" and k: "clients_keyed E"
    and d: "distinct (map (message_digest E) (all_requests E clock (map transaction_msg ts)))"
  shows "requests_ok E (all_requests E clock (map transaction_msg ts))"
proof -
  let ?ms = "all_requests E clock (map transaction_msg ts)"
  note p = all_requests_pay [OF ts, of E clock]
  have len: "length ?ms = length ts" using arg_cong [OF p, of size] by simp
  have "payable m \<and> verifySignature_Message E m" if m: "m \<in> set ?ms" for m
  proof -
    obtain i where i: "i \<in> client_ids" "m \<in> set (requests_of E i (client_letter (nat i)) (clock i) (map transaction_msg ts))"
      using m by (auto simp: all_requests_def client_ids_def)
    have "key_pair E (clientPrECDSAKeyPath i) (clientPbECDSAKeyPath i)" using k i(1) by (simp add: clients_keyed_def)
    note s = requests_of_signed [OF this i(2)]
    have "payment m \<in># image_mset pays (mset ts)" using m unfolding p [symmetric] by simp
    then obtain t where "t \<in> set ts" "payment m = pays t" by auto
    then have "0 \<le> td_amount (ms_data m)" using ts by (auto simp: payment_def pays_def transactions_ok_def list_all_iff)
    with s i(1) show ?thesis by (simp add: payable_def client_ids_def)
  qed
  with d len ts show ?thesis by (simp add: requests_ok_def transactions_ok_def list_all_iff)
qed

text \<open>Every client has had all its transactions processed.\<close>

definition all_processed :: "Transaction list \<Rightarrow> (int \<Rightarrow> client) \<Rightarrow> bool" where
  "all_processed ts K \<longleftrightarrow> (\<forall>i \<in> client_ids. pc_transfers (K i) = [] \<and>
     pc_transactionsProcessed (K i) = int (length (filter (\<lambda>t. t_sender t = client_letter (nat i)) ts)))"

text \<open>
  C4: From the driver's call to the executed transfers and back. Take seven honest servers and the ten
  clients, each as it starts, with key pairs that belong together, and a list of transactions whose senders
  are the ten accounts A to J, with amounts that are not negative, fewer than the servers' \<open>int\<close>s can
  number, and such that no two of the requests that the clients make of them, with their clocks' readings
  as timestamps, have the same digest. Then the driver's calls for the list can be served to the end:
  there is a run in which the servers receive only what clients and servers have sent, the clients
  only the driver's calls and what servers have sent to them, and after which every client's queue is empty
  and it counts as many processed transactions as the list has of its own; and there is one sequence of
  requests, which make the payments of the list, each as often as the list does, such that every server has
  executed exactly these requests in this order and has the balances of the ledger after them.
\<close>

theorem transfers_complete:
  assumes "\<And>j. \<exists>n lc lcp. C j = PbftServerImpl j n False lc lcp" and "keyed E" and "clients_keyed E"
    and "transactions_ok ts"
    and "distinct (map (message_digest E) (all_requests E clock (map transaction_msg ts)))"
  shows "\<exists>D K ms. rtranclp (system_step E (set (ProcessTransactions ts)))
      (C, \<lambda>i. PbftClientImpl i (client_letter (nat i))) (D, K) \<and> all_processed ts K \<and>
    image_mset payment (mset ms) = image_mset pays (mset ts) \<and>
    (\<forall>j \<in> server_ids. executed_entries ms (heap (D j)) \<and> ledger_of (balances (D j)) = ledger_after ms)"
proof -
  let ?K = "\<lambda>i. PbftClientImpl i (client_letter (nat i))" and ?requested = "set (ProcessTransactions ts)"
  let ?rs = "\<lambda>i. requests_of E i (client_letter (nat i)) (clock i) (map transaction_msg ts)"
  let ?ms = "all_requests E clock (map transaction_msg ts)"
  have ids: "distinct [0..9 :: int]" "set [0..9 :: int] = client_ids" by (auto simp: client_ids_def)
  have "\<forall>i \<in> set [0..9]. ?K i = PbftClientImpl i (client_letter (nat i)) \<and> (i, map transaction_msg ts) \<in> ?requested"
    by (auto simp: ProcessTransactions_def)
  from clients_asked [OF ids(1) equalityD1 [OF ids(2)] this, of E C clock] obtain K where
    K: "rtranclp (system_step E ?requested) (C, ?K) (C, K)" "\<forall>i \<in> set [0..9]. requesting E i 0 (?rs i) (K i)" by blast
  have "served E j 0 [] (C j)" if "j \<in> server_ids" for j using assms(1) [of j] served_init [OF that] by auto
  then have C: "all_served E [] C" by (simp add: all_served_def window_of_def)
  have ok: "requests_ok E ([] @ concat (map ?rs [0..9]))"
    using all_requests_ok [OF assms(4,3,5)] by (simp add: all_requests_def)
  from queues_empty [OF C ids(1) equalityD1 [OF ids(2)] K(2) ok assms(2), of ?requested] obtain D L where
    D: "rtranclp (system_step E ?requested) (C, K) (D, L)" "all_served E ([] @ concat (map ?rs [0..9])) D"
    "\<forall>i \<in> set [0..9]. requesting E i (length (?rs i)) [] (L i)" by blast
  have "rtranclp (system_step E ?requested) (C, ?K) (D, L)" using K(1) D(1) by (rule rtranclp_trans)
  moreover have "all_processed ts L"
    using D(3) unfolding ids(2) all_processed_def by (auto simp: requesting_def queued_def requests_of_length)
  moreover have "all_served E ?ms D" using D(2) by (simp add: all_requests_def)
  then have "\<forall>j \<in> server_ids. executed_entries ?ms (heap (D j)) \<and> ledger_of (balances (D j)) = ledger_after ?ms"
    by (auto simp: all_served_def served_def idle_def after_requests_def dest: balances_after_ledger)
  ultimately show ?thesis using all_requests_pay [OF assms(4), of E clock] by blast
qed

text \<open>Three transactions of two clients: A pays 4 to B and then 7 to C, of which it has 6, which is refused.\<close>

definition asked_transactions :: "Transaction list" where
  "asked_transactions =
     [\<lparr>t_id = 0, t_sender = ''A'', t_receiver = ''B'', t_amount = 4\<rparr>, \<lparr>t_id = 1, t_sender = ''B'', t_receiver = ''C'', t_amount = 2\<rparr>,
      \<lparr>t_id = 2, t_sender = ''A'', t_receiver = ''C'', t_amount = 7\<rparr>]"

theorem transfers_complete_witness:
  "\<exists>D K ms. rtranclp (system_step sample_env (set (ProcessTransactions asked_transactions)))
      (\<lambda>j. PbftServerImpl j ''S'' False 0 0, \<lambda>i. PbftClientImpl i (client_letter (nat i))) (D, K) \<and>
     pc_transactionsProcessed (K 0) = 2 \<and> length ms = 3 \<and> executed_entries ms (heap (D 3))"
proof -
  let ?clock = "\<lambda>i n. n :: int"
  have d: "distinct (map (message_digest sample_env) (all_requests sample_env ?clock (map transaction_msg asked_transactions)))"
    and ok: "transactions_ok asked_transactions"
    and n: "length (filter (\<lambda>t. t_sender t = client_letter (nat 0)) asked_transactions) = 2" by code_simp+
  have ids: "3 \<in> server_ids" "0 \<in> client_ids" by (simp_all add: server_ids_def client_ids_def)
  have k: "keyed sample_env" "clients_keyed sample_env" by (simp_all add: keyed_def clients_keyed_def sample_key_pair)
  obtain D K ms where r: "rtranclp (system_step sample_env (set (ProcessTransactions asked_transactions)))
      (\<lambda>j. PbftServerImpl j ''S'' False 0 0, \<lambda>i. PbftClientImpl i (client_letter (nat i))) (D, K)"
      "all_processed asked_transactions K"
      "image_mset payment (mset ms) = image_mset pays (mset asked_transactions)"
      "\<forall>j \<in> server_ids. executed_entries ms (heap (D j)) \<and> ledger_of (balances (D j)) = ledger_after ms"
    using transfers_complete [OF _ k ok d, of "\<lambda>j. PbftServerImpl j ''S'' False 0 0"] by blast
  have "length ms = 3" using arg_cong [OF r(3), of size] by (simp add: asked_transactions_def)
  with r ids n show ?thesis unfolding all_processed_def by (intro exI [of _ D] exI [of _ K] exI [of _ ms]) simp
qed

end
