(* ===== verification/Server_Threads.thy ===== *)
theory Server_Threads
  imports Cluster
begin

text \<open>
  The server's threads. The closures of the timers run on threads of their own (\<open>std::async\<close>), beside the
  thread that handles the calls, and no lock protects the state that they share. The rest of the
  development takes every handler and every closure for one step; here \<open>executePending\<close> is divided into
  the moves between which another thread can run: the test of an entry's status, and the body that
  executes the entry.
\<close>

section \<open>The moves of one thread\<close>

text \<open>Where a thread is in the loop: before the test for a sequence number, after a test that found a
  committed entry, or behind the loop.\<close>

datatype exec_pc = At_loop int | In_body int nat | Stopped

definition seq_increment :: "int \<Rightarrow> srv \<Rightarrow> fault + exec_pc \<times> srv" where
  "seq_increment n s = ebind (iadd n 1) (\<lambda>n'. Ok (At_loop n', s))"

fun exec_move :: "env \<Rightarrow> exec_pc \<Rightarrow> srv \<Rightarrow> fault + exec_pc \<times> srv" where
  "exec_move E (At_loop n) s =
     (if n \<le> currentSequence s then
        ebind (isub n (lowWatermark s)) (\<lambda>i.
        ebind (vec_get (log s) i) (\<lambda>q.
          case q of
            None \<Rightarrow> seq_increment n s
          | Some p \<Rightarrow> ebind (deref s p) (\<lambda>e.
              if mi_mstatus e = COMMITTED then Ok (In_body n p, s)
              else if mi_mstatus e \<noteq> EXECUTED then Ok (Stopped, s)
              else seq_increment n s)))
      else Ok (Stopped, s))"
| "exec_move E (In_body n p) s =
     ebind (deref s p) (\<lambda>e. ebind (execute_entry E n p e s) (seq_increment n))"
| "exec_move E Stopped s = Ok (Stopped, s)"

primrec exec_moves :: "env \<Rightarrow> nat \<Rightarrow> exec_pc \<Rightarrow> srv \<Rightarrow> fault + exec_pc \<times> srv" where
  "exec_moves E 0 pc s = Ok (pc, s)"
| "exec_moves E (Suc k) pc s = ebind (exec_move E pc s) (\<lambda>(pc', s'). exec_moves E k pc' s')"

text \<open>What is left to do from a point of the loop, if no other thread interferes.\<close>

fun resume :: "env \<Rightarrow> exec_pc \<Rightarrow> srv \<Rightarrow> fault + srv" where
  "resume E (At_loop n) s = execute_from E n s"
| "resume E (In_body n p) s =
     ebind (deref s p) (\<lambda>e. ebind (execute_entry E n p e s) (\<lambda>t. ebind (iadd n 1) (\<lambda>n'. execute_from E n' t)))"
| "resume E Stopped s = Ok s"

lemma ebind_if: "ebind (if b then x else y) g = (if b then ebind x g else ebind y g)"
  by simp

lemma ebind_option:
  "ebind (case q of None \<Rightarrow> x | Some p \<Rightarrow> f p) g = (case q of None \<Rightarrow> ebind x g | Some p \<Rightarrow> ebind (f p) g)"
  by (cases q) simp_all

lemmas ebind_distrib = ebind_assoc ebind_if ebind_option

lemma resume_increment:
  "ebind (seq_increment n s) (\<lambda>(pc, t). resume E pc t) = ebind (iadd n 1) (\<lambda>n'. execute_from E n' s)"
  by (simp add: seq_increment_def ebind_distrib split del: ebind_split)

text \<open>A move does a part of what is left.\<close>

lemma exec_move_resume: "ebind (exec_move E pc s) (\<lambda>(pc', s'). resume E pc' s') = resume E pc s"
proof (cases pc)
  case (At_loop n)
  show ?thesis
    unfolding At_loop exec_move.simps resume.simps execute_from.simps [of E n s] execute_slot_def
    by (simp add: ebind_distrib resume_increment deref_def cong: if_cong option.case_cong split del: ebind_split if_split)
next
  case (In_body n p)
  then show ?thesis by (simp add: ebind_distrib resume_increment split del: ebind_split)
qed simp

lemma exec_moves_resume: "exec_moves E k pc s = Inr (pc', s') \<Longrightarrow> resume E pc' s' = resume E pc s"
proof (induction k arbitrary: pc s)
  case (Suc k)
  then obtain pc1 s1 where m: "exec_move E pc s = Inr (pc1, s1)" "exec_moves E k pc1 s1 = Inr (pc', s')"
    by (auto split: prod.splits)
  from Suc.IH [OF m(2)] exec_move_resume [of E pc s] m(1) show ?case by simp
qed simp

lemma exec_moves_add:
  "exec_moves E k pc s = Inr (pc1, s1) \<Longrightarrow> exec_moves E j pc1 s1 = r \<Longrightarrow> exec_moves E (k + j) pc s = r"
  by (induction k arbitrary: pc s) (auto split: prod.splits)

text \<open>A test and, if it found a committed entry, the body: the iteration of the loop.\<close>

lemma iteration_moves:
  assumes "n \<le> currentSequence s" and "execute_slot E n s = Inr (t, True)" and "iadd n 1 = Inr (n + 1)"
  shows "\<exists>k. exec_moves E k (At_loop n) s = Inr (At_loop (n + 1), t)"
proof (cases "\<exists>p. log s ! nat (n - lowWatermark s) = Some p \<and> mi_mstatus (heap s ! p) = COMMITTED")
  case True
  then have "exec_moves E 2 (At_loop n) s = Inr (At_loop (n + 1), t)"
    using assms by (auto simp: execute_slot_def seq_increment_def numeral_2_eq_2 deref_def split: option.splits if_splits)
  then show ?thesis by blast
next
  case False
  then have "exec_moves E 1 (At_loop n) s = Inr (At_loop (n + 1), t)"
    using assms by (auto simp: execute_slot_def seq_increment_def deref_def split: option.splits if_splits)
  then show ?thesis by blast
qed

lemma execute_from_moves: "execute_from E n s = Inr t \<Longrightarrow> \<exists>k. exec_moves E k (At_loop n) s = Inr (Stopped, t)"
proof (induction E n s rule: execute_from.induct)
  case (1 E n s)
  show ?case
  proof (cases "n \<le> currentSequence s")
    case False
    then have "exec_moves E 1 (At_loop n) s = Inr (Stopped, t)"
      using "1.prems" by (simp add: execute_from.simps [of E n])
    then show ?thesis by blast
  next
    case True
    then obtain u go where u: "execute_slot E n s = Inr (u, go)"
      and rest: "(if go then ebind (iadd n 1) (\<lambda>n'. execute_from E n' u) else Ok u) = Inr t"
      using "1.prems" by (auto simp: execute_from.simps [of E n])
    show ?thesis
    proof (cases go)
      case go: True
      then have ex: "execute_from E (n + 1) u = Inr t" and le: "iadd n 1 = Inr (n + 1)" using rest by auto
      have "execute_slot E n s = Inr (u, True)" using u go by simp
      then obtain k where k: "exec_moves E k (At_loop n) s = Inr (At_loop (n + 1), u)"
        using iteration_moves [OF True _ le] by blast
      obtain j where "exec_moves E j (At_loop (n + 1)) u = Inr (Stopped, t)"
        using "1.IH" [OF True u refl go le ex] by blast
      from exec_moves_add [OF k this] show ?thesis by blast
    next
      case False
      then have "exec_moves E 1 (At_loop n) s = Inr (Stopped, t)"
        using True u rest by (auto simp: execute_slot_def deref_def split: option.splits if_splits)
      then show ?thesis by blast
    qed
  qed
qed

text \<open>
  The moves are the loop. If no other thread interferes, \<open>executePending\<close> returns a state exactly
  if its moves, from the sequence number after the last executed one, lead to this state and stop there.
\<close>

theorem executePending_moves:
  "executePending E s = Inr t \<longleftrightarrow>
     (\<exists>n k. iadd (lastExecuted s) 1 = Inr n \<and> exec_moves E k (At_loop n) s = Inr (Stopped, t))"
proof
  assume "executePending E s = Inr t"
  then obtain n where "iadd (lastExecuted s) 1 = Inr n" "execute_from E n s = Inr t" by (auto simp: executePending_def)
  with execute_from_moves show "\<exists>n k. iadd (lastExecuted s) 1 = Inr n \<and> exec_moves E k (At_loop n) s = Inr (Stopped, t)"
    by blast
next
  assume "\<exists>n k. iadd (lastExecuted s) 1 = Inr n \<and> exec_moves E k (At_loop n) s = Inr (Stopped, t)"
  then obtain n k where n: "iadd (lastExecuted s) 1 = Inr n" "exec_moves E k (At_loop n) s = Inr (Stopped, t)" by blast
  from exec_moves_resume [OF n(2)] have "execute_from E n s = Inr t" by simp
  with n(1) show "executePending E s = Inr t" by (simp add: executePending_def)
qed

section \<open>Two threads\<close>

text \<open>The moves of two threads that are both in the loop, in the order of a schedule: \<open>True\<close> is a move of the
  first.\<close>

primrec interleave ::
  "env \<Rightarrow> bool list \<Rightarrow> exec_pc \<Rightarrow> exec_pc \<Rightarrow> srv \<Rightarrow> fault + exec_pc \<times> exec_pc \<times> srv" where
  "interleave E [] pc1 pc2 s = Ok (pc1, pc2, s)"
| "interleave E (b # bs) pc1 pc2 s =
     (if b then ebind (exec_move E pc1 s) (\<lambda>(pc, t). interleave E bs pc pc2 t)
      else ebind (exec_move E pc2 s) (\<lambda>(pc, t). interleave E bs pc1 pc t))"

text \<open>The two ways into the loop that can meet: the optimistic timer with all votes, up to its call of
  \<open>executePending\<close>, and the handler of the vote that completes a commit certificate, up to its call.\<close>

definition optimistic_commit :: "env \<Rightarrow> int \<Rightarrow> srv \<Rightarrow> fault + srv" where
  "optimistic_commit E seqNum s =
     ebind (isub seqNum (lowWatermark s)) (\<lambda>index.
     ebind (log_entry s index) (\<lambda>(p, e).
       let sigs = map rq_sig_vec (sm_vals (mi_prepareProofs e)); r = own_commit_proof E e s;
           e1 = e\<lparr>mi_mstatus := COMMITTED, mi_commitProofs := sm_put (serverId s) r (mi_prepareProofs e)\<rparr>;
           request = \<lparr>pf_data = rq_data (mi_prePrepare e), pf_sig_vecs = sigs @ [rq_sig_vec r]\<rparr>
       in sendRequestToAll request COMMIT ((put_entry p e1 s)\<lparr>lastCommitted := seqNum\<rparr>)))"

definition prepareOk_commit :: "Request \<Rightarrow> srv \<Rightarrow> fault + srv \<times> ProofRequest" where
  "prepareOk_commit request s =
     (let seqNum = cx_sequence_num (rq_data request)
      in ebind (isub seqNum (lowWatermark s)) (\<lambda>index.
         ebind (log_entry s index) (\<lambda>(p, e).
           let e1 = e\<lparr>mi_commitProofs := sm_put (sv_server_id (rq_sig_vec request)) request (mi_commitProofs e)\<rparr>;
               s1 = (put_entry p (e1\<lparr>mi_mstatus := COMMITTED\<rparr>) s)\<lparr>lastCommitted := max seqNum (lastCommitted s)\<rparr>
           in Ok (s1, \<lparr>pf_data = rq_data (mi_prePrepare e1),
                       pf_sig_vecs = map rq_sig_vec (sm_vals (mi_commitProofs e1))\<rparr>))))"

lemma fire_OptimisticTimer_commits:
  assumes "srvState s = NORMAL_STATE" and "isub n (lowWatermark s) = Inr i" and "log_entry s i = Inr (p, e)"
    and "int (length (mi_prepareProofs e)) = 3 * pbft_f s"
  shows "fire_OptimisticTimer E n s = ebind (optimistic_commit E n s) (executePending E)"
  using assms by (simp add: fire_OptimisticTimer_def optimistic_commit_def Let_def del: isub_Ok_iff split del: ebind_split)

lemma processPrepareOk_commits:
  assumes "srvState s = NORMAL_STATE" and "serverId s = getLeaderId s" and "verifySignature_Request E s r = Inr True"
    and "isub (cx_sequence_num (rq_data r)) (lowWatermark s) = Inr i" and "log_entry s i = Inr (p, e)"
    and "cx_digest (rq_data (mi_prePrepare e)) = cx_digest (rq_data r)" and "mi_mstatus e = PREPARED"
    and "2 * pbft_f s + 1 \<le> int (length (sm_put (sv_server_id (rq_sig_vec r)) r (mi_commitProofs e)))"
  shows "processPrepareOk E r s =
    ebind (prepareOk_commit r s) (\<lambda>(s1, commit). ebind (executePending E s1) (sendRequestToAll commit COMMIT))"
  using assms by (simp add: processPrepareOk_def prepareOk_commit_def Let_def del: isub_Ok_iff split del: ebind_split)

section \<open>A race\<close>

text \<open>
  Server 1 leads two requests: all six votes for the first are in, so its optimistic timer will commit it;
  the second goes the slow way, and the vote of server 4 completes its certificate.
\<close>

definition two_in_progress :: "action list" where
  "two_in_progress =
     [Submit 1 request1, Submit 1 request3] @ map (Deliver 1) [0, 1, 2, 3, 4, 5, 6, 7, 8, 9, 10, 11] @
     map (\<lambda>i. Deliver i 0) [0, 2, 3, 4, 5, 6] @ map (\<lambda>i. Deliver i 1) [0, 2, 3, 4, 5] @
     [Timeout 1 1] @ map (Deliver 1) [12, 13, 14, 15] @ map (\<lambda>i. Deliver i 2) [0, 2, 3]"

fun sent_vote :: "outcall \<Rightarrow> Request" where
  "sent_vote (ToServer i (P_PrepareOk r)) = r"
| "sent_vote x = default_request"

text \<open>The timer's thread and the other one both test the entry of the first request before either executes it.\<close>

definition both_test_first :: "bool list" where
  "both_test_first = [True, False, False, False, False, False, True, True, True]"

text \<open>How often the calls contain the answer that A's transfer to B has been made.\<close>

definition answers_to_first :: "srv \<Rightarrow> nat" where
  "answers_to_first s = length (filter (\<lambda>x. x = (0, pay ''A'' ''B'' 4, True)) (client_replies (outbox s)))"

definition race_result :: "srv \<Rightarrow> bool" where
  "race_result t \<longleftrightarrow> sm_find (balances t) ''A'' = Some 2 \<and> answers_to_first t = 2 \<and> lastExecuted t = 0 \<and>
     map mi_mstatus (heap t) = [EXECUTED, EXECUTED]"

definition serial_result :: "srv \<Rightarrow> bool" where
  "serial_result t \<longleftrightarrow> sm_find (balances t) ''A'' = Some 6 \<and> answers_to_first t = 1 \<and> lastExecuted t = 1 \<and>
     map mi_mstatus (heap t) = [EXECUTED, EXECUTED]"

text \<open>The timer finds all votes, and the vote completes the certificate.\<close>

definition timer_commits :: "srv \<Rightarrow> bool" where
  "timer_commits s \<longleftrightarrow> srvState s = NORMAL_STATE \<and> lowWatermark s = 0 \<and>
     holds (log_entry s 0) (\<lambda>(p, e). int (length (mi_prepareProofs e)) = 3 * pbft_f s)"

definition vote_commits :: "Request \<Rightarrow> srv \<Rightarrow> bool" where
  "vote_commits r s \<longleftrightarrow> srvState s = NORMAL_STATE \<and> serverId s = getLeaderId s \<and> lowWatermark s = 0 \<and>
     cx_sequence_num (rq_data r) = 1 \<and> verifySignature_Request sample_env s r = Inr True \<and>
     holds (log_entry s 1) (\<lambda>(p, e). cx_digest (rq_data (mi_prePrepare e)) = cx_digest (rq_data r) \<and>
       mi_mstatus e = PREPARED \<and>
       2 * pbft_f s + 1 \<le> int (length (sm_put (sv_server_id (rq_sig_vec r)) r (mi_commitProofs e))))"

definition both_outcomes :: "srv \<Rightarrow> Request \<Rightarrow> bool" where
  "both_outcomes s r \<longleftrightarrow> timer_commits s \<and>
     holds (optimistic_commit sample_env 0 s) (\<lambda>x. vote_commits r x \<and>
     holds (prepareOk_commit r x) (\<lambda>(y, commit).
       holds (interleave sample_env both_test_first (At_loop (lastExecuted x + 1)) (At_loop (lastExecuted y + 1)) y)
         (\<lambda>(pc1, pc2, t). pc1 = Stopped \<and> pc2 = Stopped \<and> race_result t) \<and>
       holds (executePending sample_env y) serial_result))"

lemma race_run:
  "holds (acts sample_env two_in_progress initial) (\<lambda>C.
     futures (C ! 1) = [OptimisticTimer 0, OptimisticTimer 1] \<and> list_all (\<lambda>s. \<not> isByzantine s) C \<and>
     outbox (C ! 4) ! 2 = ToServer 1 (P_PrepareOk (sent_vote (outbox (C ! 4) ! 2))) \<and> 2 < length (outbox (C ! 4)) \<and>
     both_outcomes (C ! 1) (sent_vote (outbox (C ! 4) ! 2)))"
  by code_simp

lemma timer_commits_split:
  assumes "timer_commits s"
  shows "fire_OptimisticTimer sample_env 0 s = ebind (optimistic_commit sample_env 0 s) (executePending sample_env)"
proof -
  obtain p e where "log_entry s 0 = Inr (p, e)" "int (length (mi_prepareProofs e)) = 3 * pbft_f s"
    using assms by (auto simp: timer_commits_def holds_iff)
  with assms show ?thesis
    by (intro fire_OptimisticTimer_commits [where i = 0]) (simp_all add: timer_commits_def)
qed

lemma vote_commits_split:
  assumes "vote_commits r s"
  shows "processPrepareOk sample_env r s =
    ebind (prepareOk_commit r s) (\<lambda>(s1, commit). ebind (executePending sample_env s1) (sendRequestToAll commit COMMIT))"
proof -
  obtain p e where "log_entry s 1 = Inr (p, e)" "cx_digest (rq_data (mi_prePrepare e)) = cx_digest (rq_data r)"
    "mi_mstatus e = PREPARED"
    "2 * pbft_f s + 1 \<le> int (length (sm_put (sv_server_id (rq_sig_vec r)) r (mi_commitProofs e)))"
    using assms by (auto simp: vote_commits_def holds_iff)
  with assms show ?thesis
    by (intro processPrepareOk_commits [where i = 1]) (simp_all add: vote_commits_def)
qed

text \<open>
  C6: Two threads can execute one request twice. In a reachable state of an honest cluster the timer of a
  leader and a vote that has arrived both commit a request and then call \<open>executePending\<close>. When
  each thread tests the status of the first entry before the other has executed it, both execute it: the
  sender pays twice, its client is answered twice, and \<open>lastExecuted\<close> falls back behind the second
  request. One thread alone, from the same point, executes both requests once.
\<close>

theorem threads_execute_twice:
  "\<exists>C r x y commit t u. cluster_reach sample_env C \<and> all_honest C \<and>
     OptimisticTimer 0 \<in> set (futures (C 1)) \<and> in_transit C 1 (P_PrepareOk r) \<and>
     fire_OptimisticTimer sample_env 0 (C 1) =
       ebind (optimistic_commit sample_env 0 (C 1)) (executePending sample_env) \<and>
     processPrepareOk sample_env r x =
       ebind (prepareOk_commit r x) (\<lambda>(s1, c). ebind (executePending sample_env s1) (sendRequestToAll c COMMIT)) \<and>
     optimistic_commit sample_env 0 (C 1) = Inr x \<and> prepareOk_commit r x = Inr (y, commit) \<and>
     interleave sample_env both_test_first (At_loop (lastExecuted x + 1)) (At_loop (lastExecuted y + 1)) y =
       Inr (Stopped, Stopped, t) \<and> race_result t \<and>
     executePending sample_env y = Inr u \<and> serial_result u"
proof -
  obtain D where D: "acts sample_env two_in_progress initial = Inr D"
    and fut: "futures (D ! 1) = [OptimisticTimer 0, OptimisticTimer 1]" and honest: "list_all (\<lambda>s. \<not> isByzantine s) D"
    and out: "outbox (D ! 4) ! 2 = ToServer 1 (P_PrepareOk (sent_vote (outbox (D ! 4) ! 2)))" "2 < length (outbox (D ! 4))"
    and both: "both_outcomes (D ! 1) (sent_vote (outbox (D ! 4) ! 2))"
    using race_run by (auto simp: holds_iff)
  define r where "r = sent_vote (outbox (D ! 4) ! 2)"
  have reach: "cluster_reach sample_env (servers D)" and len: "length D = 7"
    using acts_reach [OF D _ initial_reach] by (simp_all add: initial_def)
  obtain x y commit t u where o: "timer_commits (D ! 1)" "optimistic_commit sample_env 0 (D ! 1) = Inr x" "vote_commits r x"
    "prepareOk_commit r x = Inr (y, commit)"
    "interleave sample_env both_test_first (At_loop (lastExecuted x + 1)) (At_loop (lastExecuted y + 1)) y = Inr (Stopped, Stopped, t)"
    "race_result t" "executePending sample_env y = Inr u" "serial_result u"
    using both unfolding both_outcomes_def r_def [symmetric] holds_iff by auto
  have "ToServer 1 (P_PrepareOk r) \<in> set (outbox (D ! 4))"
    using out nth_mem [of 2 "outbox (D ! 4)"] by (simp add: r_def)
  then have "in_transit (servers D) 1 (P_PrepareOk r)"
    by (auto simp: in_transit_def servers_def server_ids_def intro!: bexI [of _ 4])
  moreover have "all_honest (servers D)"
    using honest len by (auto simp: all_honest_def server_ids_def servers_def list_all_length)
  moreover have "servers D 1 = D ! 1" by (simp add: servers_def)
  ultimately show ?thesis
    using reach fut o timer_commits_split [OF o(1)] vote_commits_split [OF o(3)]
    by (intro exI [of _ "servers D"] exI [of _ r] exI [of _ x] exI [of _ y] exI [of _ commit] exI [of _ t] exI [of _ u])
      simp
qed

end
