(* ===== verification/Dispatch.thy ===== *)
theory Dispatch
  imports Client Server_Steps "HOL-Library.Multiset"
begin

text \<open>
  The request objects of the asynchronous gRPC service (\<open>RequestData\<close> in \<open>server/async_server.h\<close> and
  \<open>client/pbft_client.h\<close>) and the loop that drives them (\<open>HandleRPCs\<close>). An object registers for a
  kind of call, creates its successor when a call arrives, runs the handler, and deletes itself when the
  reply has been sent. The objects are a list in which a deleted one is \<open>None\<close>; gRPC is represented
  by the tags it has still to return.
\<close>

section \<open>Request objects\<close>

datatype CallStatus = CREATE | PROCESS_CALL | FINISH

record 'r RequestObject =
  ro_type :: RequestTypes
  ro_status :: CallStatus
  ro_request :: "'r option"

text \<open>The state \<open>'s\<close> of the server or client, its requests \<open>'r\<close> and its replies \<open>'a\<close>.\<close>

record ('s, 'r, 'a) service =
  svc_state :: 's
  svc_objects :: "'r RequestObject option list"
  svc_registered :: "nat list"
  svc_finishing :: "nat list"
  svc_replies :: "(nat \<times> 'a) list"

text \<open>The first branch of \<open>Proceed\<close>, which the constructor runs at once.\<close>

definition create_call :: "RequestTypes list \<Rightarrow> nat \<Rightarrow> 'r RequestObject \<Rightarrow> ('s, 'r, 'a) service \<Rightarrow> ('s, 'r, 'a) service" where
  "create_call served i c d =
     (let d1 = d\<lparr>svc_objects := (svc_objects d)[i := Some (c\<lparr>ro_status := PROCESS_CALL\<rparr>)]\<rparr>
      in if ro_type c \<in> set served then d1\<lparr>svc_registered := svc_registered d1 @ [i]\<rparr> else d1)"

definition new_RequestData :: "RequestTypes list \<Rightarrow> RequestTypes \<Rightarrow> ('s, 'r, 'a) service \<Rightarrow> ('s, 'r, 'a) service" where
  "new_RequestData served type d =
     (let c = \<lparr>ro_type = type, ro_status = CREATE, ro_request = None\<rparr>
      in create_call served (length (svc_objects d)) c (d\<lparr>svc_objects := svc_objects d @ [Some c]\<rparr>))"

definition Proceed ::
  "RequestTypes list \<Rightarrow> (RequestTypes \<Rightarrow> 'r option \<Rightarrow> 's \<Rightarrow> fault + 's \<times> 'a option) \<Rightarrow> nat \<Rightarrow>
     ('s, 'r, 'a) service \<Rightarrow> fault + ('s, 'r, 'a) service" where
  "Proceed served dispatch i d =
     ebind (vec_get (svc_objects d) (int i)) (\<lambda>q.
       case q of
         None \<Rightarrow> Fault Null_deref
       | Some c \<Rightarrow>
           (case ro_status c of
              CREATE \<Rightarrow> Ok (create_call served i c d)
            | PROCESS_CALL \<Rightarrow>
                let d1 = new_RequestData served (ro_type c) d;
                    d2 = d1\<lparr>svc_objects := (svc_objects d1)[i := Some (c\<lparr>ro_status := FINISH\<rparr>)]\<rparr>
                in ebind (dispatch (ro_type c) (ro_request c) (svc_state d2)) (\<lambda>(s, reply).
                   case reply of
                     None \<Rightarrow> Ok (d2\<lparr>svc_state := s\<rparr>)
                   | Some a \<Rightarrow> Ok (d2\<lparr>svc_state := s, svc_finishing := svc_finishing d2 @ [i],
                                     svc_replies := svc_replies d2 @ [(i, a)]\<rparr>))
            | FINISH \<Rightarrow> Ok (d\<lparr>svc_objects := (svc_objects d)[i := None]\<rparr>)))"

section \<open>The loop\<close>

text \<open>
  \<open>HandleRPCs\<close> first creates an object per kind of call and then calls \<open>Proceed\<close> on each tag that
  a queue returns with \<open>ok\<close>. A tag is returned once: for a registered object when a call of its kind
  arrives, and after \<open>Finish\<close>, where \<open>ok\<close> is false when the reply could not be sent. Other threads (the
  timers) change the state in between.
\<close>

definition HandleRPCs_start :: "RequestTypes list \<Rightarrow> 's \<Rightarrow> ('s, 'r, 'a) service" where
  "HandleRPCs_start served s =
     fold (new_RequestData served) served
       \<lparr>svc_state = s, svc_objects = [], svc_registered = [], svc_finishing = [], svc_replies = []\<rparr>"

datatype 'r service_event = Arrive nat 'r | Finished nat | Not_sent nat | Background

inductive service_step ::
  "RequestTypes list \<Rightarrow> ('r \<Rightarrow> RequestTypes) \<Rightarrow> ('k \<Rightarrow> RequestTypes \<Rightarrow> 'r option \<Rightarrow> 's \<Rightarrow> fault + 's \<times> 'a option) \<Rightarrow>
     ('s \<Rightarrow> 's \<Rightarrow> bool) \<Rightarrow> 'r service_event \<Rightarrow> ('s, 'r, 'a) service \<Rightarrow> ('s, 'r, 'a) service \<Rightarrow> bool"
  for served type_of dispatch background where
  arrive: "i \<in> set (svc_registered d) \<Longrightarrow> i < length (svc_objects d) \<Longrightarrow> svc_objects d ! i = Some c \<Longrightarrow>
     ro_type c = type_of r \<Longrightarrow>
     Proceed served (dispatch k) i
       (d\<lparr>svc_registered := remove1 i (svc_registered d),
          svc_objects := (svc_objects d)[i := Some (c\<lparr>ro_request := Some r\<rparr>)]\<rparr>) = Inr d' \<Longrightarrow>
     service_step served type_of dispatch background (Arrive i r) d d'"
| finished: "i \<in> set (svc_finishing d) \<Longrightarrow>
     Proceed served (dispatch k) i (d\<lparr>svc_finishing := remove1 i (svc_finishing d)\<rparr>) = Inr d' \<Longrightarrow>
     service_step served type_of dispatch background (Finished i) d d'"
| not_sent: "i \<in> set (svc_finishing d) \<Longrightarrow>
     service_step served type_of dispatch background (Not_sent i) d
       (d\<lparr>svc_finishing := remove1 i (svc_finishing d)\<rparr>)"
| background: "background (svc_state d) s \<Longrightarrow>
     service_step served type_of dispatch background Background d (d\<lparr>svc_state := s\<rparr>)"

section \<open>The invariant\<close>

definition live :: "('s, 'r, 'a) service \<Rightarrow> nat \<Rightarrow> CallStatus \<Rightarrow> bool" where
  "live d i st \<longleftrightarrow> i < length (svc_objects d) \<and> (\<exists>c. svc_objects d ! i = Some c \<and> ro_status c = st)"

definition type_at :: "('s, 'r, 'a) service \<Rightarrow> nat \<Rightarrow> RequestTypes" where
  "type_at d i = ro_type (the (svc_objects d ! i))"

definition service_inv :: "RequestTypes list \<Rightarrow> ('s \<Rightarrow> bool) \<Rightarrow> ('s, 'r, 'a) service \<Rightarrow> bool" where
  "service_inv served reach d \<longleftrightarrow>
     distinct (svc_registered d) \<and> distinct (svc_finishing d) \<and>
     (\<forall>i \<in> set (svc_registered d). live d i PROCESS_CALL) \<and>
     (\<forall>i \<in> set (svc_finishing d). live d i FINISH) \<and>
     mset (map (type_at d) (svc_registered d)) = mset served \<and> reach (svc_state d)"

lemma new_RequestData_eq:
  assumes "type \<in> set served"
  shows "new_RequestData served type d = d\<lparr>svc_objects := svc_objects d @
      [Some \<lparr>ro_type = type, ro_status = PROCESS_CALL, ro_request = None\<rparr>],
      svc_registered := svc_registered d @ [length (svc_objects d)]\<rparr>"
  using assms by (simp add: new_RequestData_def create_call_def Let_def)

lemma type_at_cong:
  "(\<And>i. i \<in> set is \<Longrightarrow> type_at d i = type_at e i) \<Longrightarrow> map (type_at d) is = map (type_at e) is"
  by simp

lemma start_objects:
  assumes "set ts \<subseteq> set served"
  shows "fold (new_RequestData served) ts d = d\<lparr>
     svc_objects := svc_objects d @ map (\<lambda>t. Some \<lparr>ro_type = t, ro_status = PROCESS_CALL, ro_request = None\<rparr>) ts,
     svc_registered := svc_registered d @ [length (svc_objects d)..<length (svc_objects d) + length ts]\<rparr>"
  using assms
proof (induction ts arbitrary: d)
  case (Cons t ts)
  then show ?case by (simp add: new_RequestData_eq upt_rec)
qed simp

lemma live_cong: "svc_objects e = svc_objects d \<Longrightarrow> live e i st = live d i st"
  by (simp add: live_def)

lemma type_at_same: "svc_objects e ! i = svc_objects d ! i \<Longrightarrow> type_at e i = type_at d i"
  by (simp add: type_at_def)

lemma service_invD:
  assumes "service_inv served reach d"
  shows "distinct (svc_registered d)" "distinct (svc_finishing d)"
    "i \<in> set (svc_registered d) \<Longrightarrow> live d i PROCESS_CALL" "i \<in> set (svc_finishing d) \<Longrightarrow> live d i FINISH"
    "mset (map (type_at d) (svc_registered d)) = mset served" "reach (svc_state d)"
  using assms unfolding service_inv_def by blast+

lemma service_invI:
  assumes "distinct (svc_registered d)" "distinct (svc_finishing d)"
    "\<And>i. i \<in> set (svc_registered d) \<Longrightarrow> live d i PROCESS_CALL" "\<And>i. i \<in> set (svc_finishing d) \<Longrightarrow> live d i FINISH"
    "mset (map (type_at d) (svc_registered d)) = mset served" "reach (svc_state d)"
  shows "service_inv served reach d"
  using assms unfolding service_inv_def by blast

text \<open>Only the tags and the objects they name matter.\<close>

lemma service_inv_sub:
  assumes inv: "service_inv served reach d" and "svc_registered e = svc_registered d"
    and "distinct (svc_finishing e)" and "set (svc_finishing e) \<subseteq> set (svc_finishing d)"
    and same: "\<And>i. i \<in> set (svc_registered e) \<union> set (svc_finishing e) \<Longrightarrow> svc_objects e ! i = svc_objects d ! i"
    and "length (svc_objects e) = length (svc_objects d)" and "reach (svc_state e)"
  shows "service_inv served reach e"
proof (rule service_invI)
  have live: "live e i st = live d i st" if "i \<in> set (svc_registered e) \<union> set (svc_finishing e)" for i st
    using same [OF that] assms(6) by (simp add: live_def)
  show "live e i PROCESS_CALL" if "i \<in> set (svc_registered e)" for i
    using that live service_invD(3) [OF inv] assms(2) by simp
  show "live e i FINISH" if "i \<in> set (svc_finishing e)" for i
    using that live service_invD(4) [OF inv] assms(4) by auto
  have "map (type_at e) (svc_registered e) = map (type_at d) (svc_registered d)"
    unfolding assms(2) by (rule type_at_cong) (use same assms(2) in \<open>auto intro: type_at_same\<close>)
  with service_invD(5) [OF inv] show "mset (map (type_at e) (svc_registered e)) = mset served" by simp
  show "distinct (svc_registered e)" using service_invD(1) [OF inv] assms(2) by simp
qed (use assms in simp_all)

lemma start_inv:
  assumes d_def: "d = HandleRPCs_start served s" and "reach s"
  shows "service_inv served reach d"
proof -
  have d: "svc_objects d = map (\<lambda>t. Some \<lparr>ro_type = t, ro_status = PROCESS_CALL, ro_request = None\<rparr>) served"
    "svc_registered d = [0..<length served]" "svc_finishing d = []" "svc_state d = s"
    by (simp_all add: d_def HandleRPCs_start_def start_objects)
  have "map (type_at d) [0..<length served] = served"
    by (rule nth_equalityI) (simp_all add: type_at_def d)
  then show ?thesis
    using assms(2) by (intro service_invI) (simp_all only: d distinct_upt mset.simps, auto simp: live_def d)
qed

lemma mset_map_remove1:
  "i \<in> set xs \<Longrightarrow> mset (map f xs) = add_mset (f i) (mset (map f (remove1 i xs)))"
  by (induction xs) auto

text \<open>An interface to the state: its handlers and other threads keep \<open>reach\<close>, and every
  served call is answered.\<close>

locale rpc_service =
  fixes served :: "RequestTypes list"
    and type_of :: "'r \<Rightarrow> RequestTypes"
    and dispatch :: "'k \<Rightarrow> RequestTypes \<Rightarrow> 'r option \<Rightarrow> 's \<Rightarrow> fault + 's \<times> 'a option"
    and background :: "'s \<Rightarrow> 's \<Rightarrow> bool"
    and reach :: "'s \<Rightarrow> bool"
  assumes answers: "dispatch k (type_of r) (Some r) s = Inr (t, a) \<Longrightarrow> a \<noteq> None"
    and serves: "dispatch k (type_of r) (Some r) s = Inr (t, a) \<Longrightarrow> reach s \<Longrightarrow> reach t"
    and others: "background s t \<Longrightarrow> reach s \<Longrightarrow> reach t"
begin

text \<open>When a call arrives, a new object is registered for its kind, the handler runs, and the reply is sent.\<close>

lemma arrive_effect:
  assumes inv: "service_inv served reach d" and i: "i \<in> set (svc_registered d)"
    and c: "svc_objects d ! i = Some c" "ro_type c = type_of r"
    and p: "Proceed served (dispatch k) i
       (d\<lparr>svc_registered := remove1 i (svc_registered d),
          svc_objects := (svc_objects d)[i := Some (c\<lparr>ro_request := Some r\<rparr>)]\<rparr>) = Inr e"
  defines "objs \<equiv> (svc_objects d)[i := Some (c\<lparr>ro_request := Some r, ro_status := FINISH\<rparr>)] @
    [Some \<lparr>ro_type = type_of r, ro_status = PROCESS_CALL, ro_request = None\<rparr>]"
  shows "svc_objects e = objs" "svc_registered e = remove1 i (svc_registered d) @ [length (svc_objects d)]"
    "svc_finishing e = svc_finishing d @ [i]" "reach (svc_state e)"
proof -
  have len: "i < length (svc_objects d)" and st: "ro_status c = PROCESS_CALL"
    using service_invD(3) [OF inv i] c by (auto simp: live_def)
  have "type_of r \<in> set (map (type_at d) (svc_registered d))" using i c by (force simp: type_at_def)
  then have ty: "type_of r \<in> set served" using mset_eq_setD [OF service_invD(5) [OF inv]] by simp
  define d1 where "d1 = d\<lparr>svc_registered := remove1 i (svc_registered d) @ [length (svc_objects d)], svc_objects := objs\<rparr>"
  have "ebind (dispatch k (type_of r) (Some r) (svc_state d)) (\<lambda>(s, reply).
      case reply of None \<Rightarrow> Ok (d1\<lparr>svc_state := s\<rparr>)
      | Some a \<Rightarrow> Ok (d1\<lparr>svc_state := s, svc_finishing := svc_finishing d @ [i], svc_replies := svc_replies d @ [(i, a)]\<rparr>)) = Inr e"
    using p len st c(2) ty unfolding d1_def objs_def
    by (simp add: Proceed_def new_RequestData_eq list_update_append vec_get_def Let_def split del: ebind_split)
  then obtain s q where s: "dispatch k (type_of r) (Some r) (svc_state d) = Inr (s, q)"
    and q: "(case q of None \<Rightarrow> Ok (d1\<lparr>svc_state := s\<rparr>)
      | Some a \<Rightarrow> Ok (d1\<lparr>svc_state := s, svc_finishing := svc_finishing d @ [i], svc_replies := svc_replies d @ [(i, a)]\<rparr>)) = Inr e"
    by (auto split: prod.splits)
  then show "svc_objects e = objs" "svc_registered e = remove1 i (svc_registered d) @ [length (svc_objects d)]"
    "svc_finishing e = svc_finishing d @ [i]"
    using answers [OF s] by (auto simp: d1_def)
  have "svc_state e = s" using q answers [OF s] by auto
  then show "reach (svc_state e)" using serves [OF s] service_invD(6) [OF inv] by simp
qed

lemma arrive_inv:
  assumes inv: "service_inv served reach d" and i: "i \<in> set (svc_registered d)"
    and c: "svc_objects d ! i = Some c" "ro_type c = type_of r"
    and p: "Proceed served (dispatch k) i
       (d\<lparr>svc_registered := remove1 i (svc_registered d),
          svc_objects := (svc_objects d)[i := Some (c\<lparr>ro_request := Some r\<rparr>)]\<rparr>) = Inr e"
  shows "service_inv served reach e"
proof -
  note e = arrive_effect [OF assms]
  define n where "n = length (svc_objects d)"
  have len: "i < n" and st: "ro_status c = PROCESS_CALL"
    using service_invD(3) [OF inv i] c by (auto simp: live_def n_def)
  have fin: "i \<notin> set (svc_finishing d)"
    using service_invD(4) [OF inv, of i] c(1) st by (auto simp: live_def)
  have other: "svc_objects e ! j = svc_objects d ! j" if "j < n" "j \<noteq> i" for j
    using that by (simp add: e(1) n_def nth_append)
  have new: "live e n PROCESS_CALL" "type_at e n = type_at d i" "live e i FINISH"
    using len c by (simp_all add: live_def type_at_def e(1) n_def nth_append)
  have bound: "j < n" if "j \<in> set (svc_registered d) \<union> set (svc_finishing d)" for j
    using that service_invD(3,4) [OF inv] by (auto simp: live_def n_def)
  have live_j: "live e j st' = live d j st'" if "j < n" "j \<noteq> i" for j st'
    using that other [OF that] by (simp add: live_def n_def) (simp add: e(1))
  have dis: "distinct (svc_registered d)" by (rule service_invD(1) [OF inv])
  have types: "map (type_at e) (remove1 i (svc_registered d)) = map (type_at d) (remove1 i (svc_registered d))"
    using dis other bound by (intro type_at_cong type_at_same) auto
  have "mset (map (type_at e) (svc_registered e)) =
      add_mset (type_at d i) (mset (map (type_at d) (remove1 i (svc_registered d))))"
    unfolding e(2) map_append types by (simp add: new(2) [unfolded n_def])
  also have "\<dots> = mset served" unfolding mset_map_remove1 [OF i, symmetric] by (rule service_invD(5) [OF inv])
  finally have m: "mset (map (type_at e) (svc_registered e)) = mset served" .
  show ?thesis
  proof (rule service_invI [OF _ _ _ _ m])
    show "distinct (svc_registered e)" "distinct (svc_finishing e)"
      using dis service_invD(2) [OF inv] fin bound by (auto simp: e n_def dest: notin_set_remove1)
    show "live e j PROCESS_CALL" if "j \<in> set (svc_registered e)" for j
      using that dis new(1) live_j bound service_invD(3) [OF inv] by (cases "j = n") (auto simp: e(2) n_def [symmetric])
    show "live e j FINISH" if "j \<in> set (svc_finishing e)" for j
      using that new(3) live_j bound service_invD(4) [OF inv] by (cases "j = i") (auto simp: e(3))
    show "reach (svc_state e)" by (rule e(4))
  qed
qed

lemma finished_inv:
  assumes inv: "service_inv served reach d" and i: "i \<in> set (svc_finishing d)"
    and p: "Proceed served (dispatch k) i (d\<lparr>svc_finishing := remove1 i (svc_finishing d)\<rparr>) = Inr e"
  shows "service_inv served reach e"
proof -
  obtain c where c: "i < length (svc_objects d)" "svc_objects d ! i = Some c" "ro_status c = FINISH"
    using service_invD(4) [OF inv i] by (auto simp: live_def)
  have e: "e = d\<lparr>svc_finishing := remove1 i (svc_finishing d), svc_objects := (svc_objects d)[i := None]\<rparr>"
    using p c by (simp add: Proceed_def vec_get_def)
  have reg: "i \<notin> set (svc_registered d)" using service_invD(3) [OF inv, of i] c by (auto simp: live_def)
  have fin: "distinct (svc_finishing d)" by (rule service_invD(2) [OF inv])
  show ?thesis
  proof (rule service_inv_sub [OF inv])
    show "svc_objects e ! j = svc_objects d ! j" if "j \<in> set (svc_registered e) \<union> set (svc_finishing e)" for j
    proof -
      have "j \<noteq> i" using that reg fin by (auto simp: e)
      then show ?thesis by (simp add: e)
    qed
  qed (use fin service_invD(6) [OF inv] set_remove1_subset in \<open>auto simp: e\<close>)
qed

lemma step_inv:
  assumes "service_step served type_of dispatch background ev d e" and "service_inv served reach d"
  shows "service_inv served reach e"
  using assms
proof (cases rule: service_step.cases)
  case (arrive i c r k)
  show ?thesis by (rule arrive_inv [OF assms(2) arrive(2,4,5,6)])
next
  case (finished i k)
  show ?thesis by (rule finished_inv [OF assms(2) finished(2,3)])
next
  case (not_sent i)
  show ?thesis
    by (rule service_inv_sub [OF assms(2)])
      (use not_sent service_invD(2,6) [OF assms(2)] set_remove1_subset in auto)
next
  case (background s)
  show ?thesis
    by (rule service_inv_sub [OF assms(2)])
      (use background service_invD(2,6) [OF assms(2)] others in auto)
qed

end


section \<open>The server\<close>

text \<open>A call and its reply; the queries have replies with content. The clock is read by the handler.\<close>

datatype rpc =
    Call payload | Ask_Log | Ask_Db | Ask_Status int | Ask_ViewChanges | Ask_Performance

datatype rpc_reply =
    Empty_reply | Log_reply GetLogRes | Db_reply "int list" | Status_reply string
  | ViewChanges_reply "ViewChangesResEntry list" | Performance_reply "(int \<times> int) option"

definition server_served :: "RequestTypes list" where
  "server_served = [TRANSFER, PRE_PREPARE, PRE_PREPARE_OK, PREPARE, PREPARE_OK, COMMIT, VIEW_CHANGE,
     NEW_VIEW, CHECKPOINT, GET_LOG, GET_DB, GET_STATUS, GET_VIEW_CHANGES, GET_PERFORMANCE]"

fun rpc_type :: "rpc \<Rightarrow> RequestTypes" where
  "rpc_type (Call (P_Transfer m)) = TRANSFER"
| "rpc_type (Call (P_PrePrepare r)) = PRE_PREPARE"
| "rpc_type (Call (P_PrePrepareOk r)) = PRE_PREPARE_OK"
| "rpc_type (Call (P_Prepare r)) = PREPARE"
| "rpc_type (Call (P_PrepareOk r)) = PREPARE_OK"
| "rpc_type (Call (P_Commit r)) = COMMIT"
| "rpc_type (Call (P_ViewChange r)) = VIEW_CHANGE"
| "rpc_type (Call (P_NewView r)) = NEW_VIEW"
| "rpc_type (Call (P_Checkpoint r)) = CHECKPOINT"
| "rpc_type Ask_Log = GET_LOG"
| "rpc_type Ask_Db = GET_DB"
| "rpc_type (Ask_Status n) = GET_STATUS"
| "rpc_type Ask_ViewChanges = GET_VIEW_CHANGES"
| "rpc_type Ask_Performance = GET_PERFORMANCE"

definition empty_answer :: "fault + srv \<Rightarrow> fault + srv \<times> rpc_reply option" where
  "empty_answer r = ebind r (\<lambda>t. Ok (t, Some Empty_reply))"

text \<open>The switch of the second branch of \<open>Proceed\<close>: the handler of the object's type, on the request
  that gRPC stored in the member of that type.\<close>

fun server_switch :: "env \<Rightarrow> rpc \<Rightarrow> srv \<Rightarrow> fault + srv \<times> rpc_reply option" where
  "server_switch E (Call (P_Transfer m)) s = empty_answer (processTransfer E m s)"
| "server_switch E (Call (P_PrePrepare r)) s = empty_answer (processPrePrepare E r s)"
| "server_switch E (Call (P_PrePrepareOk r)) s = empty_answer (processPrePrepareOk E r s)"
| "server_switch E (Call (P_Prepare r)) s = empty_answer (processPrepare E r s)"
| "server_switch E (Call (P_PrepareOk r)) s = empty_answer (processPrepareOk E r s)"
| "server_switch E (Call (P_Commit r)) s = empty_answer (processCommit E r s)"
| "server_switch E (Call (P_ViewChange r)) s = empty_answer (processViewChange E r s)"
| "server_switch E (Call (P_NewView r)) s = empty_answer (processNewView E r s)"
| "server_switch E (Call (P_Checkpoint r)) s = empty_answer (processCheckpoint E r s)"
| "server_switch E Ask_Log s = ebind (GetLog s) (\<lambda>l. Ok (s, Some (Log_reply l)))"
| "server_switch E Ask_Db s = Ok (snd (GetDB s), Some (Db_reply (fst (GetDB s))))"
| "server_switch E (Ask_Status n) s = ebind (GetStatus n s) (\<lambda>st. Ok (s, Some (Status_reply st)))"
| "server_switch E Ask_ViewChanges s = Ok (s, Some (ViewChanges_reply (GetViewChanges s)))"
| "server_switch E Ask_Performance s = Ok (s, Some (Performance_reply (GetPerformance s)))"

definition server_dispatch :: "env \<Rightarrow> int \<times> bool \<Rightarrow> RequestTypes \<Rightarrow> rpc option \<Rightarrow> srv \<Rightarrow> fault + srv \<times> rpc_reply option" where
  "server_dispatch E k type q s =
     (case q of
        None \<Rightarrow> Ok (s, None)
      | Some r \<Rightarrow> if type = rpc_type r then server_switch (at_time E (fst k) (snd k)) r s else Ok (s, None))"

text \<open>The timers of the server run on their own threads.\<close>

definition timer_fires :: "env \<Rightarrow> srv \<Rightarrow> srv \<Rightarrow> bool" where
  "timer_fires E s t \<longleftrightarrow> (\<exists>x. server_step E s (Fire x) t)"

lemma empty_answer_Ok: "empty_answer r = Inr (t, a) \<longleftrightarrow> r = Inr t \<and> a = Some Empty_reply"
  by (auto simp: empty_answer_def)

text \<open>What a dispatched call does is a step of the server, or nothing.\<close>

lemma server_dispatch_step:
  assumes "server_dispatch E k (rpc_type r) (Some r) s = Inr (t, a)"
  shows "(t = s \<or> (\<exists>ev. server_step E s ev t)) \<and> a \<noteq> None"
proof -
  let ?E = "at_time E (fst k) (snd k)"
  have h: "server_switch ?E r s = Inr (t, a)" using assms by (simp add: server_dispatch_def)
  note step = server_step.receive [where t = "fst k" and j = "snd k" and E = E and s = s and s' = t]
  show ?thesis
  proof (cases r)
    case (Call p)
    with h have "handle ?E (Rpc p) s = Inr t \<and> a = Some Empty_reply"
      by (cases p) (auto simp: empty_answer_Ok)
    with step [of p] show ?thesis by blast
  next
    case Ask_Db
    then have "t = snd (GetDB s)" "a \<noteq> None" using h by auto
    moreover have "server_step E s Query_DB (snd (GetDB s))"
      by (rule server_step.query [where t = "fst k" and j = "snd k"]) simp
    ultimately show ?thesis by blast
  qed (use h in auto)
qed

interpretation server_rpc: rpc_service server_served rpc_type "server_dispatch E" "timer_fires E" "server_reach E i"
proof unfold_locales
  fix k r s t a assume d: "server_dispatch E k (rpc_type r) (Some r) s = Inr (t, a)"
  show "a \<noteq> None" using server_dispatch_step [OF d] by blast
  show "server_reach E i s \<Longrightarrow> server_reach E i t"
    using server_dispatch_step [OF d] server_reach.step by metis
next
  show "timer_fires E s t \<Longrightarrow> server_reach E i s \<Longrightarrow> server_reach E i t" for s t
    unfolding timer_fires_def using server_reach.step by metis
qed

definition server_service_start :: "int \<Rightarrow> (srv, rpc, rpc_reply) service \<Rightarrow> bool" where
  "server_service_start i d \<longleftrightarrow>
     (\<exists>name byz lc lcp. d = HandleRPCs_start server_served (PbftServerImpl i name byz lc lcp))"

abbreviation server_service_step :: "env \<Rightarrow> rpc service_event \<Rightarrow> (srv, rpc, rpc_reply) service \<Rightarrow> (srv, rpc, rpc_reply) service \<Rightarrow> bool" where
  "server_service_step E \<equiv> service_step server_served rpc_type (server_dispatch E) (timer_fires E)"

interpretation server_loop: component "server_service_start i" "server_service_step E"
  "\<lambda>es. service_inv server_served (server_reach E i)"
proof unfold_locales
  show "server_service_start i d \<Longrightarrow> service_inv server_served (server_reach E i) d" for d
    unfolding server_service_start_def by (auto intro!: start_inv server_reach.start)
  show "service_inv server_served (server_reach E i) s \<Longrightarrow> server_service_step E ev s t \<Longrightarrow>
      service_inv server_served (server_reach E i) t" for ev s t
    by (rule server_rpc.step_inv)
qed

section \<open>The client\<close>

datatype client_rpc = Call_Notify Response | Call_Process "int \<Rightarrow> int" "TransactionMsg list"

definition client_served :: "RequestTypes list" where
  "client_served = [NOTIFY, PROCESS]"

fun client_rpc_type :: "client_rpc \<Rightarrow> RequestTypes" where
  "client_rpc_type (Call_Notify r) = NOTIFY"
| "client_rpc_type (Call_Process clock ts) = PROCESS"

fun client_dispatch :: "env \<Rightarrow> int \<Rightarrow> RequestTypes \<Rightarrow> client_rpc option \<Rightarrow> client \<Rightarrow> fault + client \<times> unit option" where
  "client_dispatch E now NOTIFY (Some (Call_Notify r)) c =
     ebind (processNotify (E\<lparr>env_now := now\<rparr>) r c) (\<lambda>d. Ok (d, Some ()))"
| "client_dispatch E now PROCESS (Some (Call_Process clock ts)) c =
     ebind (processProcess (E\<lparr>env_now := now\<rparr>) clock ts c) (\<lambda>d. Ok (d, Some ()))"
| "client_dispatch E now type q c = Ok (c, None)"

text \<open>The operations of the client's request objects, which are those above for its two kinds of call.\<close>

definition client_create_call :: "nat \<Rightarrow> client_rpc RequestObject \<Rightarrow> (client, client_rpc, unit) service \<Rightarrow> (client, client_rpc, unit) service" where
  "client_create_call = create_call client_served"

definition client_new_RequestData :: "RequestTypes \<Rightarrow> (client, client_rpc, unit) service \<Rightarrow> (client, client_rpc, unit) service" where
  "client_new_RequestData = new_RequestData client_served"

definition client_Proceed :: "env \<Rightarrow> int \<Rightarrow> nat \<Rightarrow> (client, client_rpc, unit) service \<Rightarrow> fault + (client, client_rpc, unit) service" where
  "client_Proceed E now = Proceed client_served (client_dispatch E now)"

definition client_HandleRPCs_start :: "client \<Rightarrow> (client, client_rpc, unit) service" where
  "client_HandleRPCs_start = HandleRPCs_start client_served"

definition client_timer_fires :: "env \<Rightarrow> client \<Rightarrow> client \<Rightarrow> bool" where
  "client_timer_fires E c d \<longleftrightarrow> (\<exists>k < length (pc_transferTimers c). client_step E (Expire k) c d)"

definition client_reach :: "env \<Rightarrow> int \<Rightarrow> string \<Rightarrow> client \<Rightarrow> bool" where
  "client_reach E i name c \<longleftrightarrow> (\<exists>evs. client_run E i name evs c)"

lemma client_reach_step: "client_step E ev c d \<Longrightarrow> client_reach E i name c \<Longrightarrow> client_reach E i name d"
  unfolding client_reach_def using run_of.step by metis

interpretation client_rpcs: rpc_service client_served client_rpc_type "client_dispatch E" "client_timer_fires E"
  "client_reach E i name"
proof unfold_locales
  fix k r s t a assume d: "client_dispatch E k (client_rpc_type r) (Some r) s = Inr (t, a)"
  have "(\<exists>ev. client_step E ev s t) \<and> a \<noteq> None"
  proof (cases r)
    case (Call_Notify x)
    with d show ?thesis unfolding client_step_def by (auto intro!: exI [of _ "Notify x"])
  next
    case (Call_Process clock ts)
    with d show ?thesis unfolding client_step_def by (auto intro!: exI [of _ "Process clock ts"])
  qed
  then show "a \<noteq> None" and "client_reach E i name s \<Longrightarrow> client_reach E i name t"
    using client_reach_step by blast+
next
  show "client_timer_fires E s t \<Longrightarrow> client_reach E i name s \<Longrightarrow> client_reach E i name t" for s t
    unfolding client_timer_fires_def using client_reach_step by blast
qed

definition client_service_start :: "int \<Rightarrow> string \<Rightarrow> (client, client_rpc, unit) service \<Rightarrow> bool" where
  "client_service_start i name d \<longleftrightarrow> d = HandleRPCs_start client_served (PbftClientImpl i name)"

abbreviation client_service_step :: "env \<Rightarrow> client_rpc service_event \<Rightarrow> (client, client_rpc, unit) service \<Rightarrow> (client, client_rpc, unit) service \<Rightarrow> bool" where
  "client_service_step E \<equiv> service_step client_served client_rpc_type (client_dispatch E) (client_timer_fires E)"

interpretation client_loop: component "client_service_start i name" "client_service_step E"
  "\<lambda>es. service_inv client_served (client_reach E i name)"
proof unfold_locales
  show "client_service_start i name d \<Longrightarrow> service_inv client_served (client_reach E i name) d" for d
    unfolding client_service_start_def client_reach_def
    by (auto intro!: start_inv exI run_of.start simp: client_init_def)
  show "service_inv client_served (client_reach E i name) s \<Longrightarrow> client_service_step E ev s t \<Longrightarrow>
      service_inv client_served (client_reach E i name) t" for ev s t
    by (rule client_rpcs.step_inv)
qed

section \<open>Properties of the loops\<close>

text \<open>Exactly one object waits for each kind of call.\<close>

lemma one_listener:
  assumes inv: "service_inv served reach d" and "distinct served" and "T \<in> set served"
  shows "\<exists>!i. i \<in> set (svc_registered d) \<and> type_at d i = T"
proof -
  have m: "mset (map (type_at d) (svc_registered d)) = mset served" by (rule service_invD(5) [OF inv])
  then have dis: "distinct (map (type_at d) (svc_registered d))"
    using assms(2) mset_eq_imp_distinct_iff by blast
  have "T \<in> set (map (type_at d) (svc_registered d))" using mset_eq_setD [OF m] assms(3) by simp
  with dis show ?thesis by (auto simp: distinct_map inj_on_def)
qed

end
