(* ===== verification/Loop.thy ===== *)
theory Loop
  imports Dispatch
begin

text \<open>
  The rest of the loop of \<open>HandleRPCs\<close>, which is the same in the server and in the client: the completion
  objects of outgoing calls (\<open>ResponseData\<close>), one for every call made, which delete themselves when gRPC
  returns their tag; and the queue of the futures of the timers, of which an iteration removes the front
  when it is ready. An iteration of the loop takes a request event or none, a response event or
  none, and polls the queue; the events of this theory are these parts, in any order.
\<close>

section \<open>Completion objects and futures\<close>

text \<open>Completion objects are numbered as the calls are made; the list says which are not deleted yet.\<close>

definition HandleRPCResponse :: "nat \<Rightarrow> bool list \<Rightarrow> fault + bool list" where
  "HandleRPCResponse i cs = ebind (vec_get cs (int i)) (\<lambda>exists. if exists then Ok (cs[i := False]) else Fault Null_deref)"

definition poll_futures :: "(nat \<Rightarrow> bool) \<Rightarrow> nat list \<Rightarrow> nat list" where
  "poll_futures ready q = (case q of [] \<Rightarrow> [] | f # rest \<Rightarrow> if ready f then rest else q)"

text \<open>\<open>el_awaited\<close> are the tags of completion objects that gRPC has not returned yet. Futures are numbered
  as the timers are set: \<open>el_set\<close> of them so far, \<open>el_futures\<close> is the queue, \<open>el_ended\<close> are those whose
  closure has returned.\<close>

record ('s, 'r, 'a) event_loop =
  el_service :: "('s, 'r, 'a) service"
  el_calls :: "bool list"
  el_awaited :: "nat list"
  el_set :: nat
  el_futures :: "nat list"
  el_ended :: "nat set"

definition calls_made :: "nat \<Rightarrow> ('s, 'r, 'a) event_loop \<Rightarrow> ('s, 'r, 'a) event_loop" where
  "calls_made n L = L\<lparr>el_calls := el_calls L @ replicate n True,
     el_awaited := el_awaited L @ [length (el_calls L)..<length (el_calls L) + n]\<rparr>"

definition timers_set :: "nat \<Rightarrow> ('s, 'r, 'a) event_loop \<Rightarrow> ('s, 'r, 'a) event_loop" where
  "timers_set n L = L\<lparr>el_futures := el_futures L @ [el_set L..<el_set L + n], el_set := el_set L + n\<rparr>"

section \<open>The loop\<close>

datatype 'r loop_event = Service "'r service_event" | Response nat | Lost_response nat | Ended nat | Poll

text \<open>\<open>made\<close> counts the calls in a state, \<open>set_by\<close> the timers that an event has set.\<close>

inductive loop_step ::
  "('r service_event \<Rightarrow> ('s, 'r, 'a) service \<Rightarrow> ('s, 'r, 'a) service \<Rightarrow> bool) \<Rightarrow> ('s \<Rightarrow> nat) \<Rightarrow>
     ('r service_event \<Rightarrow> 's \<Rightarrow> 's \<Rightarrow> nat) \<Rightarrow> 'r loop_event \<Rightarrow> ('s, 'r, 'a) event_loop \<Rightarrow> ('s, 'r, 'a) event_loop \<Rightarrow> bool"
  for service made set_by where
  service: "service ev (el_service L) d \<Longrightarrow>
     loop_step service made set_by (Service ev) L
       (timers_set (set_by ev (svc_state (el_service L)) (svc_state d))
         (calls_made (made (svc_state d) - made (svc_state (el_service L))) (L\<lparr>el_service := d\<rparr>)))"
| response: "i \<in> set (el_awaited L) \<Longrightarrow> HandleRPCResponse i (el_calls L) = Inr cs \<Longrightarrow>
     loop_step service made set_by (Response i) L (L\<lparr>el_calls := cs, el_awaited := remove1 i (el_awaited L)\<rparr>)"
| lost: "i \<in> set (el_awaited L) \<Longrightarrow>
     loop_step service made set_by (Lost_response i) L (L\<lparr>el_awaited := remove1 i (el_awaited L)\<rparr>)"
| ended: "j < el_set L \<Longrightarrow> loop_step service made set_by (Ended j) L (L\<lparr>el_ended := insert j (el_ended L)\<rparr>)"
| poll: "loop_step service made set_by Poll L (L\<lparr>el_futures := poll_futures (\<lambda>j. j \<in> el_ended L) (el_futures L)\<rparr>)"

definition loop_start :: "('s, 'r, 'a) service \<Rightarrow> ('s, 'r, 'a) event_loop" where
  "loop_start d = \<lparr>el_service = d, el_calls = [], el_awaited = [], el_set = 0, el_futures = [], el_ended = {}\<rparr>"

section \<open>The invariant\<close>

text \<open>Every tag still to come names an object that exists; the queue holds the latest futures, and all that
  have left it have ended.\<close>

definition calls_inv :: "('s, 'r, 'a) event_loop \<Rightarrow> bool" where
  "calls_inv L \<longleftrightarrow> distinct (el_awaited L) \<and> (\<forall>i \<in> set (el_awaited L). i < length (el_calls L) \<and> el_calls L ! i)"

definition futures_inv :: "('s, 'r, 'a) event_loop \<Rightarrow> bool" where
  "futures_inv L \<longleftrightarrow> (\<exists>k \<le> el_set L. el_futures L = [k..<el_set L] \<and> {..<k} \<subseteq> el_ended L)"

definition loop_inv :: "(('s, 'r, 'a) service \<Rightarrow> bool) \<Rightarrow> ('s, 'r, 'a) event_loop \<Rightarrow> bool" where
  "loop_inv I L \<longleftrightarrow> I (el_service L) \<and> calls_inv L \<and> futures_inv L"

lemma loop_inv_start: "I d \<Longrightarrow> loop_inv I (loop_start d)"
  by (simp add: loop_inv_def loop_start_def calls_inv_def futures_inv_def)

lemma calls_inv_made: "calls_inv L \<Longrightarrow> calls_inv (calls_made n L)"
  by (fastforce simp: calls_inv_def calls_made_def nth_append)

lemma futures_inv_set: "futures_inv L \<Longrightarrow> futures_inv (timers_set n L)"
proof -
  assume "futures_inv L"
  then obtain k where k: "k \<le> el_set L" "el_futures L = [k..<el_set L]" "{..<k} \<subseteq> el_ended L"
    by (auto simp: futures_inv_def)
  then show "futures_inv (timers_set n L)"
    unfolding futures_inv_def by (intro exI [of _ k]) (simp add: timers_set_def upt_add_eq_append [symmetric])
qed

text \<open>The two parts of the invariant read different fields.\<close>

lemma loop_parts [simp]:
  "calls_inv (timers_set n L) = calls_inv L" "futures_inv (calls_made n L) = futures_inv L"
  "calls_inv (L\<lparr>el_service := d\<rparr>) = calls_inv L" "futures_inv (L\<lparr>el_service := d\<rparr>) = futures_inv L"
  "calls_inv (L\<lparr>el_futures := q\<rparr>) = calls_inv L" "calls_inv (L\<lparr>el_ended := e\<rparr>) = calls_inv L"
  "futures_inv (L\<lparr>el_calls := cs\<rparr>) = futures_inv L" "futures_inv (L\<lparr>el_awaited := a\<rparr>) = futures_inv L"
  "el_service (timers_set n L) = el_service L" "el_service (calls_made n L) = el_service L"
  by (simp_all add: calls_inv_def futures_inv_def timers_set_def calls_made_def)

lemma futures_inv_poll:
  assumes "futures_inv L"
  shows "futures_inv (L\<lparr>el_futures := poll_futures (\<lambda>j. j \<in> el_ended L) (el_futures L)\<rparr>)"
proof -
  obtain k where k: "k \<le> el_set L" "el_futures L = [k..<el_set L]" "{..<k} \<subseteq> el_ended L"
    using assms by (auto simp: futures_inv_def)
  show ?thesis
  proof (cases "k < el_set L \<and> k \<in> el_ended L")
    case True
    then have "{..<Suc k} \<subseteq> el_ended L" using k(3) by (auto simp: less_Suc_eq)
    with True k(2) show ?thesis unfolding futures_inv_def
      by (intro exI [of _ "Suc k"]) (simp add: poll_futures_def upt_conv_Cons)
  next
    case False
    then have "poll_futures (\<lambda>j. j \<in> el_ended L) (el_futures L) = el_futures L"
      using k(1,2) by (cases "k < el_set L") (auto simp: poll_futures_def upt_conv_Cons)
    with assms show ?thesis by (simp add: futures_inv_def)
  qed
qed

lemma loop_inv_step:
  assumes "loop_step service made set_by ev L M" and "loop_inv I L"
    and "\<And>ev d e. service ev d e \<Longrightarrow> I d \<Longrightarrow> I e"
  shows "loop_inv I M"
  using assms(1)
proof cases
  case (service e d)
  then have "I d" using assms(2,3) by (auto simp: loop_inv_def)
  then show ?thesis using assms(2) service(2) by (auto simp: loop_inv_def intro!: calls_inv_made futures_inv_set)
next
  case (response i cs)
  then have "cs = (el_calls L)[i := False]" by (auto simp: HandleRPCResponse_def split: if_splits)
  with response assms(2) have "calls_inv M"
    by (auto simp: loop_inv_def calls_inv_def nth_list_update dest: notin_set_remove1)
  with response assms(2) show ?thesis by (simp add: loop_inv_def)
next
  case (lost i)
  with assms(2) have "calls_inv M" by (auto simp: loop_inv_def calls_inv_def dest: notin_set_remove1)
  with lost assms(2) show ?thesis by (simp add: loop_inv_def)
next
  case (ended j)
  with assms(2) have "futures_inv M" by (auto simp: loop_inv_def futures_inv_def)
  with ended assms(2) show ?thesis by (simp add: loop_inv_def)
next
  case poll
  with assms(2) futures_inv_poll [of L] show ?thesis by (simp add: loop_inv_def)
qed

section \<open>The server\<close>

definition server_timers_set :: "rpc service_event \<Rightarrow> srv \<Rightarrow> srv \<Rightarrow> nat" where
  "server_timers_set ev s t = length (futures t) - length (futures s)"

definition server_loop_step ::
  "env \<Rightarrow> rpc loop_event \<Rightarrow> (srv, rpc, rpc_reply) event_loop \<Rightarrow> (srv, rpc, rpc_reply) event_loop \<Rightarrow> bool" where
  "server_loop_step E = loop_step (server_service_step E) (\<lambda>s. length (outbox s)) server_timers_set"

definition server_loop_start :: "int \<Rightarrow> (srv, rpc, rpc_reply) event_loop \<Rightarrow> bool" where
  "server_loop_start i L \<longleftrightarrow> (\<exists>d. server_service_start i d \<and> L = loop_start d)"

interpretation server_events: component "server_loop_start i" "server_loop_step E"
  "\<lambda>es. loop_inv (service_inv server_served (server_reach E i))"
proof unfold_locales
  show "server_loop_start i L \<Longrightarrow> loop_inv (service_inv server_served (server_reach E i)) L" for L
    unfolding server_loop_start_def using server_loop.inv_init loop_inv_start by blast
  fix ev L M
  assume inv: "loop_inv (service_inv server_served (server_reach E i)) L" and st: "server_loop_step E ev L M"
  show "loop_inv (service_inv server_served (server_reach E i)) M"
    by (rule loop_inv_step [OF st [unfolded server_loop_step_def] inv server_rpc.step_inv])
qed

section \<open>The client\<close>

text \<open>A timer that runs out leaves the client's list of pending timers.\<close>

definition client_timers_set :: "client_rpc service_event \<Rightarrow> client \<Rightarrow> client \<Rightarrow> nat" where
  "client_timers_set ev c d =
     length (pc_transferTimers d) + (case ev of Background \<Rightarrow> 1 | _ \<Rightarrow> 0) - length (pc_transferTimers c)"

definition client_loop_step ::
  "env \<Rightarrow> client_rpc loop_event \<Rightarrow> (client, client_rpc, unit) event_loop \<Rightarrow> (client, client_rpc, unit) event_loop \<Rightarrow> bool" where
  "client_loop_step E = loop_step (client_service_step E) (\<lambda>c. length (pc_calls c)) client_timers_set"

definition client_loop_start :: "int \<Rightarrow> string \<Rightarrow> (client, client_rpc, unit) event_loop \<Rightarrow> bool" where
  "client_loop_start i name L \<longleftrightarrow> L = loop_start (client_HandleRPCs_start (PbftClientImpl i name))"

interpretation client_events: component "client_loop_start i name" "client_loop_step E"
  "\<lambda>es. loop_inv (service_inv client_served (client_reach E i name))"
proof unfold_locales
  show "client_loop_start i name L \<Longrightarrow> loop_inv (service_inv client_served (client_reach E i name)) L" for L
    unfolding client_loop_start_def client_HandleRPCs_start_def
    by (auto intro!: loop_inv_start client_loop.inv_init simp: client_service_start_def)
  fix ev L M
  assume inv: "loop_inv (service_inv client_served (client_reach E i name)) L" and st: "client_loop_step E ev L M"
  show "loop_inv (service_inv client_served (client_reach E i name)) M"
    by (rule loop_inv_step [OF st [unfolded client_loop_step_def] inv client_rpcs.step_inv])
qed

section \<open>Properties of the loops\<close>

text \<open>No object is used after it is deleted, and no future is destroyed before its closure has returned, which
  would block the loop.\<close>

definition objects_safe :: "('s, 'r, 'a) event_loop \<Rightarrow> bool" where
  "objects_safe L \<longleftrightarrow>
     (\<forall>j \<in> set (svc_registered (el_service L)). live (el_service L) j PROCESS_CALL) \<and>
     (\<forall>j \<in> set (svc_finishing (el_service L)). live (el_service L) j FINISH) \<and>
     (\<forall>i \<in> set (el_awaited L). \<exists>cs. HandleRPCResponse i (el_calls L) = Inr cs) \<and>
     (\<forall>j < el_set L. j \<in> set (el_futures L) \<or> j \<in> el_ended L)"

lemma loop_inv_safe:
  assumes "loop_inv (service_inv served reach) L"
  shows "objects_safe L"
proof -
  have inv: "service_inv served reach (el_service L)" "calls_inv L" "futures_inv L"
    using assms by (simp_all add: loop_inv_def)
  obtain k where "k \<le> el_set L" "el_futures L = [k..<el_set L]" "{..<k} \<subseteq> el_ended L"
    using inv(3) by (auto simp: futures_inv_def)
  then have "\<forall>j < el_set L. j \<in> set (el_futures L) \<or> j \<in> el_ended L" by (metis atLeastLessThan_iff lessThan_iff not_le set_upt subsetD)
  moreover have "\<exists>cs. HandleRPCResponse i (el_calls L) = Inr cs" if "i \<in> set (el_awaited L)" for i
    using inv(2) that by (auto simp: calls_inv_def HandleRPCResponse_def)
  ultimately show ?thesis using service_invD(3,4) [OF inv(1)] unfolding objects_safe_def by blast
qed

text \<open>
  C31: The server always listens, and its loop uses its objects correctly. In every run of the loop
  there is exactly one request object that waits for each of the fourteen kinds of call; every tag
  that gRPC may still return names an object that is not deleted, waiting or finishing, or the
  completion object of an outgoing call; a future is only destroyed when its timer's closure has
  returned; and the server's state is one that a sequence of handled events leads to.
\<close>

theorem server_always_listens:
  assumes "run_of (server_loop_start i) (server_loop_step E) es L"
  shows "(\<forall>T \<in> set server_served. \<exists>!j. j \<in> set (svc_registered (el_service L)) \<and> type_at (el_service L) j = T) \<and>
    objects_safe L \<and> server_reach E i (svc_state (el_service L))"
proof -
  have inv: "loop_inv (service_inv server_served (server_reach E i)) L" by (rule server_events.run_inv [OF assms])
  then have svc: "service_inv server_served (server_reach E i) (el_service L)" by (simp add: loop_inv_def)
  have "distinct server_served" by (simp add: server_served_def)
  then show ?thesis
    using one_listener [OF svc] service_invD(6) [OF svc] loop_inv_safe [OF inv] by blast
qed

theorem server_always_listens_witness:
  "\<exists>!j. j \<in> set (svc_registered (HandleRPCs_start server_served (PbftServerImpl 1 ''S2'' False 0 0) :: (srv, rpc, rpc_reply) service)) \<and>
     type_at (HandleRPCs_start server_served (PbftServerImpl 1 ''S2'' False 0 0) :: (srv, rpc, rpc_reply) service) j = COMMIT"
proof -
  let ?d = "HandleRPCs_start server_served (PbftServerImpl 1 ''S2'' False 0 0) :: (srv, rpc, rpc_reply) service"
  have "run_of (server_loop_start 1) (server_loop_step sample_env) [] (loop_start ?d)"
    by (rule run_of.start) (auto simp: server_loop_start_def server_service_start_def intro!: exI)
  from server_always_listens [OF this] show ?thesis by (simp add: server_served_def loop_start_def)
qed

text \<open>
  The same for the client and its two kinds of call.
\<close>

theorem client_always_listens:
  assumes "run_of (client_loop_start i name) (client_loop_step E) es L"
  shows "(\<forall>T \<in> {NOTIFY, PROCESS}. \<exists>!j. j \<in> set (svc_registered (el_service L)) \<and> type_at (el_service L) j = T) \<and>
    objects_safe L \<and> client_reach E i name (svc_state (el_service L))"
proof -
  have inv: "loop_inv (service_inv client_served (client_reach E i name)) L" by (rule client_events.run_inv [OF assms])
  then have svc: "service_inv client_served (client_reach E i name) (el_service L)" by (simp add: loop_inv_def)
  have "distinct client_served" "set client_served = {NOTIFY, PROCESS}" by (auto simp: client_served_def)
  then show ?thesis
    using one_listener [OF svc] service_invD(6) [OF svc] loop_inv_safe [OF inv] by blast
qed

end
