(* ===== verification/Startup.thy ===== *)
theory Startup
  imports Cluster Driver
begin

text \<open>
  The two programs that the driver starts (\<open>main\<close> and \<open>run\<close> of \<open>server/async_server.cc\<close> and
  \<open>client/pbft_client.cc\<close>): from the arguments that the driver passes to the object that handles the
  calls, the address it listens at and the channels to the other processes.
\<close>

section \<open>Arguments\<close>

text \<open>What \<open>execl\<close> passes after the program's name.\<close>

fun arguments :: "program \<Rightarrow> string list" where
  "arguments (Server_program i name address byz) =
     [to_string i, name, address, if byz then ''true'' else ''false'']"
| "arguments (Client_program i name address) = [to_string i, name, address]"

section \<open>The programs\<close>

text \<open>A process that serves: its object, its address, and the addresses of its server and client stubs
  in the order of the stub vectors.\<close>

record 'o process =
  pr_object :: 'o
  pr_listens :: string
  pr_serverStubs :: "string list"
  pr_clientStubs :: "string list"

datatype 'o launch = Exits int | Serves "'o process"

definition server_run :: "string \<Rightarrow> srv \<Rightarrow> srv process" where
  "server_run targetAddress s =
     \<lparr>pr_object = s, pr_listens = targetAddress, pr_serverStubs = map snd serverAddresses,
      pr_clientStubs = map snd clientAddresses\<rparr>"

text \<open>\<open>lc\<close> and \<open>lcp\<close> are what the constructor leaves in the members it does not set. An exception is
  reported, and the exit status is 0 then.\<close>

definition server_main :: "int \<Rightarrow> int \<Rightarrow> string list \<Rightarrow> srv launch" where
  "server_main lc lcp args =
     (case args of
        a1 # a2 # a3 # a4 # _ \<Rightarrow>
          (case stoi a1 of
             Inl e \<Rightarrow> Exits 0
           | Inr i \<Rightarrow> Serves (server_run a3 (PbftServerImpl i a2 (a4 = ''true'') lc lcp)))
      | _ \<Rightarrow> Exits 1)"

definition client_process_run :: "string \<Rightarrow> client \<Rightarrow> client process" where
  "client_process_run targetAddress c =
     \<lparr>pr_object = c, pr_listens = targetAddress, pr_serverStubs = map snd serverAddresses, pr_clientStubs = []\<rparr>"

definition client_main :: "string list \<Rightarrow> client launch" where
  "client_main args =
     (case args of
        a1 # a2 # a3 # _ \<Rightarrow>
          (case stoi a1 of
             Inl e \<Rightarrow> Exits 0
           | Inr i \<Rightarrow> Serves (client_process_run a3 (PbftClientImpl i a2)))
      | _ \<Rightarrow> Exits 1)"

section \<open>What the driver starts\<close>

text \<open>The programs with the arguments that belong to a name.\<close>

definition server_number :: "string \<Rightarrow> nat \<Rightarrow> bool" where
  "server_number n k \<longleftrightarrow> k < length serverNames \<and> serverNames ! k = n"

definition client_number :: "string \<Rightarrow> nat \<Rightarrow> bool" where
  "client_number n k \<longleftrightarrow> k < length clientAddresses \<and> fst (clientAddresses ! k) = n"

fun well_started :: "program \<Rightarrow> bool" where
  "well_started (Server_program i n a b) \<longleftrightarrow>
     (\<exists>k. server_number n k \<and> i = int k \<and> a = map snd serverAddresses ! k)"
| "well_started (Client_program i n a) \<longleftrightarrow>
     (\<exists>k. client_number n k \<and> i = int k \<and> a = map snd clientAddresses ! k)"

definition programs_ok :: "procs \<Rightarrow> bool" where
  "programs_ok p \<longleftrightarrow> (\<forall>x \<in> set (ps_children p). well_started (snd x))"

lemma programs_ok_put: "programs_ok p \<Longrightarrow> well_started prog \<Longrightarrow> ps_children q = sm_put pid prog (ps_children p) \<Longrightarrow> programs_ok q"
  by (auto simp: programs_ok_def dest!: sm_put_mem)

lemma programs_ok_erase: "programs_ok p \<Longrightarrow> ps_children q = sm_erase pid (ps_children p) \<Longrightarrow> programs_ok q"
  using set_sm_erase [of pid "ps_children p"] by (auto simp: programs_ok_def)

lemma server_table:
  "list_all (\<lambda>k. serverNames ! k = fst (serverAddresses ! k) \<and>
     (case string_at (fst (serverAddresses ! k)) 1 of Inl e \<Rightarrow> False
      | Inr c \<Rightarrow> int (char_code c) - int (char_code (CHR ''1'')) = int k)) [0..<7]"
  by code_simp

lemma client_table:
  "list_all (\<lambda>k. case string_at (fst (clientAddresses ! k)) 0 of Inl e \<Rightarrow> False
      | Inr c \<Rightarrow> int (char_code c) - int (char_code (CHR ''A'')) = int k) [0..<10]"
  by code_simp

lemma table_lengths: "length serverNames = 7" "length serverAddresses = 7" "length clientAddresses = 10"
  by (simp_all add: serverNames_def serverAddresses_def clientAddresses_def)

lemma server_of_name:
  assumes "sm_find serverAddresses n = Some a" and "string_at n 1 = Inr c"
  shows "well_started (Server_program (int (char_code c) - int (char_code (CHR ''1''))) n a b)"
proof -
  have "(n, a) \<in> set serverAddresses" by (rule map_of_SomeD [OF assms(1)])
  then obtain k where k: "k < 7" "serverAddresses ! k = (n, a)" by (auto simp: in_set_conv_nth table_lengths)
  then have "serverNames ! k = n" "int (char_code c) - int (char_code (CHR ''1'')) = int k"
    using server_table assms(2) unfolding list_all_iff by (force split: sum.splits)+
  then show ?thesis using k unfolding well_started.simps
    by (intro exI [of _ k]) (simp add: server_number_def table_lengths)
qed

lemma client_of_name:
  assumes "sm_find clientAddresses n = Some a" and "string_at n 0 = Inr c"
  shows "well_started (Client_program (int (char_code c) - int (char_code (CHR ''A''))) n a)"
proof -
  have "(n, a) \<in> set clientAddresses" by (rule map_of_SomeD [OF assms(1)])
  then obtain k where k: "k < 10" "clientAddresses ! k = (n, a)" by (auto simp: in_set_conv_nth table_lengths)
  then have "int (char_code c) - int (char_code (CHR ''A'')) = int k"
    using client_table assms(2) unfolding list_all_iff by (force split: sum.splits)
  then show ?thesis using k unfolding well_started.simps
    by (intro exI [of _ k]) (simp add: client_number_def table_lengths)
qed

text \<open>Every operation on the processes keeps this, also when it throws.\<close>

lemma programs_start:
  "programs_ok p \<Longrightarrow> programs_ok (snd (startServer fork n b p))"
  "programs_ok p \<Longrightarrow> programs_ok (snd (startClient fork n p))"
  by (auto simp: startServer_def startClient_def Let_def split: option.split ebind_split
      elim!: programs_ok_put intro: server_of_name client_of_name)

lemma programs_kill:
  "programs_ok p \<Longrightarrow> programs_ok (snd (killServer n p))"
  "programs_ok p \<Longrightarrow> programs_ok (snd (killClient n p))"
  by (auto simp: killServer_def killClient_def wait_child_def is_child_def split: option.split elim!: programs_ok_erase)

lemma programs_all:
  "programs_ok p \<Longrightarrow> programs_ok (snd (killAllServers p))"
  "programs_ok p \<Longrightarrow> programs_ok (snd (killAllClients p))"
  "programs_ok p \<Longrightarrow> programs_ok (snd (initializeClients fork p))"
  unfolding killAllServers_def killAllClients_def initializeClients_def
  by (rule each_effect_invariant, assumption, rule programs_start programs_kill, assumption)+

lemma programs_start_set:
  assumes "programs_ok p"
  shows "programs_ok (snd (start_set fork firstSet s p))"
  unfolding start_set_def
  by (intro andThen_invariant [where P = programs_ok] each_effect_invariant [where P = programs_ok])
    (simp_all add: assms programs_all programs_start)

lemma programs_command:
  assumes "programs_ok (dr_procs d)"
  shows "programs_ok (dr_procs (snd (run_command fork N c d)))"
proof (cases "ac_command c")
  case PROCESS_NEXT_SET
  obtain n s r where n: "readNextSet (dr_set d) (dr_reader d) = (n, s, r)" by (cases "readNextSet (dr_set d) (dr_reader d)")
  have "programs_ok (snd (start_set fork (dr_firstSet d) s (dr_procs d)))" by (rule programs_start_set [OF assms])
  with assms PROCESS_NEXT_SET n show ?thesis
    by (auto simp: run_command_def process_next_set_def say_def Let_def split: sum.split prod.split option.split)
next
  case EXIT
  have "programs_ok (snd (andThen (killAllServers (dr_procs d)) killAllClients))"
    by (intro andThen_invariant [where P = programs_ok]) (simp_all add: assms programs_all)
  with EXIT show ?thesis by (auto simp: run_command_def say_def Let_def split: prod.split)
qed (use assms in \<open>auto simp: run_command_def say_def unchanged_def Let_def split: prod.split sum.split ebind_split\<close>)

lemma programs_round:
  assumes "loop_round fork N command d = Inr (Next e)" and "programs_ok (dr_procs d)"
  shows "programs_ok (dr_procs e)"
proof (cases "parseCommand command")
  case (Inr c)
  obtain t b where b: "run_command fork N c d = (t, b)" by (cases "run_command fork N c d")
  have "programs_ok (dr_procs b)" using programs_command [OF assms(2), of fork N c] b by simp
  moreover have "dr_procs e = dr_procs b"
    using assms(1) Inr by (auto simp: loop_round_def b report_def Let_def split: option.splits fault.splits if_splits)
  ultimately show ?thesis by simp
qed (use assms in \<open>auto simp: loop_round_def say_def split: fault.splits cpp_exn.splits\<close>)

lemma programs_run: "driver_run fork reader cs d \<Longrightarrow> programs_ok (dr_procs d)"
proof (induction rule: run_of.induct)
  case (start d)
  then show ?case by (auto simp: driver_init_def new_driver_def no_procs_def programs_ok_def)
next
  case (step cs d c e)
  then show ?case by (auto simp: driver_step_def intro: programs_round)
qed

section \<open>The started servers as a cluster\<close>

text \<open>A server program with its own arguments serves as the server of its number.\<close>

lemma server_main_arguments:
  assumes "well_started (Server_program i n a b)"
  shows "\<exists>k. server_number n k \<and> server_main lc lcp (arguments (Server_program i n a b)) =
    Serves (server_run (map snd serverAddresses ! k) (PbftServerImpl (int k) n b lc lcp))"
proof -
  obtain k where k: "server_number n k" "i = int k" "a = map snd serverAddresses ! k" using assms by auto
  then have "in_int32 i" by (simp add: server_number_def table_lengths)
  from stoi_to_string [OF this] k show ?thesis
    by (intro exI [of _ k]) (simp add: server_main_def)
qed

text \<open>The servers that the table lists, as the states they start in; \<open>mode\<close> says which are Byzantine.\<close>

definition started_cluster :: "int \<Rightarrow> int \<Rightarrow> procs \<Rightarrow> cluster" where
  "started_cluster lc lcp p i =
     PbftServerImpl i (serverNames ! nat i) (running_servers p (serverNames ! nat i) = Some True) lc lcp"

definition serves_in :: "cluster \<Rightarrow> int \<Rightarrow> int \<Rightarrow> procs \<Rightarrow> string \<Rightarrow> int \<Rightarrow> bool" where
  "serves_in C lc lcp p n pid \<longleftrightarrow> (\<exists>k prog. server_number n k \<and> sm_find (ps_children p) pid = Some prog \<and>
     server_main lc lcp (arguments prog) = Serves (server_run (map snd serverAddresses ! k) (C (int k))) \<and>
     serverStub (int k) = Inr (int k) \<and> k < length (ac_serverStubs AppClient) \<and>
     ac_serverStubs AppClient ! k = map snd serverAddresses ! k)"

text \<open>
  C38: The servers that the driver runs are servers of the cluster. At any time, the process that
  the driver's table lists for a server's name has been given arguments with which its \<open>main\<close> serves as the
  server of that number, in the mode the driver wants, at the address to which the stub of that number
  leads in every other process, the driver included; together these processes begin in an initial state of the cluster.
\<close>

theorem started_servers_are_cluster:
  assumes run: "driver_run fork reader cs d" and f: "fork_ok fork"
    and "sm_find (ps_serverPIDs (dr_procs d)) n = Some pid"
  shows "cluster_reach E (started_cluster lc lcp (dr_procs d)) \<and>
    serves_in (started_cluster lc lcp (dr_procs d)) lc lcp (dr_procs d) n pid"
proof
  show "cluster_reach E (started_cluster lc lcp (dr_procs d))"
    by (rule cluster_reach.start) (auto simp: started_cluster_def)
  have ok: "procs_ok (dr_procs d)" using driver_run_inv [OF run f] by (simp add: driver_inv_def)
  obtain i a b where c: "sm_find (ps_children (dr_procs d)) pid = Some (Server_program i n a b)"
    using procs_okD(1) [OF ok assms(3)] by blast
  have "well_started (Server_program i n a b)"
    using programs_run [OF run] map_of_SomeD [OF c] by (auto simp: programs_ok_def simp del: well_started.simps)
  from server_main_arguments [OF this, of lc lcp] obtain k where k: "server_number n k"
    "server_main lc lcp (arguments (Server_program i n a b)) =
       Serves (server_run (map snd serverAddresses ! k) (PbftServerImpl (int k) n b lc lcp))"
    by blast
  have "running_servers (dr_procs d) n = Some b" using assms(3) c by (simp add: running_servers_def)
  then have "started_cluster lc lcp (dr_procs d) (int k) = PbftServerImpl (int k) n b lc lcp"
    using k(1) by (auto simp: started_cluster_def server_number_def)
  moreover have "serverStub (int k) = Inr (int k)" using k(1) by (simp add: server_number_def table_lengths)
  ultimately show "serves_in (started_cluster lc lcp (dr_procs d)) lc lcp (dr_procs d) n pid"
    using k c unfolding serves_in_def
    by (intro exI [of _ k] exI [of _ "Server_program i n a b"]) (simp add: AppClient_def server_number_def table_lengths)
qed

lemma sample_S1:
  "case process_next_set sample_fork sample_start of (f, b) \<Rightarrow> f = None \<and> sm_find (ps_serverPIDs (dr_procs b)) ''S1'' \<noteq> None"
  by code_simp

theorem started_servers_are_cluster_witness:
  "\<exists>(d::driver) pid. serves_in (started_cluster 0 0 (dr_procs d)) 0 0 (dr_procs d) ''S1'' pid"
proof (rule sample_next)
  fix e assume e: "loop_round sample_fork silent_net ''processNextSet'' sample_start = Inr (Next e)"
    and r: "driver_run sample_fork sample_reader [''processNextSet''] e"
  have "\<exists>pid. sm_find (ps_serverPIDs (dr_procs e)) ''S1'' = Some pid"
    using e sample_S1 by (cases "process_next_set sample_fork sample_start")
      (auto simp: loop_round_def parse_plain run_command_def plain_def Let_def split: if_splits)
  then obtain pid where pid: "sm_find (ps_serverPIDs (dr_procs e)) ''S1'' = Some pid" ..
  from started_servers_are_cluster [OF r sample_fork_ok pid, of sample_env 0 0] show ?thesis by blast
qed

text \<open>A client program serves as the client of its number, under its name; its requests are then signed
  with the key of that number.\<close>

theorem client_main_arguments:
  assumes "well_started (Client_program i n a)"
  shows "\<exists>k. client_number n k \<and> client_main (arguments (Client_program i n a)) =
    Serves (client_process_run (map snd clientAddresses ! k) (PbftClientImpl (int k) n)) \<and>
    clientStub (int k) = Inr (int k)"
proof -
  obtain k where k: "client_number n k" "i = int k" "a = map snd clientAddresses ! k" using assms by auto
  then have "in_int32 i" by (simp add: client_number_def table_lengths)
  from stoi_to_string [OF this] k show ?thesis
    by (intro exI [of _ k]) (simp add: client_main_def client_number_def table_lengths)
qed

end
