(* ===== verification/Report.thy ===== *)
theory Report
  imports Driver Server_Ledger Sample
begin

text \<open>
  The driver's \<open>printDB\<close> with the servers behind its stubs: what it prints are the balances of the ledger
  that each server keeps.
\<close>

section \<open>The servers behind the stubs\<close>

text \<open>The calls of \<open>GetDb\<close> lead to the servers \<open>C\<close>; those that are not in \<open>up\<close> do not answer.\<close>

definition db_net :: "(int \<Rightarrow> srv) \<Rightarrow> int set \<Rightarrow> net \<Rightarrow> net" where
  "db_net C up N = N\<lparr>nt_db := \<lambda>i. if i \<in> up then Some (fst (GetDB (C i))) else None\<rparr>"

lemma read_balances_ledger: "fst (read_balances as b) = map (ledger_of b) as"
proof (induction as arbitrary: b)
  case (Cons a as)
  obtain v b1 where i: "sm_index 0 a b = (v, b1)" by fastforce
  from Cons [of b1] sm_index_ledger [OF i] show ?case by (simp add: i case_prod_beta Let_def)
qed simp

lemma GetDB_ledger: "fst (GetDB s) = map (\<lambda>j. ledger_of (balances s) (client_letter j)) [0..<10]"
proof -
  have "length clientAddresses = 10" by code_simp
  then show ?thesis by (simp add: GetDB_def case_prod_beta Let_def read_balances_ledger comp_def del: upt.simps upt_rec_numeral)
qed

section \<open>Rows and cells\<close>

text \<open>What a row shows of a client's balance.\<close>

definition shown_balance :: "(int \<Rightarrow> srv) \<Rightarrow> int set \<Rightarrow> int \<Rightarrow> nat \<Rightarrow> string" where
  "shown_balance C up i j = (if i \<in> up then to_string (ledger_of (balances (C i)) (client_letter j)) else ''-'')"

definition balance_line :: "(int \<Rightarrow> srv) \<Rightarrow> int set \<Rightarrow> int \<Rightarrow> string" where
  "balance_line C up i =
     setw 10 (''S'' @ to_string (i + 1)) @ ''|'' @ concat (map (\<lambda>j. setw 5 (shown_balance C up i j) @ ''|'') [0..<10])"

lemma clients_upto: "[0..num_clients - 1] = map int [0..<10]" by code_simp

lemma servers_upto: "[0..int (length serverNames) - 1] = map int [0..<7]" "[0..num_servers - 1] = map int [0..<7]"
  by code_simp+

lemma vec_get_map: "n < m \<Longrightarrow> vec_get (map f [0..<m]) (int n) = Inr (f n)"
  by (simp add: vec_get_def)

lemma db_row_map:
  "set ns \<subseteq> {0..<m} \<Longrightarrow> db_row (map f [0..<m]) (map int ns) = Inr (map (\<lambda>n. to_string (f n)) ns)"
  by (induction ns) (simp_all add: vec_get_map)

lemma db_cells_map:
  "set ns \<subseteq> {0..<m} \<Longrightarrow> db_cells (map f [0..<m]) (map int ns) = Inr (concat (map (\<lambda>n. setw 5 (f n) @ ''|'') ns))"
  by (induction ns) (simp_all add: vec_get_map)

lemma db_rows_map:
  "set ns \<subseteq> {0..<7} \<Longrightarrow> db_rows (db_net C up N) (map int ns) =
     Inr (map (\<lambda>n. map (shown_balance C up (int n)) [0..<10]) ns)"
proof (induction ns)
  case (Cons n ns)
  have stub: "serverStub (int n) = Inr (int n)" using Cons.prems by simp
  have row: "db_row (map (\<lambda>j. ledger_of b (client_letter j)) [0..<10]) (map int [0..<10]) =
      Inr (map (\<lambda>j. to_string (ledger_of b (client_letter j))) [0..<10])" for b
    by (rule db_row_map) simp
  have reply: "nt_db (db_net C up N) (int n) = (if int n \<in> up
      then Some (map (\<lambda>j. ledger_of (balances (C (int n))) (client_letter j)) [0..<10]) else None)"
    by (simp add: db_net_def GetDB_ledger del: upt.simps upt_rec_numeral)
  show ?case
    unfolding list.map db_rows.simps stub ebind.simps reply clients_upto
    using Cons row by (cases "int n \<in> up") (simp_all add: shown_balance_def [abs_def] comp_def del: upt.simps upt_rec_numeral)
qed simp

lemma db_lines_map:
  assumes "set ns \<subseteq> {0..<7}"
  shows "db_lines (map (\<lambda>n. map (shown_balance C up (int n)) [0..<10]) [0..<7]) (map int ns) =
    Inr (map (\<lambda>n. balance_line C up (int n)) ns)"
  using assms
proof (induction ns)
  case (Cons n ns)
  have "n < 7" using Cons.prems by simp
  then show ?case
    using Cons unfolding list.map db_lines.simps clients_upto
    by (simp add: vec_get_map db_cells_map balance_line_def del: upt.simps upt_rec_numeral)
qed simp

section \<open>The command\<close>

text \<open>The driver after a round that has printed \<open>lines\<close>.\<close>

definition after_round :: "string list \<Rightarrow> driver \<Rightarrow> driver" where
  "after_round lines d = (say lines d)\<lparr>dr_firstSet := False\<rparr>"

text \<open>
  C39: What \<open>printDB\<close> prints. The command never fails, whichever servers answer: for each of the seven
  servers there is one line, with the balances of the ten clients in the ledger of the server when it
  answers, and with a dash for each client when it does not; nothing else in the driver changes.
\<close>

theorem printDB_shows_balances:
  "loop_round fork (db_net C up N) ''printDB'' d =
     Ok (Next (after_round ([set_header (dr_setNo d), ''DB:'',
       setw 11 ''Server|'' @ concat (map (\<lambda>i. setw 5 [char_of (65 + nat i)] @ ''|'') [0..num_clients - 1])] @
       map (\<lambda>n. balance_line C up (int n)) [0..<7] @ [[]]) d))"
proof -
  have rows: "GetDb (db_net C up N) [] = Inr (map (\<lambda>n. map (shown_balance C up (int n)) [0..<10]) [0..<7])"
    unfolding GetDb_def servers_upto by (subst db_rows_map) simp_all
  have lines: "db_lines (map (\<lambda>n. map (shown_balance C up (int n)) [0..<10]) [0..<7]) [0..num_servers - 1] =
      Inr (map (\<lambda>n. balance_line C up (int n)) [0..<7])"
    unfolding servers_upto by (rule db_lines_map) simp
  have first: "(if dr_firstSet e then e\<lparr>dr_firstSet := False\<rparr> else e) = e\<lparr>dr_firstSet := False\<rparr>" for e :: driver
    by (cases e) simp
  have print: "run_command fork (db_net C up N) (plain PRINT_DB) d = (None, say ([set_header (dr_setNo d), ''DB:'',
       setw 11 ''Server|'' @ concat (map (\<lambda>i. setw 5 [char_of (65 + nat i)] @ ''|'') [0..num_clients - 1])] @
       map (\<lambda>n. balance_line C up (int n)) [0..<7] @ [[]]) d)"
    unfolding run_command_def plain_def AppCommand.simps Commands.case rows ebind.simps print_db_def lines unchanged_simps ..
  show ?thesis
    unfolding loop_round_def parse_plain(2) sum.case print prod.case option.case Let_def first
    by (simp only: after_round_def) (simp add: plain_def del: upt.simps upt_rec_numeral append.simps)
qed

end
