(* ===== verification/Spec2Isabelle.thy ===== *)
theory Spec2Isabelle
  imports System Liveness Server_Threads Loop Startup Report
begin

text \<open>
  A model of a bank replicated by PBFT: seven servers that order the transfers of ten clients (\<open>server/\<close>,
  \<open>client/\<close>, \<open>crypto/\<close>, \<open>proto/pbft.proto\<close>), and a driver that reads transfers from a file, starts
  and kills the processes and prints their state (\<open>driver.cc\<close>, \<open>app_client.cc\<close>, \<open>utils/\<close>). All paths
  are below \<open>src/src/\<close>.

  \<^bold>\<open>How the program works.\<close> The driver takes one set of transactions after the other from the
  CSV file, restarts clients and servers, and hands the transactions to the clients. A client signs one
  transfer at a time, sends it to the leader of the view it believes in, and waits for three replicas
  to answer alike; when its timer runs out it sends the transfer to all. The leader proposes it
  (pre-prepare), collects prepare and commit votes itself and broadcasts them as certificates (the linear
  variant of PBFT, with an optimistic path when all seven answer). Servers execute committed requests in
  sequence order, exchange checkpoints, and change the view when a timer suspects the leader.

  \<^bold>\<open>Modelling.\<close> A C++ operation is a function into \<open>fault + 'a\<close>: the left side is undefined
  behaviour or an exception that leaves the operation, the right side its result. Calls that leave a
  process are recorded in an outbox; calls that arrive, and timers that fire, are events. A handler runs
  as one step. \<open>std::map\<close> is a sorted association list, \<open>int\<close> is an integer with checked
  arithmetic, strings are lists of bytes. Where a caller catches exceptions (the driver), an operation
  also returns the state that an exception leaves (\<open>Effects\<close>). Protobuf serialisers, OpenSSL, the clock, the operating
  system's \<open>fork\<close> and the answers of remote processes are parameters (records \<open>env\<close> and \<open>net\<close>).

  \<^bold>\<open>The theories.\<close>
  \<^item> \<open>Prelude\<close>, \<open>Std_Map\<close>, \<open>Std_String\<close>, \<open>Component\<close>: faults, checked integers and vectors,
    \<open>std::map\<close>, the string functions the source uses (\<open>stoi\<close>, \<open>to_string\<close>, hexadecimal), and runs of an
    event-driven component with the locale of its invariants. \<open>Effects\<close>: operations that keep their state when
    they throw.
  \<^item> \<open>Messages\<close> (\<open>proto/pbft.proto\<close>, \<open>constants.cc\<close>, \<open>types/\<close>) and \<open>Crypto\<close> (\<open>crypto/crypto.cc\<close>).
  \<^item> The server, \<open>server/async_server.{h,cc}\<close>: \<open>Server_State\<close> (the fields, with a heap for the log entries
    that several containers share), \<open>Server_Net\<close> (sending and signing), \<open>Server_Exec\<close>
    (\<open>executePending\<close>, \<open>checkpoint\<close>, \<open>notifyClient\<close>), \<open>Server_Normal\<close> (the handlers of the
    normal case), \<open>Server_Checkpoint\<close>, \<open>Server_View\<close> (view changes and timers), \<open>Server_Query\<close>.
  \<^item> What is shown of the server: \<open>Server_Inv\<close> and \<open>Server_Steps\<close> (the step relation over messages and
    timers, the invariant of the window, slots and maps, monotone progress), \<open>Server_Ledger\<close> (execution
    refines a ledger), \<open>Server_Accounts\<close> (money is conserved), \<open>Server_Quorum\<close> and \<open>Server_Safety\<close>
    (certificates and their sizes), \<open>Server_Behaviour\<close> (each handler's outcome, branch by branch),
    \<open>Server_Change\<close> (view changes, checkpoints), \<open>Server_Reads\<close> (queries), \<open>Server_Proposals\<close> (the
    proposals a server has sent or accepted), \<open>Server_Replies\<close> (a server in its first view answers only
    what it has executed), \<open>Server_Outgoing\<close> (what the calls that a server makes carry: whose codes,
    signatures and senders). \<open>Sample\<close> holds the environment on which hypotheses are discharged. The
    invariant says of an entry's votes that they are filed under their senders (\<open>votes_wf\<close>), which is why a
    certificate has distinct ones.
  \<^item> \<open>Cluster\<close>: seven servers and the messages between them. It shows agreement within a view for what
    servers hold at any two times of a run, and a run in which two honest servers execute different
    requests for one sequence number in different views.
  \<^item> \<open>Server_Progress\<close> and \<open>Progress\<close>: no handler of the normal case faults on the way from a request to its
    execution, and a cluster without faults executes any number of requests in order. The window has twenty
    slots; the servers exchange a checkpoint after every ten requests (\<open>checkpointStepSize\<close>; the
    \<open>README\<close> says 50), it becomes stable, and the window moves on.
  \<^item> \<open>Client\<close> (\<open>client/pbft_client.cc\<close>): the queue of transfers, the quorum of replies, timers, the
    view, and the line it prints for a transfer that failed. Its invariant is an instance of the locale \<open>component\<close>.
  \<^item> \<open>Server_Threads\<close>: the closures that the server starts with \<open>std::async\<close>, in steps. The loop of
    \<open>executePending\<close> is cut into its moves; run alone they are the function, and interleaved with those of a
    second thread they execute a request twice.
  \<^item> \<open>System\<close>: the client and the servers together. If at most two servers are faulty, the others are in their
    first view and replies are authentic, what a client counts as processed was answered alike by three
    servers, and those of them that are not faulty have executed it with this result; but a client can sign
    a transfer that takes money from another one. \<open>Liveness\<close>: from the driver's call over the ten clients and seven servers to the replies, there
    is a run in which the payments of a list of transactions of the ten accounts are executed by every server
    and counted by their clients.
  \<^item> \<open>Dispatch\<close>: the request objects of the server and of the client (\<open>RequestData\<close>). The locale
    \<open>rpc_service\<close> is the interface of a service to its handlers; it is interpreted for both programs.
    \<open>Loop\<close>: the bodies of the two functions \<open>HandleRPCs\<close>, with the completion objects of outgoing calls
    (\<open>HandleRPCResponse\<close>), the queue of futures and the timers.
  \<^item> \<open>Csv\<close>, \<open>Commands\<close>, \<open>Processes\<close>, \<open>Driver\<close>: the input file, the command language, the table of
    child processes, and the main loop with everything it prints and every exception it reports. The
    standard input is a stream of characters; once it has ended, \<open>getline\<close> leaves its string as it is, so
    the last command is carried out again. The field \<open>ps_forks\<close> of the table of processes is a ghost: the
    processes ever started, in order, by which a property can say that one was started in this round.
    \<open>Report\<close> puts the servers behind the driver's stubs and states what \<open>printDB\<close> prints of their ledgers.
  \<^item> \<open>Startup\<close>: \<open>main\<close> and \<open>run\<close> of the programs that the driver starts. The processes in its table are the
    servers of the cluster.

  \<^bold>\<open>Loops.\<close> All loops are structural recursions or folds, with two exceptions. \<open>executePending\<close> runs
  from the last executed to the current sequence number, and it is recursive over that distance, so
  its totality needs no fuel. \<open>tokenizeCommand\<close> terminates by the length of its input. The loops of
  \<open>HandleRPCs\<close> do not end; their bodies are steps of a relation. \<open>mainloop\<close> of the driver takes a number of
  rounds, for each of which it reads one line; it is shown that once the input has ended it returns after
  no number of rounds, unless the command that it repeats is \<open>exit\<close>.

  \<^bold>\<open>Bounds.\<close> The clusters that make progress are asked for at most \<open>int32_max - 30\<close> requests
  (\<open>requests_ok\<close>): the sequence numbers are \<open>int\<close>s, and the window and the next checkpoint have to fit
  above the last one. The digests of the requests are assumed to differ, which the hash function has to grant.
  For a list of transactions the same bound is \<open>transactions_ok\<close>, which also says that the senders are the ten
  accounts and no amount is negative. Agreement does not assume that digests differ: its second half is up
  to a \<open>collision\<close> of two requests.

  \<^bold>\<open>Not modelled.\<close> Interleavings inside a handler: a handler and a closure of
  \<open>std::async\<close> are atomic steps of the relations above. The source has no lock that would make
  them so; \<open>Server_Threads\<close> shows what the missing lock allows at one place, and the other
  places are not cut into moves. The functions \<open>processSync\<close> and \<open>processSyncOk\<close>
  are declared and never defined or called. \<open>processPerformance\<close> of the client is not
  registered with any call. \<open>verifyMAC\<close> returns before its computation; what follows the return
  is kept as \<open>verifyMAC_rest\<close>, which nothing uses. What a channel does with its address, the
  floating-point rounding of the performance figures, and the stack trace that a server prints before it
  exits are left out, and a child whose \<open>execl\<close> fails is not followed. The state of the
  run-time system (queues of gRPC, the scheduler) is not modelled: any event may happen that the request
  objects wait for.
\<close>

end
